(* ===== verification/Prelude.thy ===== *)
theory Prelude
  imports Main "HOL-Library.AList" "HOL-Library.Multiset" "HOL-Library.Sublist"
begin

text \<open>
  The vocabulary every component of the development shares: the Go run-time notions the
  repository's code is written in.

  \<^item> \<open>outcome\<close>: how a Go call ends. It returns a value, it blocks (no case of a
    channel operation is ready), or it panics.
  \<^item> \<open>chan\<close>: a buffered Go channel with its capacity and its closed flag, and the
    blocking and non-blocking (\<^verbatim>\<open>select\<close> with \<^verbatim>\<open>default\<close>) operations on it.
  \<^item> \<open>select\<close>: a \<^verbatim>\<open>select\<close> statement over the list of its ready cases. Which ready
    case runs is the scheduler's choice; the choice is an explicit argument, and theorems
    quantify over it.
  \<^item> \<open>range_order\<close>: the order in which \<^verbatim>\<open>range\<close> visits a Go map. Go leaves the order
    unspecified; it too is an explicit choice, a number that selects one permutation.
  \<^item> \<open>itoa\<close>: decimal printing (\<^verbatim>\<open>%d\<close>).

  Capacities are those of the buffered channels the repository makes. A channel of
  capacity 0 (rendezvous) is never ready to send in this model; every channel of the
  repository has a positive constant capacity except the task queue of patterns 1 and 2,
  whose size is configuration (20 by default).
\<close>

section \<open>Fact collections\<close>

named_theorems chan_simps "unfolding rules for channel operations"
named_theorems map_simps "lookup and key rules for Go maps kept as association lists"

section \<open>Names for the Go types of the model\<close>

text \<open>Instants and durations are in nanoseconds, as \<^verbatim>\<open>time.Duration\<close> counts them.\<close>

type_synonym instant = int
type_synonym duration = int
type_synonym ('k, 'v) gomap = "('k \<times> 'v) list"

abbreviation Millisecond :: duration where "Millisecond \<equiv> 1000000"
abbreviation Second :: duration where "Second \<equiv> 1000 * Millisecond"

section \<open>Outcomes of calls\<close>

datatype 'a outcome = Ret 'a | Block | Panic

primrec obind :: "'a outcome \<Rightarrow> ('a \<Rightarrow> 'b outcome) \<Rightarrow> 'b outcome" where
  "obind (Ret a) f = f a"
| "obind Block f = Block"
| "obind Panic f = Panic"

primrec omap :: "('a \<Rightarrow> 'b) \<Rightarrow> 'a outcome \<Rightarrow> 'b outcome" where
  "omap f (Ret a) = Ret (f a)"
| "omap f Block = Block"
| "omap f Panic = Panic"

section \<open>Channels\<close>

record 'a chan =
  ch_buf :: "'a list"
  ch_cap :: nat
  ch_closed :: bool

definition make_chan :: "nat \<Rightarrow> 'a chan" where
  "make_chan n = \<lparr>ch_buf = [], ch_cap = n, ch_closed = False\<rparr>"

definition chan_room :: "'a chan \<Rightarrow> bool" where
  "chan_room c \<longleftrightarrow> length (ch_buf c) < ch_cap c"

definition chan_push :: "'a \<Rightarrow> 'a chan \<Rightarrow> 'a chan" where
  "chan_push v c = c\<lparr>ch_buf := ch_buf c @ [v]\<rparr>"

text \<open>\<^verbatim>\<open>c <- v\<close>: panics on a closed channel, blocks on a full one.\<close>

definition chan_send :: "'a \<Rightarrow> 'a chan \<Rightarrow> 'a chan outcome" where
  "chan_send v c =
     (if ch_closed c then Panic else if chan_room c then Ret (chan_push v c) else Block)"

text \<open>
  \<^verbatim>\<open>select { case c <- v: default: }\<close>: the flag says whether the value was accepted. A
  full channel takes the default branch; a closed one still panics.
\<close>

definition chan_try_send :: "'a \<Rightarrow> 'a chan \<Rightarrow> (bool \<times> 'a chan) outcome" where
  "chan_try_send v c =
     (if ch_closed c then Panic
      else if chan_room c then Ret (True, chan_push v c) else Ret (False, c))"

text \<open>
  \<^verbatim>\<open>v, ok := <-c\<close>: the oldest buffered value, \<^term>\<open>None\<close> (the zero value, not ok) on a
  closed drained channel; an empty open channel blocks.
\<close>

definition chan_recv :: "'a chan \<Rightarrow> ('a option \<times> 'a chan) outcome" where
  "chan_recv c =
     (case ch_buf c of
        v # vs \<Rightarrow> Ret (Some v, c\<lparr>ch_buf := vs\<rparr>)
      | [] \<Rightarrow> if ch_closed c then Ret (None, c) else Block)"

definition chan_close :: "'a chan \<Rightarrow> 'a chan outcome" where
  "chan_close c = (if ch_closed c then Panic else Ret (c\<lparr>ch_closed := True\<rparr>))"

text \<open>The number of buffered values never exceeds the capacity.\<close>

definition chan_ok :: "'a chan \<Rightarrow> bool" where
  "chan_ok c \<longleftrightarrow> length (ch_buf c) \<le> ch_cap c"

section \<open>Errors, contexts and select\<close>

text \<open>
  Go \<^verbatim>\<open>error\<close> values: the two sentinels of \<^verbatim>\<open>shared/contracts/producer.go\<close>, the two errors
  a context can end with, and every other error, known by its text.
\<close>

datatype go_error =
  ErrDispatchFull | ErrNoWorkers | ContextCanceled | ContextDeadlineExceeded | Errorf string

primrec error_text :: "go_error \<Rightarrow> string" where
  "error_text ErrDispatchFull = ''dispatch queue full''"
| "error_text ErrNoWorkers = ''no workers available''"
| "error_text ContextCanceled = ''context canceled''"
| "error_text ContextDeadlineExceeded = ''context deadline exceeded''"
| "error_text (Errorf s) = s"

text \<open>
  What a \<^verbatim>\<open>context.Context\<close> and the scheduler contribute at the moment of a call: whether
  \<^verbatim>\<open>ctx.Done()\<close> is ready, what \<^verbatim>\<open>ctx.Err()\<close> then is, and which of several ready cases a
  \<^verbatim>\<open>select\<close> takes.
\<close>

record ctx =
  ctx_done :: bool
  ctx_err :: go_error
  ctx_pick :: nat

definition Background :: ctx where
  "Background = \<lparr>ctx_done = False, ctx_err = ContextCanceled, ctx_pick = 0\<rparr>"

definition select :: "nat \<Rightarrow> 'a list \<Rightarrow> 'a outcome" where
  "select p alts = (if alts = [] then Block else Ret (alts ! (p mod length alts)))"

text \<open>\<^verbatim>\<open>case <-ctx.Done()\<close> as a list of ready alternatives.\<close>

definition on_done :: "ctx \<Rightarrow> 'a \<Rightarrow> 'a list" where
  "on_done c a = (if ctx_done c then [a] else [])"

text \<open>
  \<^verbatim>\<open>case v := <-ch\<close> as a list of ready alternatives; \<^term>\<open>zero\<close> is what a closed channel
  yields.
\<close>

definition on_recv :: "'a \<Rightarrow> 'a chan \<Rightarrow> ('a \<Rightarrow> 'a chan \<Rightarrow> 'b) \<Rightarrow> 'b list" where
  "on_recv zero c k =
     (case chan_recv c of
        Ret (Some v, c') \<Rightarrow> [k v c'] | Ret (None, c') \<Rightarrow> [k zero c'] | _ \<Rightarrow> [])"

text \<open>\<^verbatim>\<open>case c <- v\<close> as a list of ready alternatives, for an open channel.\<close>

definition on_send :: "'a \<Rightarrow> 'a chan \<Rightarrow> ('a chan \<Rightarrow> 'b) \<Rightarrow> 'b list" where
  "on_send v c k = (if chan_room c then [k (chan_push v c)] else [])"

section \<open>Map iteration order\<close>

text \<open>
  The permutation of a list with the given number: the head goes to a position chosen by
  the remainder, the tail is permuted by the quotient.
\<close>

definition insert_at :: "nat \<Rightarrow> 'a \<Rightarrow> 'a list \<Rightarrow> 'a list" where
  "insert_at i x xs = take i xs @ x # drop i xs"

fun range_order :: "nat \<Rightarrow> 'a list \<Rightarrow> 'a list" where
  "range_order p [] = []"
| "range_order p (x # xs) =
     insert_at (p mod Suc (length xs)) x (range_order (p div Suc (length xs)) xs)"

text \<open>
  \<^verbatim>\<open>for ch := range m { select { case ch <- v: default: } }\<close> over channel references: every
  channel is offered the value once, a full one drops it.
\<close>

fun offer_all :: "'a \<Rightarrow> nat list \<Rightarrow> (nat \<Rightarrow> 'a chan) \<Rightarrow> (nat \<Rightarrow> 'a chan) outcome" where
  "offer_all v [] h = Ret h"
| "offer_all v (i # is) h =
     obind (chan_try_send v (h i)) (\<lambda>(_, c). offer_all v is (h(i := c)))"

section \<open>Decimal printing\<close>

definition digit_char :: "nat \<Rightarrow> char" where
  "digit_char d = char_of (48 + d)"

fun itoa :: "nat \<Rightarrow> string" where
  "itoa n = (if n < 10 then [digit_char n] else itoa (n div 10) @ [digit_char (n mod 10)])"

declare itoa.simps [simp del]

section \<open>Lemmas on outcomes\<close>

lemma obind_eq_Ret [simp]:
  "obind x f = Ret b \<longleftrightarrow> (\<exists>a. x = Ret a \<and> f a = Ret b)"
  by (cases x) auto

lemma obind_eq_Block [simp]:
  "obind x f = Block \<longleftrightarrow> x = Block \<or> (\<exists>a. x = Ret a \<and> f a = Block)"
  by (cases x) auto

lemma obind_eq_Panic [simp]:
  "obind x f = Panic \<longleftrightarrow> x = Panic \<or> (\<exists>a. x = Ret a \<and> f a = Panic)"
  by (cases x) auto

lemma omap_eq_Ret [simp]: "omap f x = Ret b \<longleftrightarrow> (\<exists>a. x = Ret a \<and> f a = b)"
  by (cases x) auto

lemma omap_eq_Block [simp]: "omap f x = Block \<longleftrightarrow> x = Block"
  by (cases x) auto

lemma omap_eq_Panic [simp]: "omap f x = Panic \<longleftrightarrow> x = Panic"
  by (cases x) auto

section \<open>Lemmas on channels\<close>

lemmas [chan_simps] =
  chan_send_def chan_try_send_def chan_recv_def chan_close_def chan_room_def chan_push_def

lemma make_chan_simps [simp]:
  "ch_buf (make_chan n) = []" "ch_cap (make_chan n) = n" "ch_closed (make_chan n) = False"
  by (simp_all add: make_chan_def)

lemma chan_push_simps [simp]:
  "ch_buf (chan_push v c) = ch_buf c @ [v]"
  "ch_cap (chan_push v c) = ch_cap c"
  "ch_closed (chan_push v c) = ch_closed c"
  by (simp_all add: chan_push_def)

lemma chan_ok_make [simp]: "chan_ok (make_chan n)"
  by (simp add: chan_ok_def)

lemma chan_ok_push: "chan_room c \<Longrightarrow> chan_ok (chan_push v c)"
  by (simp add: chan_ok_def chan_room_def)

lemma chan_send_Ret:
  "chan_send v c = Ret c' \<longleftrightarrow> \<not> ch_closed c \<and> chan_room c \<and> c' = chan_push v c"
  by (auto simp: chan_send_def)

lemma chan_send_Block: "chan_send v c = Block \<longleftrightarrow> \<not> ch_closed c \<and> \<not> chan_room c"
  by (simp add: chan_send_def)

lemma chan_try_send_open:
  "\<not> ch_closed c \<Longrightarrow>
     chan_try_send v c = Ret (chan_room c, if chan_room c then chan_push v c else c)"
  by (simp add: chan_try_send_def)

lemma chan_try_send_Ret:
  "chan_try_send v c = Ret (b, c') \<longleftrightarrow>
     \<not> ch_closed c \<and> b = chan_room c \<and> c' = (if b then chan_push v c else c)"
  by (auto simp: chan_try_send_def)

lemma chan_try_send_never_blocks: "chan_try_send v c \<noteq> Block"
  by (simp add: chan_try_send_def)

lemma chan_recv_Some:
  "chan_recv c = Ret (Some v, c') \<longleftrightarrow>
     (\<exists>vs. ch_buf c = v # vs \<and> c' = c\<lparr>ch_buf := vs\<rparr>)"
  by (auto simp: chan_recv_def split: list.splits if_splits)

lemma chan_recv_not_Panic [simp]: "chan_recv c \<noteq> Panic"
  by (simp add: chan_recv_def split: list.split)

lemma chan_recv_None:
  "chan_recv c = Ret (None, c') \<longleftrightarrow> ch_buf c = [] \<and> ch_closed c \<and> c' = c"
  by (auto simp: chan_recv_def split: list.splits if_splits)

lemma chan_recv_Block: "chan_recv c = Block \<longleftrightarrow> ch_buf c = [] \<and> \<not> ch_closed c"
  by (auto simp: chan_recv_def split: list.splits)

lemma chan_ok_recv: "chan_ok c \<Longrightarrow> chan_recv c = Ret (r, c') \<Longrightarrow> chan_ok c'"
  by (auto simp: chan_ok_def chan_recv_def split: list.splits if_splits)

section \<open>Lemmas on select\<close>

lemma select_in: "select p alts = Ret a \<Longrightarrow> a \<in> set alts"
  by (auto simp: select_def split: if_splits)

lemma select_any:
  assumes "a \<in> set alts"
  shows "\<exists>p. select p alts = Ret a"
proof -
  from assms obtain i where "i < length alts" "alts ! i = a"
    by (auto simp: in_set_conv_nth)
  then have "select i alts = Ret a"
    by (auto simp: select_def)
  then show ?thesis ..
qed

lemma select_Nil [simp]: "select p [] = Block"
  by (simp add: select_def)

lemma select_single [simp]: "select p [a] = Ret a"
  by (simp add: select_def)

lemma select_Block: "select p alts = Block \<longleftrightarrow> alts = []"
  by (simp add: select_def)

lemma select_not_Panic [simp]: "select p alts \<noteq> Panic"
  by (simp add: select_def)

lemma Background_simps [simp]: "ctx_done Background = False" "ctx_pick Background = 0"
  by (simp_all add: Background_def)

lemma on_done_simps [simp]:
  "\<not> ctx_done c \<Longrightarrow> on_done c a = []" "ctx_done c \<Longrightarrow> on_done c a = [a]"
  by (simp_all add: on_done_def)

lemma on_send_simps [simp]:
  "chan_room c \<Longrightarrow> on_send v c k = [k (chan_push v c)]" "\<not> chan_room c \<Longrightarrow> on_send v c k = []"
  by (simp_all add: on_send_def)

lemma on_recv_open:
  "\<not> ch_closed c \<Longrightarrow>
     on_recv z c k = (case ch_buf c of [] \<Rightarrow> [] | v # vs \<Rightarrow> [k v (c\<lparr>ch_buf := vs\<rparr>)])"
  by (simp add: on_recv_def chan_recv_def split: list.split)

section \<open>Lemmas on map iteration order\<close>

lemma mset_insert_at [simp]: "mset (insert_at i x xs) = add_mset x (mset xs)"
proof -
  have "mset (take i xs) + mset (drop i xs) = mset xs"
    by (metis append_take_drop_id mset_append)
  then show ?thesis by (simp add: insert_at_def)
qed

lemma mset_range_order [simp]: "mset (range_order p xs) = mset xs"
  by (induction p xs rule: range_order.induct) simp_all

lemma set_range_order [simp]: "set (range_order p xs) = set xs"
  by (rule mset_eq_setD) simp

lemma length_range_order [simp]: "length (range_order p xs) = length xs"
  by (rule mset_eq_length) simp

text \<open>Every order of the elements is the visiting order for some choice.\<close>

lemma range_order_any: "mset ys = mset xs \<Longrightarrow> \<exists>p. range_order p xs = ys"
proof (induction xs arbitrary: ys)
  case Nil
  then show ?case by simp
next
  case (Cons x xs)
  from Cons.prems have "set ys = set (x # xs)"
    by (rule mset_eq_setD)
  then have "x \<in> set ys" by simp
  then obtain us vs where ys: "ys = us @ x # vs"
    by (meson split_list)
  with Cons.prems have "mset (us @ vs) = mset xs" by simp
  then obtain q where q: "range_order q xs = us @ vs"
    using Cons.IH by blast
  from \<open>mset (us @ vs) = mset xs\<close> have "length (us @ vs) = length xs"
    by (rule mset_eq_length)
  then have len: "length us \<le> length xs" by simp
  let ?p = "q * Suc (length xs) + length us"
  have "?p mod Suc (length xs) = length us" "?p div Suc (length xs) = q"
    using len by (simp_all del: mult_Suc_right)
  with q ys have "range_order ?p (x # xs) = ys"
    by (simp add: insert_at_def del: mult_Suc_right)
  then show ?case by blast
qed

lemma distinct_map_range_order [simp]:
  "distinct (map f (range_order p xs)) = distinct (map f xs)"
proof -
  have "mset (map f (range_order p xs)) = mset (map f xs)" by simp
  then show ?thesis by (rule mset_eq_imp_distinct_iff)
qed

lemma distinct_range_order [simp]: "distinct (range_order p xs) = distinct xs"
  using distinct_map_range_order [of "\<lambda>x. x" p xs] by simp

text \<open>What offering a value does to one open channel.\<close>

definition offer :: "'a \<Rightarrow> 'a chan \<Rightarrow> 'a chan" where
  "offer v c = (if chan_room c then chan_push v c else c)"

lemma offer_simps [simp]:
  "ch_closed (offer v c) = ch_closed c" "ch_cap (offer v c) = ch_cap c"
  "ch_buf (offer v c) = (if chan_room c then ch_buf c @ [v] else ch_buf c)"
  by (simp_all add: offer_def)

lemma chan_ok_offer [simp]: "chan_ok c \<Longrightarrow> chan_ok (offer v c)"
  by (simp add: offer_def chan_ok_push)

lemma offer_all_eq:
  assumes "\<forall>i \<in> set is. \<not> ch_closed (h i)" and "distinct is"
  shows "offer_all v is h = Ret (\<lambda>i. if i \<in> set is then offer v (h i) else h i)"
  using assms
  by (induction "is" arbitrary: h) (auto simp: chan_try_send_open offer_def fun_eq_iff)

section \<open>Lemmas on Go maps\<close>

lemma map_of_update [map_simps, simp]: "map_of (AList.update k v m) = (map_of m)(k \<mapsto> v)"
  by (simp add: update_conv')

lemma map_of_delete [map_simps, simp]: "map_of (AList.delete k m) = (map_of m)(k := None)"
  by (simp add: delete_conv')

lemma distinct_keys_update [map_simps, simp]:
  "distinct (map fst m) \<Longrightarrow> distinct (map fst (AList.update k v m))"
  by (rule distinct_update)

lemma distinct_keys_delete [map_simps, simp]:
  "distinct (map fst m) \<Longrightarrow> distinct (map fst (AList.delete k m))"
  by (rule distinct_delete)

lemma map_of_eq_Some_in:
  "distinct (map fst m) \<Longrightarrow> map_of m k = Some v \<longleftrightarrow> (k, v) \<in> set m"
  by (rule map_of_eq_Some_iff)

end
