(* ===== verification/Models.thy ===== *)
theory Models
  imports Prelude
begin

text \<open>
  The data model of \<^verbatim>\<open>shared/models/task.go\<close>: tasks, stages, task events and the
  constructor \<^verbatim>\<open>NewTask\<close>. \<^verbatim>\<open>TaskStatus\<close> is a string type in the source and any string can
  arrive over a wire, so statuses are strings here too. The values \<^verbatim>\<open>uuid.New()\<close> and
  \<^verbatim>\<open>time.Now()\<close> of \<^verbatim>\<open>NewTask\<close> are arguments.
\<close>

section \<open>Data\<close>

definition stageNames :: "string list" where
  "stageNames = [''Initialization'', ''Validation'', ''Processing'', ''Transformation'',
     ''Aggregation'', ''Optimization'', ''Finalization'', ''Cleanup'']"

abbreviation TaskPending :: string where "TaskPending \<equiv> ''pending''"
abbreviation TaskRunning :: string where "TaskRunning \<equiv> ''running''"
abbreviation TaskCompleted :: string where "TaskCompleted \<equiv> ''completed''"
abbreviation TaskFailed :: string where "TaskFailed \<equiv> ''failed''"

abbreviation EventProgress :: string where "EventProgress \<equiv> ''progress''"
abbreviation EventTaskStatus :: string where "EventTaskStatus \<equiv> ''task_status''"

record task_event =
  ev_Type :: string
  ev_TaskID :: string
  ev_UserID :: string
  ev_StageName :: string
  ev_Progress :: int
  ev_Status :: string

record stage =
  stage_Index :: int
  stage_Name :: string

record task =
  task_ID :: string
  task_Name :: string
  task_Status :: string
  task_UserID :: string
  task_SubmittedAt :: instant
  task_DispatchedAt :: "instant option"
  task_CompletedAt :: "instant option"
  task_Stages :: "stage list"

text \<open>The zero value \<^verbatim>\<open>models.TaskEvent{}\<close>.\<close>

definition zero_event :: task_event where
  "zero_event = \<lparr>ev_Type = [], ev_TaskID = [], ev_UserID = [], ev_StageName = [],
     ev_Progress = 0, ev_Status = []\<rparr>"

text \<open>
  The zero \<^verbatim>\<open>time.Time\<close> is midnight of 1 January of year 1, here counted from the Unix epoch;
  the zero value \<^verbatim>\<open>models.Task{}\<close> holds it.
\<close>

definition zero_time :: instant where
  "zero_time = - 62135596800 * Second"

definition zero_task :: task where
  "zero_task = \<lparr>task_ID = [], task_Name = [], task_Status = [], task_UserID = [],
     task_SubmittedAt = zero_time, task_DispatchedAt = None, task_CompletedAt = None,
     task_Stages = []\<rparr>"

text \<open>The test the stores, the manager and every transport make on a status.\<close>

definition terminal_status :: "string \<Rightarrow> bool" where
  "terminal_status st \<longleftrightarrow> st = TaskCompleted \<or> st = TaskFailed"

text \<open>The \<^verbatim>\<open>isTerminal\<close> test every transport makes on an event.\<close>

definition is_terminal :: "task_event \<Rightarrow> bool" where
  "is_terminal ev \<longleftrightarrow> ev_Type ev = EventTaskStatus \<and>
     (ev_Status ev = TaskCompleted \<or> ev_Status ev = TaskFailed)"

section \<open>NewTask\<close>

definition new_task :: "string \<Rightarrow> instant \<Rightarrow> string \<Rightarrow> int \<Rightarrow> task" where
  "new_task uuid now name stageCount =
     (let n0 = (if stageCount < 1 then 1 else stageCount);
          n = (if n0 > int (length stageNames) then int (length stageNames) else n0);
          stages = map (\<lambda>i.
            \<lparr>stage_Index = int i,
             stage_Name = (if i < length stageNames then stageNames ! i
                           else ''Stage '' @ itoa (i + 1))\<rparr>) [0..<nat n]
      in \<lparr>task_ID = uuid, task_Name = name, task_Status = TaskPending, task_UserID = [],
          task_SubmittedAt = now, task_DispatchedAt = None, task_CompletedAt = None,
          task_Stages = stages\<rparr>)"

section \<open>Lemmas\<close>

lemma length_stageNames [simp]: "length stageNames = 8"
  by (simp add: stageNames_def)

lemma distinct_stageNames: "distinct stageNames"
  by (simp add: stageNames_def)

lemma terminal_status_simps [simp]:
  "terminal_status TaskCompleted" "terminal_status TaskFailed"
  "\<not> terminal_status TaskPending" "\<not> terminal_status TaskRunning"
  by (simp_all add: terminal_status_def)

lemma is_terminal_iff:
  "is_terminal ev \<longleftrightarrow> ev_Type ev = EventTaskStatus \<and> terminal_status (ev_Status ev)"
  by (simp add: is_terminal_def terminal_status_def)

lemma is_terminal_UserID [simp]: "is_terminal (ev\<lparr>ev_UserID := u\<rparr>) = is_terminal ev"
  by (simp add: is_terminal_def)

lemma new_task_simps [simp]:
  "task_ID (new_task u now nm n) = u"
  "task_Name (new_task u now nm n) = nm"
  "task_Status (new_task u now nm n) = TaskPending"
  "task_UserID (new_task u now nm n) = []"
  "task_SubmittedAt (new_task u now nm n) = now"
  "task_DispatchedAt (new_task u now nm n) = None"
  "task_CompletedAt (new_task u now nm n) = None"
  by (simp_all add: new_task_def Let_def)

text \<open>The number of stages is the requested count clamped to the range 1 to 8.\<close>

lemma length_new_task_stages:
  "length (task_Stages (new_task u now nm n)) = nat (max 1 (min 8 n))"
  by (simp add: new_task_def Let_def)

text \<open>
  Every stage gets a name of the fixed table: the fallback \<^verbatim>\<open>Stage %d\<close> of the loop is
  never taken, because the count is clamped to the table's length first.
\<close>

lemma new_task_stages:
  "task_Stages (new_task u now nm n) =
     map (\<lambda>i. \<lparr>stage_Index = int i, stage_Name = stageNames ! i\<rparr>) [0..<nat (max 1 (min 8 n))]"
proof -
  have clamp: "(if (if n < 1 then 1 else n) > int (length stageNames) then int (length stageNames)
      else (if n < 1 then 1 else n)) = max 1 (min 8 n)"
    by simp
  show ?thesis
    unfolding new_task_def Let_def clamp by auto
qed

end
