(* ===== verification/Json.thy ===== *)
theory Json
  imports JsonText Models
begin

text \<open>
  JSON values and the JSON form of \<^verbatim>\<open>models.TaskEvent\<close> (\<^verbatim>\<open>shared/models/task.go\<close>), the part
  of \<^verbatim>\<open>encoding/json\<close> that the event path of the repository uses.

  \<^item> \<open>jtext\<close> prints a value without white space, as \<^verbatim>\<open>json.Marshal\<close> does; \<open>pvalue\<close>
    reads one, with the decoder's limit of 10000 nested arrays and objects. Its first
    argument is fuel: every call that recurses on the same text is preceded by one that
    consumed a byte, so twice the length of the text is enough.
  \<^item> \<open>marshal_event\<close> and \<open>unmarshal_event\<close> follow the struct tags of \<^verbatim>\<open>TaskEvent\<close>:
    \<^verbatim>\<open>omitempty\<close>, keys matched exactly or else up to case, \<^verbatim>\<open>null\<close> leaving a field alone,
    unknown keys skipped, a value of the wrong type an error.
  \<^item> \<open>unmarshal_marshal\<close>: an event whose strings are valid UTF-8 and whose progress fits
    an \<^verbatim>\<open>int\<close> is read back unchanged.
\<close>

section \<open>Values\<close>

text \<open>A number keeps its literal, as the decoder does until it knows the target type.\<close>

datatype json =
    JNull
  | JBool bool
  | JNum string
  | JStr string
  | JArr "json list"
  | JObj "(string \<times> json) list"

section \<open>Numbers\<close>

definition is_digit :: "char \<Rightarrow> bool" where
  "is_digit c \<longleftrightarrow> between 48 57 (byte c)"

definition int_text :: "int \<Rightarrow> string" where
  "int_text n = (if n < 0 then CHR ''-'' # itoa (nat (- n)) else itoa (nat n))"

definition digits_value :: "string \<Rightarrow> int" where
  "digits_value ds = foldl (\<lambda>a c. 10 * a + (int (byte c) - 48)) 0 ds"

text \<open>\<^verbatim>\<open>strconv.ParseInt(s, 10, 64)\<close> on a JSON number literal.\<close>

definition in_int64 :: "int \<Rightarrow> bool" where
  "in_int64 n \<longleftrightarrow> - (2 ^ 63) \<le> n \<and> n < 2 ^ 63"

definition parse_int64 :: "string \<Rightarrow> int option" where
  "parse_int64 s =
     (let neg = (s \<noteq> [] \<and> hd s = CHR ''-''); ds = (if neg then tl s else s);
          n = (if neg then - digits_value ds else digits_value ds)
      in if ds \<noteq> [] \<and> list_all is_digit ds \<and> in_int64 n then Some n else None)"

text \<open>The scanner's number literal: sign, integer part, fraction, exponent.\<close>

definition scan_exp :: "string \<Rightarrow> string \<Rightarrow> (string \<times> string) option" where
  "scan_exp lit s =
     (case s of
        [] \<Rightarrow> Some (lit, [])
      | c # cs \<Rightarrow>
          if c = CHR ''e'' \<or> c = CHR ''E'' then
            (let sg = (if cs \<noteq> [] \<and> (hd cs = CHR ''+'' \<or> hd cs = CHR ''-'') then [hd cs] else []);
                 r = drop (length sg) cs
             in if takeWhile is_digit r = [] then None
                else Some (lit @ c # sg @ takeWhile is_digit r, dropWhile is_digit r))
          else Some (lit, s))"

definition scan_frac :: "string \<Rightarrow> string \<Rightarrow> (string \<times> string) option" where
  "scan_frac lit s =
     (case s of
        [] \<Rightarrow> Some (lit, [])
      | c # cs \<Rightarrow>
          if c = CHR ''.'' then
            (if takeWhile is_digit cs = [] then None
             else scan_exp (lit @ c # takeWhile is_digit cs) (dropWhile is_digit cs))
          else scan_exp lit s)"

definition scan_unsigned :: "string \<Rightarrow> string \<Rightarrow> (string \<times> string) option" where
  "scan_unsigned sg s =
     (case s of
        [] \<Rightarrow> None
      | c # cs \<Rightarrow>
          if c = CHR ''0'' then scan_frac (sg @ [c]) cs
          else if is_digit c then scan_frac (sg @ takeWhile is_digit s) (dropWhile is_digit s)
          else None)"

definition scan_number :: "string \<Rightarrow> (string \<times> string) option" where
  "scan_number s =
     (case s of
        [] \<Rightarrow> None
      | c # cs \<Rightarrow> if c = CHR ''-'' then scan_unsigned [c] cs else scan_unsigned [] s)"

section \<open>Printing and reading values\<close>

fun join_comma :: "string list \<Rightarrow> string" where
  "join_comma [] = []"
| "join_comma [x] = x"
| "join_comma (x # y # ys) = x @ CHR '','' # join_comma (y # ys)"

fun jtext :: "json \<Rightarrow> string" where
  "jtext JNull = ''null''"
| "jtext (JBool b) = (if b then ''true'' else ''false'')"
| "jtext (JNum lit) = lit"
| "jtext (JStr s) = quote s"
| "jtext (JArr vs) = CHR ''['' # join_comma (map jtext vs) @ '']''"
| "jtext (JObj kvs) =
     CHR ''{'' # join_comma (map (\<lambda>(k, v). quote k @ CHR '':'' # jtext v) kvs) @ ''}''"

definition is_space :: "char \<Rightarrow> bool" where
  "is_space c \<longleftrightarrow> c = CHR '' '' \<or> byte c = 9 \<or> byte c = 10 \<or> byte c = 13"

definition skip_ws :: "string \<Rightarrow> string" where
  "skip_ws s = dropWhile is_space s"

definition strip_word :: "string \<Rightarrow> string \<Rightarrow> string option" where
  "strip_word w s = (if take (length w) s = w then Some (drop (length w) s) else None)"

fun pvalue :: "nat \<Rightarrow> nat \<Rightarrow> string \<Rightarrow> (json \<times> string) option"
  and pelems :: "nat \<Rightarrow> nat \<Rightarrow> string \<Rightarrow> (json list \<times> string) option"
  and pmembers :: "nat \<Rightarrow> nat \<Rightarrow> string \<Rightarrow> ((string \<times> json) list \<times> string) option" where
  "pvalue 0 d s = None"
| "pvalue (Suc f) d s =
     (case skip_ws s of
        [] \<Rightarrow> None
      | c # cs \<Rightarrow>
          if c = dquote then map_option (\<lambda>(x, r). (JStr x, r)) (unquote_body cs)
          else if c = CHR ''{'' then
            (if d = 0 then None
             else if skip_ws cs \<noteq> [] \<and> hd (skip_ws cs) = CHR ''}''
             then Some (JObj [], tl (skip_ws cs))
             else map_option (\<lambda>(kvs, r). (JObj kvs, r)) (pmembers f (d - 1) cs))
          else if c = CHR ''['' then
            (if d = 0 then None
             else if skip_ws cs \<noteq> [] \<and> hd (skip_ws cs) = CHR '']''
             then Some (JArr [], tl (skip_ws cs))
             else map_option (\<lambda>(vs, r). (JArr vs, r)) (pelems f (d - 1) cs))
          else if c = CHR ''t'' then map_option (Pair (JBool True)) (strip_word ''true'' (c # cs))
          else if c = CHR ''f'' then map_option (Pair (JBool False)) (strip_word ''false'' (c # cs))
          else if c = CHR ''n'' then map_option (Pair JNull) (strip_word ''null'' (c # cs))
          else map_option (\<lambda>(lit, r). (JNum lit, r)) (scan_number (c # cs)))"
| "pelems 0 d s = None"
| "pelems (Suc f) d s =
     (case pvalue f d s of
        None \<Rightarrow> None
      | Some (v, r) \<Rightarrow>
          (case skip_ws r of
             [] \<Rightarrow> None
           | c # r1 \<Rightarrow>
               if c = CHR '','' then map_option (\<lambda>(vs, r2). (v # vs, r2)) (pelems f d r1)
               else if c = CHR '']'' then Some ([v], r1) else None))"
| "pmembers 0 d s = None"
| "pmembers (Suc f) d s =
     (case skip_ws s of
        [] \<Rightarrow> None
      | q # cs \<Rightarrow>
          if q \<noteq> dquote then None
          else (case unquote_body cs of
             None \<Rightarrow> None
           | Some (k, r) \<Rightarrow>
               (case skip_ws r of
                  [] \<Rightarrow> None
                | col # r1 \<Rightarrow>
                    if col \<noteq> CHR '':'' then None
                    else (case pvalue f d r1 of
                       None \<Rightarrow> None
                     | Some (v, r2) \<Rightarrow>
                         (case skip_ws r2 of
                            [] \<Rightarrow> None
                          | c # r3 \<Rightarrow>
                              if c = CHR '',''
                              then map_option (\<lambda>(kvs, r4). ((k, v) # kvs, r4)) (pmembers f d r3)
                              else if c = CHR ''}'' then Some ([(k, v)], r3) else None)))))"

text \<open>The whole text is one value: \<^verbatim>\<open>json.Unmarshal\<close> refuses anything after it but white space.\<close>

definition parse_json :: "string \<Rightarrow> json option" where
  "parse_json s =
     (case pvalue (2 * length s + 2) 10000 s of
        Some (v, r) \<Rightarrow> if skip_ws r = [] then Some v else None
      | None \<Rightarrow> None)"

section \<open>The JSON form of a task event\<close>

definition opt_str :: "string \<Rightarrow> string \<Rightarrow> (string \<times> json) list" where
  "opt_str k s = (if s = [] then [] else [(k, JStr s)])"

definition event_json :: "task_event \<Rightarrow> json" where
  "event_json ev = JObj ([(''type'', JStr (ev_Type ev)), (''taskID'', JStr (ev_TaskID ev))] @
     opt_str ''userID'' (ev_UserID ev) @
     opt_str ''stageName'' (ev_StageName ev) @
     (if ev_Progress ev = 0 then [] else [(''progress'', JNum (int_text (ev_Progress ev)))]) @
     opt_str ''status'' (ev_Status ev))"

text \<open>\<^verbatim>\<open>json.Marshal(event)\<close>: a struct of strings and an integer never fails to encode.\<close>

definition marshal_event :: "task_event \<Rightarrow> string" where
  "marshal_event ev = jtext (event_json ev)"

text \<open>
  Key folding: ASCII letters to upper case, and the two letters outside ASCII that fold to
  one inside it (long s, Kelvin sign).
\<close>

definition upper :: "char \<Rightarrow> char" where
  "upper c = (if between 97 122 (byte c) then char_of (byte c - 32) else c)"

fun fold_name :: "string \<Rightarrow> string" where
  "fold_name [] = []"
| "fold_name (c # cs) =
     (if take 2 (c # cs) = [CHR 0xC5, CHR 0xBF] then CHR ''S'' # fold_name (drop 1 cs)
      else if take 3 (c # cs) = [CHR 0xE2, CHR 0x84, CHR 0xAA] then CHR ''K'' # fold_name (drop 2 cs)
      else upper c # fold_name cs)"

definition field_index :: "string list \<Rightarrow> string \<Rightarrow> nat option" where
  "field_index names k =
     (case List.find (\<lambda>i. names ! i = k) [0..<length names] of
        Some i \<Rightarrow> Some i
      | None \<Rightarrow> List.find (\<lambda>i. fold_name (names ! i) = fold_name k) [0..<length names])"

definition event_fields :: "string list" where
  "event_fields = [''type'', ''taskID'', ''userID'', ''stageName'', ''progress'', ''status'']"

text \<open>Storing one member of the object; \<^term>\<open>None\<close> is an error of the decoder.\<close>

definition set_string :: "(string \<Rightarrow> 'r \<Rightarrow> 'r) \<Rightarrow> json \<Rightarrow> 'r \<Rightarrow> 'r option" where
  "set_string upd v r =
     (case v of JNull \<Rightarrow> Some r | JStr s \<Rightarrow> Some (upd s r) | _ \<Rightarrow> None)"

definition set_int :: "(int \<Rightarrow> 'r \<Rightarrow> 'r) \<Rightarrow> json \<Rightarrow> 'r \<Rightarrow> 'r option" where
  "set_int upd v r =
     (case v of
        JNull \<Rightarrow> Some r
      | JNum lit \<Rightarrow> (case parse_int64 lit of Some n \<Rightarrow> Some (upd n r) | None \<Rightarrow> None)
      | _ \<Rightarrow> None)"

definition event_member :: "string \<Rightarrow> json \<Rightarrow> task_event \<Rightarrow> task_event option" where
  "event_member k v ev =
     (case field_index event_fields k of
        None \<Rightarrow> Some ev
      | Some i \<Rightarrow>
          if i = 0 then set_string (\<lambda>s e. e\<lparr>ev_Type := s\<rparr>) v ev
          else if i = 1 then set_string (\<lambda>s e. e\<lparr>ev_TaskID := s\<rparr>) v ev
          else if i = 2 then set_string (\<lambda>s e. e\<lparr>ev_UserID := s\<rparr>) v ev
          else if i = 3 then set_string (\<lambda>s e. e\<lparr>ev_StageName := s\<rparr>) v ev
          else if i = 4 then set_int (\<lambda>n e. e\<lparr>ev_Progress := n\<rparr>) v ev
          else set_string (\<lambda>s e. e\<lparr>ev_Status := s\<rparr>) v ev)"

fun event_members :: "(string \<times> json) list \<Rightarrow> task_event \<Rightarrow> task_event option" where
  "event_members [] ev = Some ev"
| "event_members ((k, v) # kvs) ev =
     (case event_member k v ev of None \<Rightarrow> None | Some ev1 \<Rightarrow> event_members kvs ev1)"

definition event_of_json :: "json \<Rightarrow> task_event option" where
  "event_of_json v =
     (case v of
        JNull \<Rightarrow> Some zero_event
      | JObj kvs \<Rightarrow> event_members kvs zero_event
      | _ \<Rightarrow> None)"

text \<open>\<^verbatim>\<open>json.Unmarshal(data, &ev)\<close> into a fresh event.\<close>

definition unmarshal_event :: "string \<Rightarrow> task_event option" where
  "unmarshal_event s =
     (case parse_json s of None \<Rightarrow> None | Some v \<Rightarrow> event_of_json v)"

text \<open>The events the encoding is faithful on.\<close>

definition event_encodable :: "task_event \<Rightarrow> bool" where
  "event_encodable ev \<longleftrightarrow> valid_utf8 (ev_Type ev) \<and> valid_utf8 (ev_TaskID ev) \<and>
     valid_utf8 (ev_UserID ev) \<and> valid_utf8 (ev_StageName ev) \<and> valid_utf8 (ev_Status ev) \<and>
     in_int64 (ev_Progress ev)"

section \<open>Lemmas on numbers\<close>

lemma code_digit_char: "d < 10 \<Longrightarrow> byte (digit_char d) = 48 + d"
  by (simp add: digit_char_def of_char_of)

lemma is_digit_digit_char [simp]: "d < 10 \<Longrightarrow> is_digit (digit_char d)"
  by (simp add: is_digit_def between_def code_digit_char)

lemma itoa_digits [simp]: "list_all is_digit (itoa n)"
  by (induction n rule: itoa.induct) (subst itoa.simps, simp)

lemma itoa_not_Nil [simp]: "itoa n \<noteq> []"
  by (subst itoa.simps) simp

lemma digits_value_itoa [simp]: "digits_value (itoa n) = int n"
proof (induction n rule: itoa.induct)
  case (1 n)
  show ?case
  proof (cases "n < 10")
    case True
    then show ?thesis by (subst itoa.simps) (simp add: digits_value_def code_digit_char)
  next
    case False
    have "digits_value (itoa (n div 10) @ [digit_char (n mod 10)]) =
        10 * digits_value (itoa (n div 10)) + int (n mod 10)"
      by (simp add: digits_value_def code_digit_char)
    also have "\<dots> = 10 * int (n div 10) + int (n mod 10)" using 1 [OF False] by simp
    also have "\<dots> = int n" by presburger
    finally show ?thesis using False by (subst itoa.simps) simp
  qed
qed

lemma hd_itoa: "0 < n \<Longrightarrow> hd (itoa n) \<noteq> CHR ''0''"
proof (induction n rule: itoa.induct)
  case (1 n)
  show ?case
  proof (cases "n < 10")
    case True
    then have "byte (digit_char n) \<noteq> byte (CHR ''0'')" using 1 by (simp add: code_digit_char)
    with True show ?thesis by (subst itoa.simps) auto
  next
    case False
    with 1 show ?thesis by (subst itoa.simps) simp
  qed
qed

lemma hd_itoa_digit: "is_digit (hd (itoa n))"
  using itoa_digits [of n] itoa_not_Nil [of n] by (cases "itoa n") simp_all

text \<open>What may follow a value inside an array or object, or at the end of a text or line.\<close>

abbreviation newline :: char where "newline \<equiv> CHR 0x0A"

definition delim :: "string \<Rightarrow> bool" where
  "delim zs \<longleftrightarrow> zs = [] \<or> hd zs \<in> {CHR '','', CHR '']'', CHR ''}'', newline}"

lemma delim_simps [simp]:
  "delim []" "delim (CHR '','' # r)" "delim (CHR '']'' # r)" "delim (CHR ''}'' # r)"
  "delim (newline # r)"
  by (simp_all add: delim_def)

lemma delim_digits:
  assumes "delim zs" and "list_all is_digit ds"
  shows "takeWhile is_digit (ds @ zs) = ds" and "dropWhile is_digit (ds @ zs) = zs"
proof -
  have "takeWhile is_digit zs = []" "dropWhile is_digit zs = zs"
    using assms(1) by (cases zs; auto simp: delim_def is_digit_def between_def)+
  with assms(2) show "takeWhile is_digit (ds @ zs) = ds" "dropWhile is_digit (ds @ zs) = zs"
    by (simp_all add: list_all_iff)
qed

lemma scan_frac_delim: "delim zs \<Longrightarrow> scan_frac lit zs = Some (lit, zs)"
  by (cases zs) (auto simp: delim_def scan_frac_def scan_exp_def)

lemma scan_unsigned_itoa:
  assumes "delim zs"
  shows "scan_unsigned sg (itoa n @ zs) = Some (sg @ itoa n, zs)"
proof (cases "n = 0")
  case True
  have "itoa 0 = ''0''" by (subst itoa.simps) (simp add: digit_char_def, code_simp)
  with True assms show ?thesis by (simp add: scan_unsigned_def scan_frac_delim)
next
  case False
  obtain c cs where c: "itoa n = c # cs" by (cases "itoa n") auto
  with False hd_itoa [of n] hd_itoa_digit [of n] have "c \<noteq> CHR ''0''" "is_digit c" by auto
  with delim_digits [OF assms itoa_digits [of n]] c assms show ?thesis
    by (simp add: scan_unsigned_def scan_frac_delim)
qed

lemma scan_number_int_text: "delim zs \<Longrightarrow> scan_number (int_text n @ zs) = Some (int_text n, zs)"
proof -
  assume d: "delim zs"
  obtain c cs where c: "itoa (nat n) = c # cs" by (cases "itoa (nat n)") auto
  with hd_itoa_digit [of "nat n"] have "c \<noteq> CHR ''-''" by (auto simp: is_digit_def between_def)
  with d c scan_unsigned_itoa [OF d, of "[]" "nat n"] scan_unsigned_itoa [OF d, of "''-''" "nat (- n)"]
  show ?thesis by (simp add: scan_number_def int_text_def)
qed

lemma parse_int64_int_text: "in_int64 n \<Longrightarrow> parse_int64 (int_text n) = Some n"
proof -
  assume n: "in_int64 n"
  have "hd (itoa (nat n)) \<noteq> CHR ''-''"
    using hd_itoa_digit [of "nat n"] by (auto simp: is_digit_def between_def)
  with n show ?thesis by (simp add: parse_int64_def int_text_def Let_def)
qed

section \<open>Reading what was printed\<close>

fun jwf :: "json \<Rightarrow> bool" where
  "jwf (JNum lit) = (\<exists>n. lit = int_text n)"
| "jwf (JStr s) = valid_utf8 s"
| "jwf (JArr vs) = (\<forall>v \<in> set vs. jwf v)"
| "jwf (JObj kvs) = (\<forall>(k, v) \<in> set kvs. valid_utf8 k \<and> jwf v)"
| "jwf _ = True"

fun jcost :: "json \<Rightarrow> nat" where
  "jcost (JArr vs) = Suc (\<Sum>v \<leftarrow> vs. Suc (jcost v))"
| "jcost (JObj kvs) = Suc (\<Sum>(k, v) \<leftarrow> kvs. Suc (jcost v))"
| "jcost _ = 1"

fun jdepth_le :: "nat \<Rightarrow> json \<Rightarrow> bool" where
  "jdepth_le d (JArr vs) = (case d of 0 \<Rightarrow> False | Suc d' \<Rightarrow> \<forall>v \<in> set vs. jdepth_le d' v)"
| "jdepth_le d (JObj kvs) = (case d of 0 \<Rightarrow> False | Suc d' \<Rightarrow> \<forall>(k, v) \<in> set kvs. jdepth_le d' v)"
| "jdepth_le d _ = True"

lemma skip_ws_simps [simp]:
  "skip_ws [] = []" "\<not> is_space c \<Longrightarrow> skip_ws (c # cs) = c # cs"
  by (simp_all add: skip_ws_def)

lemma not_space [simp]:
  "\<not> is_space (CHR '','')" "\<not> is_space (CHR '']'')" "\<not> is_space (CHR ''}'')"
  "\<not> is_space (CHR '':'')" "\<not> is_space (CHR ''{'')" "\<not> is_space (CHR ''['')"
  "\<not> is_space dquote" "\<not> is_space (CHR ''n'')" "\<not> is_space (CHR ''t'')" "\<not> is_space (CHR ''f'')"
  by (simp_all add: is_space_def)

lemma jtext_start:
  assumes "jwf v"
  obtains c cs where "jtext v = c # cs" "\<not> is_space c" "c \<noteq> CHR '']''" "c \<noteq> CHR ''}''"
proof -
  have digit: "\<not> is_space c \<and> c \<noteq> CHR '']'' \<and> c \<noteq> CHR ''}''" if "is_digit c" for c
    using that by (auto simp: is_digit_def between_def is_space_def)
  show thesis
  proof (cases v)
    case (JNum lit)
    with assms obtain n where lit: "lit = int_text n" by auto
    obtain c cs where "int_text n = c # cs" "c = CHR ''-'' \<or> is_digit c"
      using hd_itoa_digit [of "nat n"] itoa_not_Nil [of "nat n"]
      by (cases "itoa (nat n)"; cases "n < 0") (auto simp: int_text_def)
    with JNum lit digit [of c] show ?thesis by (intro that [of c cs]) (auto simp: is_space_def)
  next
    case (JBool b)
    then show ?thesis by (cases b) (auto intro: that)
  qed (auto simp: quote_def intro: that)
qed

lemma pvalue_number:
  assumes "delim zs"
  shows "pvalue (Suc f) d (int_text n @ zs) = Some (JNum (int_text n), zs)"
proof -
  obtain c cs where c: "int_text n = c # cs" "c = CHR ''-'' \<or> is_digit c"
    using hd_itoa_digit [of "nat n"] itoa_not_Nil [of "nat n"]
    by (cases "itoa (nat n)"; cases "n < 0") (auto simp: int_text_def)
  then have "\<not> is_space c" "c \<notin> {dquote, CHR ''{'', CHR ''['', CHR ''t'', CHR ''f'', CHR ''n''}"
    by (auto simp: is_digit_def between_def is_space_def)
  with scan_number_int_text [OF assms, of n] c(1) show ?thesis by auto
qed

text \<open>
  Both lists are read element by element; \<open>ok\<close> says that an element is read back with
  any larger fuel.
\<close>

lemma pelems_jtext:
  assumes "\<forall>v \<in> set vs. \<forall>f zs. jcost v \<le> f \<longrightarrow> delim zs \<longrightarrow> pvalue f d (jtext v @ zs) = Some (v, zs)"
    and "vs \<noteq> []" and "(\<Sum>v \<leftarrow> vs. Suc (jcost v)) \<le> f"
  shows "pelems f d (join_comma (map jtext vs) @ CHR '']'' # zs) = Some (vs, zs)"
  using assms
proof (induction vs arbitrary: f)
  case Nil
  then show ?case by simp
next
  case (Cons v vs)
  obtain f' where f: "f = Suc f'" using Cons.prems(3) by (cases f) auto
  with Cons.prems have v: "pvalue f' d (jtext v @ r) = Some (v, r)" if "delim r" for r
    using that by simp
  show ?case
  proof (cases vs)
    case Nil
    with v f show ?thesis by simp
  next
    case (Cons w ws)
    with Cons.IH [of f'] Cons.prems f v show ?thesis by simp
  qed
qed

lemma pmembers_jtext:
  assumes "\<forall>(k, v) \<in> set kvs. valid_utf8 k \<and> (\<forall>f zs. jcost v \<le> f \<longrightarrow> delim zs \<longrightarrow>
      pvalue f d (jtext v @ zs) = Some (v, zs))"
    and "kvs \<noteq> []" and "(\<Sum>(k, v) \<leftarrow> kvs. Suc (jcost v)) \<le> f"
  shows "pmembers f d (join_comma (map (\<lambda>(k, v). quote k @ CHR '':'' # jtext v) kvs) @ CHR ''}'' # zs) =
    Some (kvs, zs)"
  using assms
proof (induction kvs arbitrary: f)
  case Nil
  then show ?case by simp
next
  case (Cons kv kvs)
  obtain k v where kv: "kv = (k, v)" by (cases kv)
  obtain f' where f: "f = Suc f'" using Cons.prems(3) kv by (cases f) auto
  with Cons.prems kv have k: "valid_utf8 k"
    and v: "pvalue f' d (jtext v @ r) = Some (v, r)" if "delim r" for r
    using that by simp_all
  have key: "unquote_body (quote_body k @ dquote # r) = Some (k, r)" for r
    using k [of "[]"] by (simp add: unquote_quote_body)
  show ?case
  proof (cases kvs)
    case Nil
    with key v f kv show ?thesis by (simp add: quote_def)
  next
    case (Cons w ws)
    with Cons.IH [of f'] Cons.prems f v key kv show ?thesis
      by (cases w) (simp add: quote_def)
  qed
qed

lemma join_comma_start:
  "xs \<noteq> [] \<Longrightarrow> \<exists>ys. join_comma xs = hd xs @ ys"
  by (induction xs rule: join_comma.induct) auto

lemma skip_ws_start: "\<not> is_space (hd s) \<Longrightarrow> skip_ws s = s"
  by (cases s) simp_all

lemma pvalue_jtext:
  "jwf v \<Longrightarrow> jdepth_le d v \<Longrightarrow> jcost v \<le> f \<Longrightarrow> delim zs \<Longrightarrow> pvalue f d (jtext v @ zs) = Some (v, zs)"
proof (induction v arbitrary: f d zs)
  case JNull
  then show ?case by (cases f) (simp_all add: strip_word_def)
next
  case (JBool b)
  then show ?case by (cases f; cases b) (simp_all add: strip_word_def)
next
  case (JNum lit)
  then show ?case using pvalue_number [OF JNum(4)] by (cases f) auto
next
  case (JStr s)
  then show ?case by (cases f) (simp_all add: quote_def unquote_quote_body)
next
  case (JArr vs)
  obtain f' d' where f: "f = Suc f'" and d: "d = Suc d'"
    using JArr.prems(2,3) by (cases f; cases d) auto
  show ?case
  proof (cases vs)
    case Nil
    with f d show ?thesis by simp
  next
    case (Cons w ws)
    have "\<forall>v \<in> set vs. \<forall>f zs. jcost v \<le> f \<longrightarrow> delim zs \<longrightarrow> pvalue f d' (jtext v @ zs) = Some (v, zs)"
      using JArr d by auto
    from pelems_jtext [OF this, of f' zs] Cons JArr.prems(3) f
    have el: "pelems f' d' (join_comma (map jtext vs) @ CHR '']'' # zs) = Some (vs, zs)" by simp
    from Cons JArr.prems(1) obtain c cs where c: "jtext w = c # cs" "\<not> is_space c" "c \<noteq> CHR '']''"
      by (metis jtext_start jwf.simps(3) list.set_intros(1))
    from join_comma_start [of "map jtext vs"] Cons c(1) obtain ys
      where ys: "join_comma (map jtext vs) = c # ys" by auto
    from el c(2,3) f d show ?thesis by (simp add: ys)
  qed
next
  case (JObj kvs)
  obtain f' d' where f: "f = Suc f'" and d: "d = Suc d'"
    using JObj.prems(2,3) by (cases f; cases d) auto
  show ?case
  proof (cases kvs)
    case Nil
    with f d show ?thesis by simp
  next
    case (Cons w ws)
    have "\<forall>(k, v) \<in> set kvs. valid_utf8 k \<and> (\<forall>f zs. jcost v \<le> f \<longrightarrow> delim zs \<longrightarrow>
        pvalue f d' (jtext v @ zs) = Some (v, zs))"
      using JObj d by fastforce
    from pmembers_jtext [OF this, of f' zs] Cons JObj.prems(3) f
    have el: "pmembers f' d' (join_comma (map (\<lambda>(k, v). quote k @ CHR '':'' # jtext v) kvs) @ CHR ''}'' # zs) =
      Some (kvs, zs)" by simp
    obtain ys where ys: "join_comma (map (\<lambda>(k, v). quote k @ CHR '':'' # jtext v) kvs) = dquote # ys"
      using join_comma_start [of "map (\<lambda>(k, v). quote k @ CHR '':'' # jtext v) kvs"] Cons
      by (cases w) (auto simp: quote_def)
    from el f d show ?thesis by (simp add: ys)
  qed
qed

text \<open>Twice the length of the printed text is enough fuel.\<close>

lemma length_join_comma:
  "xs \<noteq> [] \<Longrightarrow> length (join_comma xs) + 1 = (\<Sum>x \<leftarrow> xs. length x + 1)"
  by (induction xs rule: join_comma.induct) auto

lemma jcost_length: "jwf v \<Longrightarrow> jcost v \<le> 2 * length (jtext v)"
proof (induction v)
  case (JNum lit)
  have "int_text n \<noteq> []" for n by (simp add: int_text_def)
  with JNum show ?case by (auto simp: Suc_le_eq)
next
  case (JBool b)
  then show ?case by (cases b) simp_all
next
  case (JArr vs)
  have "(\<Sum>v \<leftarrow> vs. Suc (jcost v)) \<le> (\<Sum>v \<leftarrow> vs. 2 * (length (jtext v) + 1))"
    using JArr by (intro sum_list_mono) fastforce
  also have "\<dots> = 2 * (\<Sum>x \<leftarrow> map jtext vs. length x + 1)"
    by (induction vs) simp_all
  finally show ?case
    using length_join_comma [of "map jtext vs"] by (cases "vs = []") simp_all
next
  case (JObj kvs)
  let ?m = "\<lambda>(k, v). quote k @ CHR '':'' # jtext v"
  have "(\<Sum>(k, v) \<leftarrow> kvs. Suc (jcost v)) \<le> (\<Sum>x \<leftarrow> kvs. 2 * (length (?m x) + 1))"
    using JObj by (intro sum_list_mono) fastforce
  also have "\<dots> = 2 * (\<Sum>x \<leftarrow> map ?m kvs. length x + 1)"
    by (induction kvs) auto
  finally show ?case
    using length_join_comma [of "map ?m kvs"] by (cases "kvs = []") simp_all
qed (simp_all add: quote_def)

lemma parse_json_jtext: "jwf v \<Longrightarrow> jdepth_le 10000 v \<Longrightarrow> parse_json (jtext v) = Some v"
  using pvalue_jtext [of v 10000 "2 * length (jtext v) + 2" "[]"] jcost_length [of v]
  by (simp add: parse_json_def)

section \<open>The event round trip\<close>

lemma event_field_index:
  "field_index event_fields ''type'' = Some 0" "field_index event_fields ''taskID'' = Some 1"
  "field_index event_fields ''userID'' = Some 2" "field_index event_fields ''stageName'' = Some 3"
  "field_index event_fields ''progress'' = Some 4" "field_index event_fields ''status'' = Some 5"
  by code_simp+

lemma event_json_wf:
  assumes "event_encodable ev"
  shows "jwf (event_json ev)" "jdepth_le 10000 (event_json ev)"
proof -
  have keys: "valid_utf8 ''type''" "valid_utf8 ''taskID''" "valid_utf8 ''userID''"
    "valid_utf8 ''stageName''" "valid_utf8 ''progress''" "valid_utf8 ''status''" by simp_all
  with assms show "jwf (event_json ev)"
    by (auto simp: event_json_def event_encodable_def opt_str_def)
  have "10000 = Suc 9999" by simp
  then show "jdepth_le 10000 (event_json ev)"
    by (auto simp: event_json_def opt_str_def)
qed

lemma event_of_event_json:
  assumes "event_encodable ev"
  shows "event_of_json (event_json ev) = Some ev"
  using assms
  by (simp add: event_of_json_def event_json_def event_member_def event_field_index set_string_def
      set_int_def opt_str_def parse_int64_int_text event_encodable_def zero_event_def)

lemma unmarshal_marshal:
  "event_encodable ev \<Longrightarrow> unmarshal_event (marshal_event ev) = Some ev"
  by (simp add: unmarshal_event_def marshal_event_def parse_json_jtext event_json_wf
      event_of_event_json)

section \<open>Printed text holds no control character\<close>

lemma int_text_plain: "x \<in> set (int_text n) \<Longrightarrow> 32 \<le> byte x"
  using itoa_digits [of "nat n"] itoa_digits [of "nat (- n)"]
  by (auto simp: int_text_def list_all_iff is_digit_def between_def split: if_splits)

lemma set_join_comma: "set (join_comma xs) \<subseteq> insert (CHR '','') (\<Union>(set ` set xs))"
  by (induction xs rule: join_comma.induct) auto

lemma jtext_plain: "jwf v \<Longrightarrow> x \<in> set (jtext v) \<Longrightarrow> 32 \<le> byte x"
proof (induction v)
  case (JNum lit)
  then show ?case by (auto intro: int_text_plain)
next
  case (JBool b)
  then show ?case by (cases b) auto
next
  case (JStr s)
  then show ?case by (simp add: quote_plain)
next
  case (JArr vs)
  then show ?case using set_join_comma [of "map jtext vs"] by fastforce
next
  case (JObj kvs)
  have "32 \<le> byte x" if "(k, v) \<in> set kvs" "x \<in> set (quote k @ CHR '':'' # jtext v)" for k v
    using that JObj.IH [of "(k, v)" v] JObj.prems(1) by (auto simp: quote_plain)
  with JObj.prems(2) show ?case
    using set_join_comma [of "map (\<lambda>(k, v). quote k @ CHR '':'' # jtext v) kvs"] by fastforce
qed auto

lemma marshal_event_plain:
  "event_encodable ev \<Longrightarrow> x \<in> set (marshal_event ev) \<Longrightarrow> 32 \<le> byte x"
  using jtext_plain event_json_wf(1) unfolding marshal_event_def by blast

end
