(* ===== verification/TimeText.thy ===== *)
theory TimeText
  imports Json "HOL-Library.Monad_Syntax"
begin

text \<open>
  \<^verbatim>\<open>time.Time\<close> as JSON: RFC 3339 text with nanoseconds, the part of Go's \<^verbatim>\<open>time\<close> package the
  task payloads of the repository go through.

  An instant is a number of nanoseconds since the Unix epoch and is written in UTC (the
  zone of the containers the repository runs in; another zone changes the text and not the
  instant it denotes). \<open>time_text\<close> fails for years outside 0 to 9999, as
  \<^verbatim>\<open>Time.MarshalJSON\<close> does; \<open>parse_time\<close> accepts any zone offset and checks every range,
  the length of the month included. \<open>parse_time_text\<close>: what was written is read back.
\<close>

section \<open>The Gregorian calendar\<close>

definition leap :: "int \<Rightarrow> bool" where
  "leap y \<longleftrightarrow> y mod 4 = 0 \<and> (y mod 100 \<noteq> 0 \<or> y mod 400 = 0)"

definition days_in :: "int \<Rightarrow> int \<Rightarrow> int" where
  "days_in y m =
     (if m = 2 then (if leap y then 29 else 28)
      else if m = 4 \<or> m = 6 \<or> m = 9 \<or> m = 11 then 30 else 31)"

text \<open>
  Days are counted in years that begin on 1 March, so that a leap day is the last of its
  year; 719468 days lie between 1 March of year 0 and the Unix epoch.
\<close>

definition days_of_civil :: "int \<Rightarrow> int \<Rightarrow> int \<Rightarrow> int" where
  "days_of_civil y m d =
     (let y1 = (if m \<le> 2 then y - 1 else y); mp = (if m > 2 then m - 3 else m + 9);
          yoe = y1 mod 400
      in y1 div 400 * 146097 + (yoe * 365 + yoe div 4 - yoe div 100 + ((153 * mp + 2) div 5 + d - 1))
         - 719468)"

definition civil_of_days :: "int \<Rightarrow> int \<times> int \<times> int" where
  "civil_of_days n =
     (let z = n + 719468; era = z div 146097; doe = z mod 146097;
          c = min 3 (doe div 36524); r = doe - 36524 * c;
          q = r div 1461; s = r - 1461 * q;
          t = min 3 (s div 365); doy = s - 365 * t;
          mp = (5 * doy + 2) div 153; d = doy - (153 * mp + 2) div 5 + 1;
          y = era * 400 + 100 * c + 4 * q + t
      in (if mp < 10 then (y, mp + 3, d) else (y + 1, mp - 9, d)))"

section \<open>Writing\<close>

primrec pad :: "nat \<Rightarrow> nat \<Rightarrow> string" where
  "pad 0 n = []"
| "pad (Suc w) n = pad w (n div 10) @ [digit_char (n mod 10)]"

definition frac_text :: "nat \<Rightarrow> string" where
  "frac_text ns =
     (if ns = 0 then [] else CHR ''.'' # rev (dropWhile (\<lambda>c. c = CHR ''0'') (rev (pad 9 ns))))"

definition time_text :: "instant \<Rightarrow> string option" where
  "time_text i =
     (let sec = i div Second; ns = i mod Second; sod = sec mod 86400;
          (y, m, d) = civil_of_days (sec div 86400)
      in if y < 0 \<or> 10000 \<le> y then None
         else Some (pad 4 (nat y) @ ''-'' @ pad 2 (nat m) @ ''-'' @ pad 2 (nat d) @ ''T'' @
           pad 2 (nat (sod div 3600)) @ '':'' @ pad 2 (nat (sod div 60 mod 60)) @ '':'' @
           pad 2 (nat (sod mod 60)) @ frac_text (nat ns) @ ''Z''))"

section \<open>Reading\<close>

definition num :: "nat \<Rightarrow> string \<Rightarrow> (int \<times> string) option" where
  "num w s =
     (if w \<le> length s \<and> list_all is_digit (take w s)
      then Some (digits_value (take w s), drop w s) else None)"

definition expect :: "char \<Rightarrow> string \<Rightarrow> string option" where
  "expect c s = (case s of x # xs \<Rightarrow> if x = c then Some xs else None | [] \<Rightarrow> None)"

text \<open>A fraction: digits beyond the ninth are dropped.\<close>

definition fraction :: "string \<Rightarrow> (int \<times> string) option" where
  "fraction s =
     (case s of
        [] \<Rightarrow> Some (0, s)
      | c # cs \<Rightarrow>
          if c = CHR ''.'' then
            (let ds = takeWhile is_digit cs
             in if ds = [] then None
                else Some (digits_value (take 9 (ds @ ''000000000'')), dropWhile is_digit cs))
          else Some (0, s))"

text \<open>The zone: \<^verbatim>\<open>Z\<close> or a signed offset, in seconds.\<close>

definition zone :: "string \<Rightarrow> (int \<times> string) option" where
  "zone s =
     (case s of
        [] \<Rightarrow> None
      | c # cs \<Rightarrow>
          if c = CHR ''Z'' then Some (0, cs)
          else if c = CHR ''+'' \<or> c = CHR ''-'' then
            do { (h, s1) \<leftarrow> num 2 cs; s2 \<leftarrow> expect (CHR '':'') s1; (m, s3) \<leftarrow> num 2 s2;
                 if h < 24 \<and> m < 60
                 then Some (if c = CHR ''-'' then - (h * 3600 + m * 60) else h * 3600 + m * 60, s3)
                 else None }
          else None)"

definition parse_time :: "string \<Rightarrow> instant option" where
  "parse_time s =
     do { (y, s) \<leftarrow> num 4 s; s \<leftarrow> expect (CHR ''-'') s; (m, s) \<leftarrow> num 2 s;
          s \<leftarrow> expect (CHR ''-'') s; (d, s) \<leftarrow> num 2 s; s \<leftarrow> expect (CHR ''T'') s;
          (hh, s) \<leftarrow> num 2 s; s \<leftarrow> expect (CHR '':'') s; (mm, s) \<leftarrow> num 2 s;
          s \<leftarrow> expect (CHR '':'') s; (ss, s) \<leftarrow> num 2 s;
          (ns, s) \<leftarrow> fraction s; (off, s) \<leftarrow> zone s;
          if s = [] \<and> 1 \<le> m \<and> m \<le> 12 \<and> 1 \<le> d \<and> d \<le> days_in y m \<and> hh < 24 \<and> mm < 60 \<and> ss < 60
          then Some ((days_of_civil y m d * 86400 + hh * 3600 + mm * 60 + ss - off) * Second + ns)
          else None }"

section \<open>The calendar round trip\<close>

lemma cycle_parts:
  fixes doe :: int
  assumes "0 \<le> doe" "doe < 146097"
  defines "c \<equiv> min 3 (doe div 36524)"
  defines "r \<equiv> doe - 36524 * c"
  defines "q \<equiv> r div 1461"
  defines "s \<equiv> r - 1461 * q"
  defines "t \<equiv> min 3 (s div 365)"
  shows "0 \<le> c" "c \<le> 3" "0 \<le> q" "q \<le> 24" "0 \<le> t" "t \<le> 3" "0 \<le> s - 365 * t" "s - 365 * t \<le> 365"
    "s - 365 * t = 365 \<Longrightarrow> t = 3 \<and> (q = 24 \<longrightarrow> c = 3)"
    "doe = 36524 * c + 1461 * q + 365 * t + (s - 365 * t)"
proof -
  show c: "0 \<le> c" "c \<le> 3" using assms(1) by (simp_all add: c_def)
  have r: "0 \<le> r" "r \<le> 36524" "c < 3 \<Longrightarrow> r < 36524"
    using assms(1,2) by (auto simp: r_def c_def min_def)
  show q: "0 \<le> q" "q \<le> 24" using r by (simp_all add: q_def)
  have s: "0 \<le> s" "s \<le> 1460" by (simp_all add: s_def q_def minus_mult_div_eq_mod [symmetric])
  show t: "0 \<le> t" "t \<le> 3" using s by (simp_all add: t_def)
  show doy: "0 \<le> s - 365 * t" "s - 365 * t \<le> 365"
    using s by (auto simp: t_def min_def)
  show "s - 365 * t = 365 \<Longrightarrow> t = 3 \<and> (q = 24 \<longrightarrow> c = 3)"
  proof
    assume full: "s - 365 * t = 365"
    show "t = 3"
    proof (rule ccontr)
      assume "t \<noteq> 3"
      then have "t = s div 365" by (auto simp: t_def min_def split: if_splits)
      then have "s - 365 * t = s mod 365" by (simp add: minus_mult_div_eq_mod)
      with full show False by simp
    qed
    with full have "r = 1461 * q + 1460" by (simp add: s_def)
    with r(3) c show "q = 24 \<longrightarrow> c = 3" by (cases "c < 3") auto
  qed
  show "doe = 36524 * c + 1461 * q + 365 * t + (s - 365 * t)"
    by (simp add: s_def r_def)
qed

lemma div_bounds: "0 < k \<Longrightarrow> k * (n div k) \<le> n \<and> n < k * (n div k) + k" for n k :: int
  using pos_mod_sign [of k n] pos_mod_bound [of k n] mult_div_mod_eq [of k n] by linarith

lemma month_parts:
  fixes doy :: int
  assumes "0 \<le> doy" "doy \<le> 365"
  defines "mp \<equiv> (5 * doy + 2) div 153"
  defines "d \<equiv> doy - (153 * mp + 2) div 5 + 1"
  shows "0 \<le> mp" "mp \<le> 11" "1 \<le> d" "d \<le> 31" "mp \<in> {1, 3, 6, 8} \<Longrightarrow> d \<le> 30"
    "mp = 11 \<Longrightarrow> d \<le> 29" "mp = 11 \<Longrightarrow> d = 29 \<Longrightarrow> doy = 365"
proof -
  have mp: "153 * mp \<le> 5 * doy + 2" "5 * doy + 2 < 153 * mp + 153"
    using div_bounds [of 153 "5 * doy + 2"] by (simp_all add: mp_def)
  have k: "5 * ((153 * mp + 2) div 5) \<le> 153 * mp + 2" "153 * mp + 2 < 5 * ((153 * mp + 2) div 5) + 5"
    using div_bounds [of 5 "153 * mp + 2"] by simp_all
  show "0 \<le> mp" using assms(1) by (simp add: mp_def)
  show "mp \<le> 11" using assms(2) by (simp add: mp_def)
  show "1 \<le> d" using mp(1) k(1) unfolding d_def by linarith
  show "d \<le> 31" using mp(2) k(2) unfolding d_def by linarith
  show "mp \<in> {1, 3, 6, 8} \<Longrightarrow> d \<le> 30" using mp(2) unfolding d_def by auto
  show "mp = 11 \<Longrightarrow> d \<le> 29" using assms(2) unfolding d_def by auto
  show "mp = 11 \<Longrightarrow> d = 29 \<Longrightarrow> doy = 365" unfolding d_def by auto
qed

lemma year_of_cycle:
  fixes era c q t :: int
  assumes "0 \<le> c" "c \<le> 3" "0 \<le> q" "q \<le> 24" "0 \<le> t" "t \<le> 3"
  defines "y \<equiv> era * 400 + 100 * c + 4 * q + t"
  shows "y div 400 = era" "y mod 400 = 100 * c + 4 * q + t"
    "(y mod 400) div 4 = 25 * c + q" "(y mod 400) div 100 = c"
proof -
  have bound: "0 \<le> 100 * c + 4 * q + t" "100 * c + 4 * q + t < 400" using assms by linarith+
  have y: "y = 400 * era + (100 * c + 4 * q + t)" by (simp add: y_def)
  show "y div 400 = era" using bound unfolding y by (simp add: div_mult_self4)
  show m: "y mod 400 = 100 * c + 4 * q + t" using bound unfolding y by simp
  show "(y mod 400) div 4 = 25 * c + q"
    unfolding m using div_bounds [of 4 "100 * c + 4 * q + t"] assms by linarith
  show "(y mod 400) div 100 = c"
    unfolding m using div_bounds [of 100 "100 * c + 4 * q + t"] assms by linarith
qed

lemma leap_of_cycle:
  fixes era c q :: int
  assumes "0 \<le> c" "c \<le> 3" "0 \<le> q" "q \<le> 24" "q = 24 \<longrightarrow> c = 3"
  shows "leap (era * 400 + 100 * c + 4 * q + 3 + 1)"
proof (cases "q = 24")
  case True
  with assms show ?thesis by (simp add: leap_def)
next
  case False
  have y: "era * 400 + 100 * c + 4 * q + 3 + 1 = 100 * (4 * era + c) + 4 * (q + 1)"
    "era * 400 + 100 * c + 4 * q + 3 + 1 = 4 * (100 * era + 25 * c + q + 1)" by simp_all
  have "(100 * (4 * era + c) + 4 * (q + 1)) mod 100 = 4 * (q + 1)"
  proof -
    have "0 \<le> 4 * (q + 1)" "4 * (q + 1) < 100" using assms(3,4) False by auto
    then show ?thesis by (simp only: mod_mult_self4 mod_pos_pos_trivial)
  qed
  moreover have "4 * (q + 1) \<noteq> 0" using assms(3) by auto
  ultimately have "(era * 400 + 100 * c + 4 * q + 3 + 1) mod 100 \<noteq> 0"
    unfolding y(1) by (simp only: not_False_eq_True)
  moreover have "(era * 400 + 100 * c + 4 * q + 3 + 1) mod 4 = 0" unfolding y(2) by simp
  ultimately show ?thesis by (simp add: leap_def)
qed

lemma civil_of_days_round:
  assumes "civil_of_days n = (y, m, d)"
  shows "days_of_civil y m d = n \<and> 1 \<le> m \<and> m \<le> 12 \<and> 1 \<le> d \<and> d \<le> days_in y m"
proof -
  define era doe where era: "era = (n + 719468) div 146097" and doe: "doe = (n + 719468) mod 146097"
  define c where c: "c = min 3 (doe div 36524)"
  define q where q: "q = (doe - 36524 * c) div 1461"
  define t where t: "t = min 3 ((doe - 36524 * c - 1461 * q) div 365)"
  define doy where doy: "doy = doe - 36524 * c - 1461 * q - 365 * t"
  define mp where mp: "mp = (5 * doy + 2) div 153"
  define y1 where y1: "y1 = era * 400 + 100 * c + 4 * q + t"
  have n: "n + 719468 = era * 146097 + doe" by (simp add: era doe)
  have "0 \<le> doe" "doe < 146097" by (simp_all add: doe)
  note parts = cycle_parts [OF this, folded c, folded q, folded t, folded doy]
  note months = month_parts [OF parts(7,8), folded mp]
  note years = year_of_cycle [OF parts(1-6), of era, folded y1]
  have d: "d = doy - (153 * mp + 2) div 5 + 1" and ym: "(y, m) = (if mp < 10 then (y1, mp + 3) else (y1 + 1, mp - 9))"
    using assms unfolding civil_of_days_def Let_def
    by (auto simp flip: era doe c q t doy mp y1 split: if_splits)
  have "doe = 365 * (100 * c + 4 * q + t) + (25 * c + q) - c + doy" using parts(10) by (simp add: algebra_simps)
  moreover have "(if m \<le> 2 then y - 1 else y) = y1" "(if m > 2 then m - 3 else m + 9) = mp"
    using ym months(1,2) by (auto split: if_splits)
  ultimately have "days_of_civil y m d = n"
    unfolding days_of_civil_def Let_def using years n d by simp
  moreover have "d \<le> days_in y m"
  proof (cases "mp = 11")
    case True
    with ym have "y = y1 + 1" "m = 2" by simp_all
    moreover have "leap (y1 + 1)" if "d = 29"
      using leap_of_cycle [OF parts(1-4), of era] parts(9) months(7) True that by (simp add: d y1)
    moreover have "d \<le> 29" using months(6) True by (simp add: d)
    ultimately show ?thesis by (cases "d = 29") (auto simp: days_in_def)
  next
    case False
    with ym months show ?thesis by (auto simp: days_in_def d split: if_splits)
  qed
  ultimately show ?thesis using ym months(1-3) d by (auto split: if_splits)
qed

section \<open>The text round trip\<close>

lemma length_pad [simp]: "length (pad w n) = w"
  by (induction w arbitrary: n) simp_all

lemma pad_digits [simp]: "list_all is_digit (pad w n)"
  by (induction w arbitrary: n) simp_all

lemma digits_value_pad: "n < 10 ^ w \<Longrightarrow> digits_value (pad w n) = int n"
proof (induction w arbitrary: n)
  case 0
  then show ?case by (simp add: digits_value_def)
next
  case (Suc w)
  have "digits_value (pad w (n div 10) @ [digit_char (n mod 10)]) =
      10 * digits_value (pad w (n div 10)) + int (n mod 10)"
    by (simp add: digits_value_def code_digit_char)
  also have "digits_value (pad w (n div 10)) = int (n div 10)"
    using Suc by (intro Suc.IH) (simp add: less_mult_imp_div_less mult.commute)
  also have "10 * int (n div 10) + int (n mod 10) = int n" by presburger
  finally show ?case by simp
qed

lemma num_pad: "0 \<le> n \<Longrightarrow> n < 10 ^ w \<Longrightarrow> num w (pad w (nat n) @ zs) = Some (n, zs)"
  by (simp add: num_def digits_value_pad nat_less_iff)

lemma expect_Cons [simp]: "expect c (c # zs) = Some zs"
  by (simp add: expect_def)

lemma strip_zeros:
  "\<exists>k. xs = rev (dropWhile (\<lambda>c. c = CHR ''0'') (rev xs)) @ replicate k (CHR ''0'')"
proof (induction xs rule: rev_induct)
  case Nil
  then show ?case by simp
next
  case (snoc x xs)
  then obtain k where k: "xs = rev (dropWhile (\<lambda>c. c = CHR ''0'') (rev xs)) @ replicate k (CHR ''0'')"
    by blast
  show ?case
  proof (cases "x = CHR ''0''")
    case True
    have "xs @ [x] = rev (dropWhile (\<lambda>c. c = CHR ''0'') (rev xs)) @ replicate (Suc k) (CHR ''0'')"
      using True by (subst k) (simp add: replicate_append_same)
    moreover have "rev (dropWhile (\<lambda>c. c = CHR ''0'') (rev (xs @ [x]))) =
        rev (dropWhile (\<lambda>c. c = CHR ''0'') (rev xs))" using True by simp
    ultimately show ?thesis by metis
  qed auto
qed

lemma zeros_value: "digits_value (replicate k (CHR ''0'')) = 0"
  by (induction k) (simp_all add: digits_value_def)

lemma digits_then:
  assumes "list_all is_digit ds" and "\<not> is_digit c"
  shows "takeWhile is_digit (ds @ c # zs) = ds" "dropWhile is_digit (ds @ c # zs) = c # zs"
  using assms by (induction ds) simp_all

lemma fraction_frac_text:
  assumes "ns < 1000000000"
  shows "fraction (frac_text ns @ CHR ''Z'' # zs) = Some (int ns, CHR ''Z'' # zs)"
proof (cases "ns = 0")
  case False
  let ?ds = "rev (dropWhile (\<lambda>c. c = CHR ''0'') (rev (pad 9 ns)))"
  obtain k where k: "pad 9 ns = ?ds @ replicate k (CHR ''0'')" using strip_zeros by blast
  have val: "digits_value (pad 9 ns) = int ns" using assms by (simp add: digits_value_pad)
  have ne: "?ds \<noteq> []"
    using k val False by (metis append_Nil of_nat_eq_0_iff zeros_value)
  have "list_all is_digit (?ds @ replicate k (CHR ''0''))"
    unfolding k [symmetric] by simp
  then have dig: "list_all is_digit ?ds" by simp
  have z: "\<not> is_digit (CHR ''Z'')" by (simp add: is_digit_def between_def)
  have "length (pad 9 ns) = length ?ds + k" by (subst k) simp
  then have len: "length ?ds + k = 9" by simp
  have zeros: "''000000000'' = replicate 9 (CHR ''0'')" by (simp add: numeral_eq_Suc)
  have "take 9 (?ds @ ''000000000'') = pad 9 ns"
    unfolding zeros by (subst (2) k) (use len in auto)
  moreover have "takeWhile is_digit (?ds @ CHR ''Z'' # zs) = ?ds"
    "dropWhile is_digit (?ds @ CHR ''Z'' # zs) = CHR ''Z'' # zs"
    using digits_then [OF dig z] by simp_all
  ultimately show ?thesis
    using False ne val unfolding fraction_def frac_text_def Let_def by simp
qed (simp add: fraction_def frac_text_def)

text \<open>The fields of a well-formed date, hour, minute and second are read back.\<close>

lemma parse_time_fields:
  assumes "0 \<le> y" "y < 10000" "1 \<le> m" "m \<le> 12" "1 \<le> d" "d \<le> days_in y m"
    and "0 \<le> hh" "hh < 24" "0 \<le> mm" "mm < 60" "0 \<le> ss" "ss < 60" and "0 \<le> ns" "ns < 1000000000"
  shows "parse_time (pad 4 (nat y) @ ''-'' @ pad 2 (nat m) @ ''-'' @ pad 2 (nat d) @ ''T'' @
      pad 2 (nat hh) @ '':'' @ pad 2 (nat mm) @ '':'' @ pad 2 (nat ss) @ frac_text (nat ns) @ ''Z'') =
    Some ((days_of_civil y m d * 86400 + hh * 3600 + mm * 60 + ss) * Second + ns)"
proof -
  have "d \<le> 31" using assms(6) by (auto simp: days_in_def split: if_splits)
  then have nums: "num 4 (pad 4 (nat y) @ zs) = Some (y, zs)" "num 2 (pad 2 (nat m) @ zs) = Some (m, zs)"
    "num 2 (pad 2 (nat d) @ zs) = Some (d, zs)" "num 2 (pad 2 (nat hh) @ zs) = Some (hh, zs)"
    "num 2 (pad 2 (nat mm) @ zs) = Some (mm, zs)" "num 2 (pad 2 (nat ss) @ zs) = Some (ss, zs)" for zs
    using assms by (simp_all add: num_pad)
  have fr: "fraction (frac_text (nat ns) @ ''Z'') = Some (ns, ''Z'')"
    using assms fraction_frac_text [of "nat ns" "[]"] by (simp add: nat_less_iff)
  have z: "zone ''Z'' = Some (0, [])" by (simp add: zone_def)
  show ?thesis
    using assms(3-6,8,10,12) unfolding parse_time_def by (simp add: nums fr z)
qed

lemma parse_time_text:
  assumes "time_text i = Some s"
  shows "parse_time s = Some i"
proof -
  define sec ns sod where sec: "sec = i div 1000000000" and ns: "ns = i mod 1000000000" and sod: "sod = sec mod 86400"
  obtain y m d where civ: "civil_of_days (sec div 86400) = (y, m, d)" by (cases "civil_of_days (sec div 86400)")
  note cal = civil_of_days_round [OF civ]
  from assms civ have y: "0 \<le> y" "y < 10000" and s: "s = pad 4 (nat y) @ ''-'' @ pad 2 (nat m) @ ''-'' @ pad 2 (nat d) @ ''T'' @
      pad 2 (nat (sod div 3600)) @ '':'' @ pad 2 (nat (sod div 60 mod 60)) @ '':'' @
      pad 2 (nat (sod mod 60)) @ frac_text (nat ns) @ ''Z''"
    by (simp_all add: time_text_def Let_def flip: sec ns sod split: if_splits)
  have sod_bounds: "0 \<le> sod" "sod < 86400" by (simp_all add: sod)
  have "sod div 3600 = sod div 60 div 60" by (simp add: zdiv_zmult2_eq [symmetric])
  then have sum: "sod div 3600 * 3600 + sod div 60 mod 60 * 60 + sod mod 60 = sod"
    using div_mult_mod_eq [of "sod div 60" 60] div_mult_mod_eq [of sod 60] by linarith
  have "sec div 86400 * 86400 + sod = sec" by (simp add: sod)
  moreover have "sec * Second + ns = i" by (simp add: sec ns)
  moreover have "days_of_civil y m d * 86400 = sec div 86400 * 86400" using cal by simp
  ultimately have "(days_of_civil y m d * 86400 + sod div 3600 * 3600 + sod div 60 mod 60 * 60 + sod mod 60) * Second + ns = i"
    using sum by (simp only: add.assoc)
  moreover have "parse_time s = Some ((days_of_civil y m d * 86400 + sod div 3600 * 3600 +
      sod div 60 mod 60 * 60 + sod mod 60) * Second + ns)"
    unfolding s
  proof (rule parse_time_fields)
    show "0 \<le> ns" "ns < 1000000000" by (simp_all add: ns)
    show "0 \<le> sod div 3600" "sod div 3600 < 24" using sod_bounds by simp_all
  qed (use y cal in simp_all)
  ultimately show ?thesis by (simp only:)
qed

end
