(* ===== verification/TaskJson.thy ===== *)
theory TaskJson
  imports TimeText
begin

text \<open>
  The JSON form of \<^verbatim>\<open>models.Task\<close> and \<^verbatim>\<open>models.Stage\<close> (\<^verbatim>\<open>shared/models/task.go\<close>): the body of
  every task request and response of patterns 2 and 3 and of the HTTP API.

  Encoding fails only for a time whose year does not fit four digits. A nil slice of stages
  and an empty one are the same list here and are written as an empty array.
  \<open>unmarshal_marshal_task\<close>: a task with valid UTF-8 strings and encodable times is read
  back unchanged; \<open>parse_tasks_text\<close> says the same of a list of tasks.
\<close>

section \<open>Encoding\<close>

definition stage_json :: "stage \<Rightarrow> json" where
  "stage_json s = JObj [(''index'', JNum (int_text (stage_Index s))), (''name'', JStr (stage_Name s))]"

definition time_json :: "instant \<Rightarrow> json option" where
  "time_json i = map_option JStr (time_text i)"

text \<open>A pointer to a time with \<^verbatim>\<open>omitempty\<close>: a nil pointer is left out.\<close>

definition opt_time :: "string \<Rightarrow> instant option \<Rightarrow> (string \<times> json) list option" where
  "opt_time k x =
     (case x of None \<Rightarrow> Some [] | Some i \<Rightarrow> map_option (\<lambda>v. [(k, v)]) (time_json i))"

definition task_json :: "task \<Rightarrow> json option" where
  "task_json t =
     do { sub \<leftarrow> time_json (task_SubmittedAt t);
          dis \<leftarrow> opt_time ''dispatchedAt'' (task_DispatchedAt t);
          com \<leftarrow> opt_time ''completedAt'' (task_CompletedAt t);
          Some (JObj ([(''id'', JStr (task_ID t)), (''name'', JStr (task_Name t)),
              (''status'', JStr (task_Status t))] @ opt_str ''userID'' (task_UserID t) @
            [(''submittedAt'', sub)] @ dis @ com @
            [(''stages'', JArr (map stage_json (task_Stages t)))])) }"

definition marshal_task :: "task \<Rightarrow> string option" where
  "marshal_task t = map_option jtext (task_json t)"

section \<open>Decoding\<close>

definition set_time :: "(instant \<Rightarrow> 'r \<Rightarrow> 'r) \<Rightarrow> json \<Rightarrow> 'r \<Rightarrow> 'r option" where
  "set_time upd v r =
     (case v of
        JNull \<Rightarrow> Some r
      | JStr s \<Rightarrow> (case parse_time s of Some i \<Rightarrow> Some (upd i r) | None \<Rightarrow> None)
      | _ \<Rightarrow> None)"

definition set_opt_time :: "(instant option \<Rightarrow> 'r \<Rightarrow> 'r) \<Rightarrow> json \<Rightarrow> 'r \<Rightarrow> 'r option" where
  "set_opt_time upd v r =
     (case v of JNull \<Rightarrow> Some (upd None r) | _ \<Rightarrow> set_time (\<lambda>i. upd (Some i)) v r)"

definition stage_fields :: "string list" where
  "stage_fields = [''index'', ''name'']"

definition stage_member :: "string \<Rightarrow> json \<Rightarrow> stage \<Rightarrow> stage option" where
  "stage_member k v s =
     (case field_index stage_fields k of
        None \<Rightarrow> Some s
      | Some i \<Rightarrow>
          if i = 0 then set_int (\<lambda>n r. r\<lparr>stage_Index := n\<rparr>) v s
          else set_string (\<lambda>x r. r\<lparr>stage_Name := x\<rparr>) v s)"

text \<open>Members are stored one after the other; the first error ends the decoding.\<close>

fun members :: "(string \<Rightarrow> json \<Rightarrow> 'r \<Rightarrow> 'r option) \<Rightarrow> (string \<times> json) list \<Rightarrow> 'r \<Rightarrow> 'r option" where
  "members put [] r = Some r"
| "members put ((k, v) # kvs) r = Option.bind (put k v r) (members put kvs)"

definition zero_stage :: stage where
  "zero_stage = \<lparr>stage_Index = 0, stage_Name = []\<rparr>"

definition stage_of_json :: "json \<Rightarrow> stage option" where
  "stage_of_json v =
     (case v of
        JNull \<Rightarrow> Some zero_stage | JObj kvs \<Rightarrow> members stage_member kvs zero_stage | _ \<Rightarrow> None)"

fun map_all :: "('a \<Rightarrow> 'b option) \<Rightarrow> 'a list \<Rightarrow> 'b list option" where
  "map_all f [] = Some []"
| "map_all f (x # xs) = do { y \<leftarrow> f x; ys \<leftarrow> map_all f xs; Some (y # ys) }"

definition set_stages :: "json \<Rightarrow> task \<Rightarrow> task option" where
  "set_stages v t =
     (case v of
        JNull \<Rightarrow> Some (t\<lparr>task_Stages := []\<rparr>)
      | JArr vs \<Rightarrow> map_option (\<lambda>ss. t\<lparr>task_Stages := ss\<rparr>) (map_all stage_of_json vs)
      | _ \<Rightarrow> None)"

definition task_fields :: "string list" where
  "task_fields = [''id'', ''name'', ''status'', ''userID'', ''submittedAt'', ''dispatchedAt'',
     ''completedAt'', ''stages'']"

definition task_member :: "string \<Rightarrow> json \<Rightarrow> task \<Rightarrow> task option" where
  "task_member k v t =
     (case field_index task_fields k of
        None \<Rightarrow> Some t
      | Some i \<Rightarrow>
          if i = 0 then set_string (\<lambda>s r. r\<lparr>task_ID := s\<rparr>) v t
          else if i = 1 then set_string (\<lambda>s r. r\<lparr>task_Name := s\<rparr>) v t
          else if i = 2 then set_string (\<lambda>s r. r\<lparr>task_Status := s\<rparr>) v t
          else if i = 3 then set_string (\<lambda>s r. r\<lparr>task_UserID := s\<rparr>) v t
          else if i = 4 then set_time (\<lambda>x r. r\<lparr>task_SubmittedAt := x\<rparr>) v t
          else if i = 5 then set_opt_time (\<lambda>x r. r\<lparr>task_DispatchedAt := x\<rparr>) v t
          else if i = 6 then set_opt_time (\<lambda>x r. r\<lparr>task_CompletedAt := x\<rparr>) v t
          else set_stages v t)"

definition task_of_json :: "json \<Rightarrow> task option" where
  "task_of_json v =
     (case v of
        JNull \<Rightarrow> Some zero_task | JObj kvs \<Rightarrow> members task_member kvs zero_task | _ \<Rightarrow> None)"

text \<open>\<^verbatim>\<open>json.Unmarshal\<close>: the text is exactly one value.\<close>

definition unmarshal_task :: "string \<Rightarrow> task option" where
  "unmarshal_task s = Option.bind (parse_json s) task_of_json"

text \<open>\<^verbatim>\<open>json.NewDecoder(r).Decode\<close>: the first value of the stream, whatever follows it.\<close>

definition decode_first :: "string \<Rightarrow> json option" where
  "decode_first s = map_option fst (pvalue (2 * length s + 2) 10000 s)"

definition decode_task :: "string \<Rightarrow> task option" where
  "decode_task s = Option.bind (decode_first s) task_of_json"

text \<open>A list of tasks, as \<^verbatim>\<open>GET /tasks\<close> writes and reads it; a nil slice decodes to no tasks.\<close>

definition marshal_tasks :: "task list \<Rightarrow> string option" where
  "marshal_tasks ts = map_option (\<lambda>vs. jtext (JArr vs)) (map_all task_json ts)"

definition tasks_of_json :: "json \<Rightarrow> task list option" where
  "tasks_of_json v =
     (case v of JNull \<Rightarrow> Some [] | JArr vs \<Rightarrow> map_all task_of_json vs | _ \<Rightarrow> None)"

definition decode_tasks :: "string \<Rightarrow> task list option" where
  "decode_tasks s = Option.bind (decode_first s) tasks_of_json"

text \<open>The tasks the encoding is faithful on.\<close>

definition stage_encodable :: "stage \<Rightarrow> bool" where
  "stage_encodable s \<longleftrightarrow> in_int64 (stage_Index s) \<and> valid_utf8 (stage_Name s)"

definition task_encodable :: "task \<Rightarrow> bool" where
  "task_encodable t \<longleftrightarrow> valid_utf8 (task_ID t) \<and> valid_utf8 (task_Name t) \<and>
     valid_utf8 (task_Status t) \<and> valid_utf8 (task_UserID t) \<and> time_text (task_SubmittedAt t) \<noteq> None \<and>
     (\<forall>i. task_DispatchedAt t = Some i \<longrightarrow> time_text i \<noteq> None) \<and>
     (\<forall>i. task_CompletedAt t = Some i \<longrightarrow> time_text i \<noteq> None) \<and>
     list_all stage_encodable (task_Stages t)"

section \<open>Lemmas\<close>

lemma digits_valid_utf8: "list_all is_digit ds \<Longrightarrow> valid_utf8 (ds @ s) = valid_utf8 s"
  by (induction ds) (auto simp: is_digit_def between_def)

lemma frac_text_valid: "valid_utf8 (frac_text n @ s) = valid_utf8 s"
proof (cases "n = 0")
  case False
  obtain k where "pad 9 n = rev (dropWhile (\<lambda>c. c = CHR ''0'') (rev (pad 9 n))) @ replicate k (CHR ''0'')"
    using strip_zeros by blast
  then have "list_all is_digit (rev (dropWhile (\<lambda>c. c = CHR ''0'') (rev (pad 9 n))))"
    by (metis list_all_append pad_digits)
  with False show ?thesis by (simp add: frac_text_def digits_valid_utf8)
qed (simp add: frac_text_def)

lemma time_text_valid:
  assumes "time_text i = Some s"
  shows "valid_utf8 s"
proof -
  obtain y m d where "civil_of_days (i div 1000000000 div 86400) = (y, m, d)"
    by (cases "civil_of_days (i div 1000000000 div 86400)")
  with assms have "\<exists>a b c. s = pad 4 (nat y) @ ''-'' @ pad 2 (nat m) @ ''-'' @ pad 2 (nat d) @ ''T'' @
      pad 2 a @ '':'' @ pad 2 b @ '':'' @ pad 2 c @ frac_text (nat (i mod 1000000000)) @ ''Z''"
    by (auto simp: time_text_def Let_def split: if_split_asm)
  then show ?thesis by (auto simp: digits_valid_utf8 frac_text_valid)
qed

lemma task_field_index:
  "field_index task_fields ''id'' = Some 0" "field_index task_fields ''name'' = Some 1"
  "field_index task_fields ''status'' = Some 2" "field_index task_fields ''userID'' = Some 3"
  "field_index task_fields ''submittedAt'' = Some 4" "field_index task_fields ''dispatchedAt'' = Some 5"
  "field_index task_fields ''completedAt'' = Some 6" "field_index task_fields ''stages'' = Some 7"
  by code_simp+

lemma stage_field_index:
  "field_index stage_fields ''index'' = Some 0" "field_index stage_fields ''name'' = Some 1"
  by code_simp+

lemma stage_of_stage_json: "stage_encodable s \<Longrightarrow> stage_of_json (stage_json s) = Some s"
  by (simp add: stage_of_json_def stage_json_def stage_member_def stage_field_index set_int_def
      set_string_def parse_int64_int_text stage_encodable_def zero_stage_def)

lemma map_all_map: "(\<forall>x \<in> set xs. f (g x) = Some x) \<Longrightarrow> map_all f (map g xs) = Some xs"
  by (induction xs) simp_all

lemma members_append: "members put (kvs @ kvs') r = Option.bind (members put kvs r) (members put kvs')"
proof (induction kvs arbitrary: r)
  case (Cons kv kvs)
  then show ?case by (cases kv; cases "put (fst kv) (snd kv) r") simp_all
qed simp

lemma opt_time_members:
  assumes "opt_time k x = Some kvs" and "\<And>i r. put k (JStr i) r = set_opt_time upd (JStr i) r"
    and "upd None r = r"
  shows "members put kvs r = Some (upd x r)"
  using assms by (auto simp: opt_time_def time_json_def set_opt_time_def set_time_def parse_time_text
      split: option.splits)

lemma task_of_task_json:
  assumes "task_encodable t" and "task_json t = Some v"
  shows "task_of_json v = Some t"
proof -
  from assms(2) obtain sub dis com where sub: "time_text (task_SubmittedAt t) = Some sub"
    and dis: "opt_time ''dispatchedAt'' (task_DispatchedAt t) = Some dis"
    and com: "opt_time ''completedAt'' (task_CompletedAt t) = Some com"
    and v: "v = JObj ([(''id'', JStr (task_ID t)), (''name'', JStr (task_Name t)),
              (''status'', JStr (task_Status t))] @ opt_str ''userID'' (task_UserID t) @
            [(''submittedAt'', JStr sub)] @ dis @ com @
            [(''stages'', JArr (map stage_json (task_Stages t)))])"
    by (auto simp: task_json_def time_json_def split: Option.bind_splits)
  let ?d = "\<lambda>x r. r\<lparr>task_DispatchedAt := x\<rparr>" and ?c = "\<lambda>x r. r\<lparr>task_CompletedAt := x\<rparr>"
  have mdis: "members task_member dis r = Some (r\<lparr>task_DispatchedAt := task_DispatchedAt t\<rparr>)"
    if "task_DispatchedAt r = None" for r
    using opt_time_members [OF dis, of task_member ?d r] that
    by (simp add: task_member_def task_field_index)
  have mcom: "members task_member com r = Some (r\<lparr>task_CompletedAt := task_CompletedAt t\<rparr>)"
    if "task_CompletedAt r = None" for r
    using opt_time_members [OF com, of task_member ?c r] that
    by (simp add: task_member_def task_field_index)
  have "map_all stage_of_json (map stage_json (task_Stages t)) = Some (task_Stages t)"
    using assms(1) by (intro map_all_map) (auto simp: task_encodable_def list_all_iff stage_of_stage_json)
  then show ?thesis
    by (simp add: task_of_json_def v members_append mdis mcom task_member_def task_field_index
        set_string_def set_time_def set_stages_def parse_time_text [OF sub] opt_str_def zero_task_def)
qed

lemma task_json_total: "task_encodable t \<Longrightarrow> \<exists>v. task_json t = Some v"
  by (auto simp: task_encodable_def task_json_def time_json_def opt_time_def split: option.split)

lemma stage_json_wf: "stage_encodable s \<Longrightarrow> jwf (stage_json s) \<and> jdepth_le (Suc d) (stage_json s)"
  by (auto simp: stage_encodable_def stage_json_def)

lemma opt_time_wf:
  "opt_time k x = Some kvs \<Longrightarrow> (k', v) \<in> set kvs \<Longrightarrow> k' = k \<and> jwf v \<and> jdepth_le d v"
  by (auto simp: opt_time_def time_json_def time_text_valid split: option.splits)

lemma task_json_wf:
  assumes "task_encodable t" and "task_json t = Some v"
  shows "jwf v" "jdepth_le (Suc (Suc (Suc d))) v"
proof -
  from assms(2) obtain sub dis com where sub: "time_text (task_SubmittedAt t) = Some sub"
    and dis: "opt_time ''dispatchedAt'' (task_DispatchedAt t) = Some dis"
    and com: "opt_time ''completedAt'' (task_CompletedAt t) = Some com"
    and v: "v = JObj ([(''id'', JStr (task_ID t)), (''name'', JStr (task_Name t)),
              (''status'', JStr (task_Status t))] @ opt_str ''userID'' (task_UserID t) @
            [(''submittedAt'', JStr sub)] @ dis @ com @
            [(''stages'', JArr (map stage_json (task_Stages t)))])"
    by (auto simp: task_json_def time_json_def split: Option.bind_splits)
  have keys: "valid_utf8 ''dispatchedAt''" "valid_utf8 ''completedAt''" by simp_all
  have stages: "jwf (stage_json s) \<and> jdepth_le (Suc d) (stage_json s)" if "s \<in> set (task_Stages t)" for s
    using assms(1) that stage_json_wf [of s] by (simp add: task_encodable_def list_all_iff)
  show "jwf v"
    using assms(1) stages time_text_valid [OF sub] keys opt_time_wf [OF dis] opt_time_wf [OF com]
    unfolding v by (fastforce simp: task_encodable_def opt_str_def)
  show "jdepth_le (Suc (Suc (Suc d))) v"
    using stages opt_time_wf [OF dis] opt_time_wf [OF com]
    unfolding v by (fastforce simp: opt_str_def)
qed

lemma jdepth_task:
  assumes "task_encodable t" and "task_json t = Some v"
  shows "jdepth_le 9999 v" "jdepth_le 10000 v"
  using task_json_wf(2) [OF assms, of 9996] task_json_wf(2) [OF assms, of 9997]
  by simp_all

lemma decode_first_jtext:
  assumes "jwf v" and "jdepth_le 10000 v" and "delim zs"
  shows "decode_first (jtext v @ zs) = Some v"
  using pvalue_jtext [of v 10000 "2 * length (jtext v @ zs) + 2" zs] jcost_length [of v] assms
  by (simp add: decode_first_def)

lemma unmarshal_marshal_task:
  assumes "task_encodable t"
  shows "\<exists>s. marshal_task t = Some s \<and> unmarshal_task s = Some t \<and> decode_task (s @ [newline]) = Some t"
proof -
  obtain v where v: "task_json t = Some v" using task_json_total [OF assms] ..
  note facts = task_json_wf(1) [OF assms v] jdepth_task(2) [OF assms v] task_of_task_json [OF assms v]
  with v show ?thesis
    by (simp add: marshal_task_def unmarshal_task_def decode_task_def parse_json_jtext decode_first_jtext)
qed

lemma map_all_Some:
  "map_all f xs = Some ys \<Longrightarrow> list_all2 (\<lambda>x y. f x = Some y) xs ys"
  by (induction xs arbitrary: ys) (auto split: Option.bind_splits)

lemma map_all_total: "\<forall>x \<in> set xs. \<exists>y. f x = Some y \<Longrightarrow> \<exists>ys. map_all f xs = Some ys"
  by (induction xs) auto

lemma decode_marshal_tasks:
  assumes "list_all task_encodable ts"
  shows "\<exists>s. marshal_tasks ts = Some s \<and> decode_tasks (s @ [newline]) = Some ts"
proof -
  obtain vs where vs: "map_all task_json ts = Some vs"
    using assms map_all_total [of ts task_json] task_json_total by (auto simp: list_all_iff)
  have all: "list_all2 (\<lambda>t v. task_encodable t \<and> task_json t = Some v) ts vs"
    using map_all_Some [OF vs] assms by (auto simp: list_all2_conv_all_nth list_all_length)
  then have again: "map_all task_of_json vs = Some ts"
    by (induction ts vs rule: list_all2_induct) (auto simp: task_of_task_json)
  from all have wf: "\<forall>v \<in> set vs. jwf v \<and> jdepth_le 9999 v"
    by (induction ts vs rule: list_all2_induct) (auto simp: task_json_wf jdepth_task)
  have "10000 = Suc 9999" by simp
  then have "jdepth_le 10000 (JArr vs)" using wf by (simp only: jdepth_le.simps nat.case) blast
  with wf decode_first_jtext [of "JArr vs" "[newline]"] vs again show ?thesis
    by (simp add: marshal_tasks_def decode_tasks_def tasks_of_json_def)
qed

end
