(* ===== verification/Contracts.thy ===== *)
theory Contracts
  imports Models
begin

text \<open>
  The Go interfaces of the repository and what their users rely on.

  A Go interface value is a method table with a state: \<open>task_store\<close> is
  \<^verbatim>\<open>store.TaskStore\<close>, \<open>task_dispatcher\<close> and \<open>task_consumer\<close> are
  \<^verbatim>\<open>contracts.TaskDispatcher\<close> and \<^verbatim>\<open>contracts.TaskConsumer\<close>, \<open>event_publisher\<close> is
  \<^verbatim>\<open>events.TaskEventPublisher\<close>. Every implementation is a value of the table's record
  type; the code that uses an interface takes the table as an argument.

  The locales state the contract behind each table: \<open>task_store_contract\<close> (a finite map
  from task IDs to tasks), \<open>dispatcher_contract\<close> (an accepted task is queued exactly
  once, a refused one not at all; events come out in the order they went in) and
  \<open>publisher_contract\<close> (publishing always returns and reaches every subscriber with room). Each implementation interprets the
  locale it satisfies in its own theory.
\<close>

section \<open>Method tables\<close>

record 's task_store =
  ts_create :: "task \<Rightarrow> 's \<Rightarrow> go_error option \<times> 's"
  ts_get :: "string \<Rightarrow> 's \<Rightarrow> task option"
  ts_list :: "nat \<Rightarrow> 's \<Rightarrow> task list"
  ts_set_status :: "instant \<Rightarrow> string \<Rightarrow> string \<Rightarrow> 's \<Rightarrow> go_error option \<times> 's"
  ts_set_dispatched_at :: "string \<Rightarrow> instant \<Rightarrow> 's \<Rightarrow> go_error option \<times> 's"

record 'd task_dispatcher =
  td_start :: "ctx \<Rightarrow> 'd \<Rightarrow> go_error option \<times> 'd"
  td_dispatch :: "ctx \<Rightarrow> task \<Rightarrow> 'd \<Rightarrow> (go_error option \<times> 'd) outcome"
  td_receive_event :: "ctx \<Rightarrow> 'd \<Rightarrow> ((go_error + task_event) \<times> 'd) outcome"

record 'c task_consumer =
  tc_connect :: "ctx \<Rightarrow> 'c \<Rightarrow> (go_error option \<times> 'c) outcome"
  tc_receive :: "ctx \<Rightarrow> 'c \<Rightarrow> ((go_error + task) \<times> 'c) outcome"
  tc_emit :: "ctx \<Rightarrow> task_event \<Rightarrow> 'c \<Rightarrow> (go_error option \<times> 'c) outcome"

text \<open>The argument of type \<^typ>\<open>nat\<close> is the visiting order of the subscriber map.\<close>

record 'e event_publisher =
  ep_publish :: "nat \<Rightarrow> task_event \<Rightarrow> 'e \<Rightarrow> 'e outcome"

text \<open>
  Errors that reach the HTTP layer: an \<^verbatim>\<open>echo.HTTPError\<close> with its status code, message and
  internal error, or any other error.
\<close>

datatype api_error = HTTPError int string "go_error option" | OtherError go_error

text \<open>
  \<^verbatim>\<open>contracts.TaskManager\<close>: what the HTTP handlers call. A remote manager is reached over a
  network that may block, so every method is an outcome and may change the state.
\<close>

record 'm task_manager =
  tm_submit :: "ctx \<Rightarrow> instant \<Rightarrow> task \<Rightarrow> 'm \<Rightarrow> (api_error option \<times> 'm) outcome"
  tm_get :: "ctx \<Rightarrow> string \<Rightarrow> 'm \<Rightarrow> (task option \<times> 'm) outcome"
  tm_list :: "ctx \<Rightarrow> nat \<Rightarrow> 'm \<Rightarrow> (task list \<times> 'm) outcome"

section \<open>The abstract store: a map from IDs to tasks\<close>

type_synonym task_map = "string \<rightharpoonup> task"

definition spec_create :: "task \<Rightarrow> task_map \<Rightarrow> task_map" where
  "spec_create t m = (if m (task_ID t) = None then m(task_ID t \<mapsto> t) else m)"

definition with_status :: "instant \<Rightarrow> string \<Rightarrow> task \<Rightarrow> task" where
  "with_status now st t = t\<lparr>task_Status := st, task_CompletedAt := Some now\<rparr>"

definition spec_finish :: "instant \<Rightarrow> string \<Rightarrow> string \<Rightarrow> task_map \<Rightarrow> task_map" where
  "spec_finish now i st m =
     (case m i of None \<Rightarrow> m | Some t \<Rightarrow> m(i \<mapsto> with_status now st t))"

definition spec_dispatched :: "string \<Rightarrow> instant \<Rightarrow> task_map \<Rightarrow> task_map" where
  "spec_dispatched i at m =
     (case m i of None \<Rightarrow> m | Some t \<Rightarrow> m(i \<mapsto> t\<lparr>task_DispatchedAt := Some at\<rparr>))"

lemma with_status_simps [simp]:
  "task_ID (with_status now st t) = task_ID t"
  "task_UserID (with_status now st t) = task_UserID t"
  "task_Status (with_status now st t) = st"
  "task_CompletedAt (with_status now st t) = Some now"
  "task_DispatchedAt (with_status now st t) = task_DispatchedAt t"
  by (simp_all add: with_status_def)

lemma spec_create_new [simp]: "m (task_ID t) = None \<Longrightarrow> spec_create t m = m(task_ID t \<mapsto> t)"
  by (simp add: spec_create_def)

lemma spec_create_dup [simp]: "m (task_ID t) = Some u \<Longrightarrow> spec_create t m = m"
  by (simp add: spec_create_def)

lemma spec_finish_Some [simp]: "m i = Some t \<Longrightarrow> spec_finish now i st m = m(i \<mapsto> with_status now st t)"
  by (simp add: spec_finish_def)

lemma spec_finish_None [simp]: "m i = None \<Longrightarrow> spec_finish now i st m = m"
  by (simp add: spec_finish_def)

lemma spec_finish_other [simp]: "j \<noteq> i \<Longrightarrow> spec_finish now i st m j = m j"
  by (simp add: spec_finish_def split: option.split)

lemma spec_dispatched_Some [simp]:
  "m i = Some t \<Longrightarrow> spec_dispatched i at m = m(i \<mapsto> t\<lparr>task_DispatchedAt := Some at\<rparr>)"
  by (simp add: spec_dispatched_def)

lemma spec_dispatched_None [simp]: "m i = None \<Longrightarrow> spec_dispatched i at m = m"
  by (simp add: spec_dispatched_def)

lemma spec_dispatched_other [simp]: "j \<noteq> i \<Longrightarrow> spec_dispatched i at m j = m j"
  by (simp add: spec_dispatched_def split: option.split)

lemma dom_spec_finish [simp]: "dom (spec_finish now i st m) = dom m"
  by (auto simp: spec_finish_def split: option.split)

lemma dom_spec_dispatched [simp]: "dom (spec_dispatched i at m) = dom m"
  by (auto simp: spec_dispatched_def split: option.split)

section \<open>Contract of a task store\<close>

locale task_store_contract =
  fixes TS :: "'s task_store"
    and sinv :: "'s \<Rightarrow> bool"
    and tasks_of :: "'s \<Rightarrow> task_map"
  assumes get: "sinv s \<Longrightarrow> ts_get TS i s = tasks_of s i"
    and keys: "sinv s \<Longrightarrow> tasks_of s i = Some t \<Longrightarrow> task_ID t = i"
    and list_distinct: "sinv s \<Longrightarrow> distinct (map task_ID (ts_list TS p s))"
    and list_set: "sinv s \<Longrightarrow> set (ts_list TS p s) = ran (tasks_of s)"
    and create_result: "sinv s \<Longrightarrow> fst (ts_create TS t s) = None \<longleftrightarrow> tasks_of s (task_ID t) = None"
    and create_state: "sinv s \<Longrightarrow> tasks_of (snd (ts_create TS t s)) = spec_create t (tasks_of s)"
    and create_inv: "sinv s \<Longrightarrow> sinv (snd (ts_create TS t s))"
    and finish_state: "sinv s \<Longrightarrow> terminal_status st \<Longrightarrow>
      tasks_of (snd (ts_set_status TS now i st s)) = spec_finish now i st (tasks_of s)"
    and finish_inv: "sinv s \<Longrightarrow> sinv (snd (ts_set_status TS now i st s))"
    and dispatched_state: "sinv s \<Longrightarrow>
      tasks_of (snd (ts_set_dispatched_at TS i at s)) = spec_dispatched i at (tasks_of s)"
    and dispatched_inv: "sinv s \<Longrightarrow> sinv (snd (ts_set_dispatched_at TS i at s))"
begin

lemmas store_state = create_state finish_state dispatched_state
lemmas store_inv = create_inv finish_inv dispatched_inv

text \<open>A task is listed exactly when it can be fetched by its own ID.\<close>

lemma listed_iff: "sinv s \<Longrightarrow> t \<in> set (ts_list TS p s) \<longleftrightarrow> tasks_of s (task_ID t) = Some t"
  by (auto simp: list_set ran_def dest: keys)

end

section \<open>Contract of a dispatcher\<close>

text \<open>
  \<open>queued\<close> is the bag of tasks accepted and not yet handed to a worker; \<open>inbox\<close> the
  sequence of events received from workers and not yet read by the manager; \<open>sendable\<close>
  the tasks the transport's encoding is faithful on.
\<close>

locale dispatcher_contract =
  fixes TD :: "'d task_dispatcher"
    and dinv :: "'d \<Rightarrow> bool"
    and queued :: "'d \<Rightarrow> task multiset"
    and inbox :: "'d \<Rightarrow> task_event list"
    and sendable :: "task \<Rightarrow> bool"
  assumes dispatch_returns: "dinv d \<Longrightarrow> \<exists>r. td_dispatch TD c t d = Ret r"
    and dispatch_inv: "dinv d \<Longrightarrow> td_dispatch TD c t d = Ret (e, d') \<Longrightarrow> dinv d'"
    and dispatch_accepted: "dinv d \<Longrightarrow> sendable t \<Longrightarrow> td_dispatch TD c t d = Ret (None, d') \<Longrightarrow>
      queued d' = add_mset t (queued d)"
    and dispatch_refused: "dinv d \<Longrightarrow> td_dispatch TD c t d = Ret (Some x, d') \<Longrightarrow>
      queued d' = queued d"
    and dispatch_inbox: "dinv d \<Longrightarrow> td_dispatch TD c t d = Ret (e, d') \<Longrightarrow> inbox d' = inbox d"
    and receive_event: "dinv d \<Longrightarrow> td_receive_event TD c d = Ret (Inr ev, d') \<Longrightarrow>
      inbox d = ev # inbox d' \<and> queued d' = queued d \<and> dinv d'"
    and receive_stop: "dinv d \<Longrightarrow> td_receive_event TD c d = Ret (Inl x, d') \<Longrightarrow>
      ctx_done c \<and> x = ctx_err c \<and> d' = d"
    and receive_blocks: "dinv d \<Longrightarrow>
      td_receive_event TD c d = Block \<longleftrightarrow> \<not> ctx_done c \<and> inbox d = []"
    and receive_no_panic: "dinv d \<Longrightarrow> td_receive_event TD c d \<noteq> Panic"
begin

text \<open>While the context is live, reading takes the oldest event or waits.\<close>

lemma receive_live:
  assumes "dinv d" and "\<not> ctx_done c"
  shows "(inbox d = [] \<and> td_receive_event TD c d = Block) \<or>
    (\<exists>ev d'. td_receive_event TD c d = Ret (Inr ev, d') \<and> inbox d = ev # inbox d')"
proof (cases "td_receive_event TD c d")
  case (Ret r)
  obtain x d' where r: "r = (x, d')" by (cases r)
  show ?thesis
  proof (cases x)
    case (Inl e)
    with Ret r assms receive_stop show ?thesis by blast
  next
    case (Inr ev)
    with Ret r assms receive_event show ?thesis by blast
  qed
next
  case Block
  with assms receive_blocks show ?thesis by blast
next
  case Panic
  with assms receive_no_panic show ?thesis by blast
qed

end

section \<open>Contract of an event publisher\<close>

text \<open>
  \<open>subs\<close> are the current subscribers, \<open>feed\<close> the events a subscriber can read and has not
  read yet, \<open>free\<close> how many more its buffer takes. Publishing reaches every subscriber with
  room and nobody else, in any visiting order.
\<close>

locale publisher_contract =
  fixes EP :: "'e event_publisher"
    and einv :: "'e \<Rightarrow> bool"
    and subs :: "'e \<Rightarrow> nat set"
    and feed :: "'e \<Rightarrow> nat \<Rightarrow> task_event list"
    and free :: "'e \<Rightarrow> nat \<Rightarrow> nat"
  assumes publish_returns: "einv b \<Longrightarrow> \<exists>b'. ep_publish EP p ev b = Ret b'"
    and publish_inv: "einv b \<Longrightarrow> ep_publish EP p ev b = Ret b' \<Longrightarrow> einv b' \<and> subs b' = subs b"
    and publish_room: "einv b \<Longrightarrow> ep_publish EP p ev b = Ret b' \<Longrightarrow> i \<in> subs b \<Longrightarrow> 0 < free b i \<Longrightarrow>
      feed b' i = feed b i @ [ev] \<and> Suc (free b' i) = free b i"
    and publish_drop: "einv b \<Longrightarrow> ep_publish EP p ev b = Ret b' \<Longrightarrow> i \<notin> subs b \<or> free b i = 0 \<Longrightarrow>
      feed b' i = feed b i \<and> free b' i = free b i"

section \<open>Contract of a bounded work queue\<close>

text \<open>
  The queue between a dispatcher and its workers, seen from both ends: \<open>push\<close> is the
  manager's non-blocking enqueue, \<open>pop\<close> a worker's dequeue. \<open>queue_run\<close> runs any
  interleaving of the two and collects the accepted and the handed-out tasks.
\<close>

datatype queue_op = Push task | Pop

fun queue_run :: "(task \<Rightarrow> 'q \<Rightarrow> bool \<times> 'q) \<Rightarrow> ('q \<Rightarrow> (task \<times> 'q) option) \<Rightarrow> queue_op list \<Rightarrow> 'q \<Rightarrow>
    task list \<times> task list \<times> 'q" where
  "queue_run push pop [] q = ([], [], q)"
| "queue_run push pop (Push t # xs) q =
     (let (ok, q1) = push t q; (accepted, popped, q2) = queue_run push pop xs q1
      in (if ok then t # accepted else accepted, popped, q2))"
| "queue_run push pop (Pop # xs) q =
     (case pop q of
        None \<Rightarrow> queue_run push pop xs q
      | Some (t, q1) \<Rightarrow>
          let (accepted, popped, q2) = queue_run push pop xs q1 in (accepted, t # popped, q2))"

locale work_queue =
  fixes push :: "task \<Rightarrow> 'q \<Rightarrow> bool \<times> 'q"
    and pop :: "'q \<Rightarrow> (task \<times> 'q) option"
    and contents :: "'q \<Rightarrow> task list"
    and capacity :: "'q \<Rightarrow> nat"
    and qinv :: "'q \<Rightarrow> bool"
  assumes push_accept: "qinv q \<Longrightarrow> push t q = (True, q') \<Longrightarrow>
      contents q' = contents q @ [t] \<and> length (contents q) < capacity q"
    and push_refuse: "qinv q \<Longrightarrow> push t q = (False, q') \<Longrightarrow>
      q' = q \<and> capacity q \<le> length (contents q)"
    and push_capacity: "qinv q \<Longrightarrow> push t q = (b, q') \<Longrightarrow> capacity q' = capacity q \<and> qinv q'"
    and pop_Some: "qinv q \<Longrightarrow> pop q = Some (t, q') \<Longrightarrow>
      contents q = t # contents q' \<and> capacity q' = capacity q \<and> qinv q'"
    and pop_None: "qinv q \<Longrightarrow> pop q = None \<longleftrightarrow> contents q = []"
begin

text \<open>
  First in, first out, nothing lost and nothing duplicated: at every moment the tasks
  handed out so far followed by those still queued are the initial ones followed by the
  accepted ones.
\<close>

lemma fifo:
  "qinv q \<Longrightarrow> queue_run push pop xs q = (accepted, popped, q') \<Longrightarrow>
     qinv q' \<and> capacity q' = capacity q \<and> popped @ contents q' = contents q @ accepted"
proof (induction xs arbitrary: q accepted popped)
  case Nil
  then show ?case by simp
next
  case (Cons x xs)
  show ?case
  proof (cases x)
    case (Push t)
    obtain ok q1 where p: "push t q = (ok, q1)" by (cases "push t q")
    obtain acc pp q2 where r: "queue_run push pop xs q1 = (acc, pp, q2)"
      by (cases "queue_run push pop xs q1")
    from push_capacity [OF Cons.prems(1) p] have inv: "qinv q1" and cap: "capacity q1 = capacity q" by simp_all
    from Cons.IH [OF inv] r Cons.prems(2) p Push cap
    have IH: "qinv q' \<and> capacity q' = capacity q \<and> popped @ contents q' = contents q1 @ acc"
      and acc: "accepted = (if ok then t # acc else acc)"
      by (auto split: if_splits)
    show ?thesis
    proof (cases ok)
      case True
      with push_accept [OF Cons.prems(1), of t q1] p IH acc show ?thesis by simp
    next
      case False
      with push_refuse [OF Cons.prems(1), of t q1] p IH acc show ?thesis by simp
    qed
  next
    case Pop
    show ?thesis
    proof (cases "pop q")
      case None
      with Cons Pop show ?thesis by simp
    next
      case (Some r)
      obtain t q1 where r: "r = (t, q1)" by (cases r)
      obtain acc pp q2 where rr: "queue_run push pop xs q1 = (acc, pp, q2)"
        by (cases "queue_run push pop xs q1")
      from pop_Some [OF Cons.prems(1)] Some r have h: "contents q = t # contents q1" "qinv q1" "capacity q1 = capacity q" by auto
      with Cons.IH [OF h(2)] rr Cons.prems(2) Some r Pop show ?thesis by auto
    qed
  qed
qed

end

end
