(* ===== verification/Executor.thy ===== *)
theory Executor
  imports Contracts
begin

text \<open>
  \<^verbatim>\<open>shared/executor/executor.go\<close>: the worker's \<^verbatim>\<open>Executor.Run\<close>, which walks through the
  stages of a task and reports to the manager through a \<^verbatim>\<open>TaskConsumer\<close>.

  \<open>exec_run\<close> follows the code call by call: it emits through the consumer's method table
  and stops where an emission blocks. What the environment contributes is the record
  \<open>run_env\<close>: the context at each emission, the random number of each stage, and whether
  the \<^verbatim>\<open>select\<close> of a stage takes its \<^verbatim>\<open>ctx.Done()\<close> case. \<open>run_script\<close> is the reference: the
  list of events a run reports. \<open>exec_run_script\<close> shows that the two agree for every
  consumer; the lemmas on \<open>run_script\<close> say what a run reports. The locale
  \<open>reliable_emitter\<close> is the contract of a consumer that may drop progress but never a
  terminal status.
\<close>

section \<open>Executor.Run\<close>

record executor =
  MaxStageDuration :: duration

record run_env =
  re_ctx :: "nat \<Rightarrow> ctx"
  re_rand :: "nat \<Rightarrow> nat"
  re_cancel :: "nat \<Rightarrow> bool"

text \<open>
  The random duration of a stage. \<^verbatim>\<open>rand.Int63n(n)\<close> panics unless \<open>n\<close> is positive as an
  \<^verbatim>\<open>int64\<close>, which fails when the maximum is the largest \<^verbatim>\<open>int64\<close>.
\<close>

definition stage_duration :: "executor \<Rightarrow> nat \<Rightarrow> duration outcome" where
  "stage_duration e r =
     (if MaxStageDuration e > 0
      then (if MaxStageDuration e + 1 < 2 ^ 63
            then Ret (int r mod (MaxStageDuration e + 1)) else Panic)
      else Ret 0)"

definition valid_executor :: "executor \<Rightarrow> bool" where
  "valid_executor e \<longleftrightarrow> MaxStageDuration e + 1 < 2 ^ 63"

definition status_event :: "task \<Rightarrow> string \<Rightarrow> task_event" where
  "status_event t st = zero_event\<lparr>ev_Type := EventTaskStatus, ev_TaskID := task_ID t, ev_Status := st\<rparr>"

definition progress_event :: "task \<Rightarrow> stage \<Rightarrow> int \<Rightarrow> task_event" where
  "progress_event t s pr = zero_event\<lparr>ev_Type := EventProgress, ev_TaskID := task_ID t,
     ev_StageName := stage_Name s, ev_Progress := pr\<rparr>"

text \<open>\<^verbatim>\<open>_ = consumer.Emit(ctx, event)\<close>: the error is discarded.\<close>

definition emit_ignored :: "'c task_consumer \<Rightarrow> ctx \<Rightarrow> task_event \<Rightarrow> 'c \<Rightarrow> 'c outcome" where
  "emit_ignored TC x ev c = omap snd (tc_emit TC x ev c)"

text \<open>The loop over the stages; the flag is False when the run was cancelled.\<close>

fun run_stages :: "'c task_consumer \<Rightarrow> executor \<Rightarrow> run_env \<Rightarrow> task \<Rightarrow> int \<Rightarrow> nat \<Rightarrow> stage list \<Rightarrow>
    'c \<Rightarrow> (bool \<times> 'c) outcome" where
  "run_stages TC e w t tot i [] c = Ret (True, c)"
| "run_stages TC e w t tot i (s # ss) c =
     obind (emit_ignored TC (re_ctx w (2 * i + 1)) (progress_event t s (int i * 100 div tot)) c)
       (\<lambda>c1. obind (stage_duration e (re_rand w i)) (\<lambda>_.
         if re_cancel w i
         then omap (\<lambda>c2. (False, c2))
                (emit_ignored TC (re_ctx w (2 * i + 2)) (status_event t TaskFailed) c1)
         else obind (emit_ignored TC (re_ctx w (2 * i + 2))
                       (progress_event t s ((int i + 1) * 100 div tot)) c1)
                (\<lambda>c2. run_stages TC e w t tot (Suc i) ss c2)))"

text \<open>After the loop: the completed status, unless the run was cancelled.\<close>

fun finish_run :: "'c task_consumer \<Rightarrow> ctx \<Rightarrow> task \<Rightarrow> bool \<times> 'c \<Rightarrow> 'c outcome" where
  "finish_run TC x t (finished, c) =
     (if finished then emit_ignored TC x (status_event t TaskCompleted) c else Ret c)"

definition exec_run :: "'c task_consumer \<Rightarrow> executor \<Rightarrow> run_env \<Rightarrow> task \<Rightarrow> 'c \<Rightarrow> 'c outcome" where
  "exec_run TC e w t c =
     (let tot = int (length (task_Stages t))
      in obind (emit_ignored TC (re_ctx w 0) (status_event t TaskRunning) c) (\<lambda>c1.
         obind (run_stages TC e w t tot 0 (task_Stages t) c1)
           (finish_run TC (re_ctx w (2 * length (task_Stages t) + 1)) t)))"

section \<open>The reported events\<close>

fun stage_script :: "(nat \<Rightarrow> bool) \<Rightarrow> task \<Rightarrow> int \<Rightarrow> nat \<Rightarrow> stage list \<Rightarrow> task_event list" where
  "stage_script cancel t tot i [] = [status_event t TaskCompleted]"
| "stage_script cancel t tot i (s # ss) =
     progress_event t s (int i * 100 div tot) #
     (if cancel i then [status_event t TaskFailed]
      else progress_event t s ((int i + 1) * 100 div tot) #
           stage_script cancel t tot (Suc i) ss)"

definition run_script :: "(nat \<Rightarrow> bool) \<Rightarrow> task \<Rightarrow> task_event list" where
  "run_script cancel t = status_event t TaskRunning #
     stage_script cancel t (int (length (task_Stages t))) 0 (task_Stages t)"

text \<open>Emitting a list of events in order, the context of each given by its position.\<close>

fun emit_all :: "'c task_consumer \<Rightarrow> (nat \<Rightarrow> ctx) \<Rightarrow> nat \<Rightarrow> task_event list \<Rightarrow> 'c \<Rightarrow> 'c outcome" where
  "emit_all TC cx k [] c = Ret c"
| "emit_all TC cx k (ev # evs) c =
     obind (emit_ignored TC (cx k) ev c) (\<lambda>c'. emit_all TC cx (Suc k) evs c')"

section \<open>Lemmas\<close>

lemma status_event_simps [simp]:
  "ev_Type (status_event t st) = EventTaskStatus"
  "ev_TaskID (status_event t st) = task_ID t"
  "ev_Status (status_event t st) = st"
  "ev_UserID (status_event t st) = []"
  by (simp_all add: status_event_def zero_event_def)

lemma progress_event_simps [simp]:
  "ev_Type (progress_event t s p) = EventProgress"
  "ev_TaskID (progress_event t s p) = task_ID t"
  "ev_StageName (progress_event t s p) = stage_Name s"
  "ev_Progress (progress_event t s p) = p"
  "ev_UserID (progress_event t s p) = []"
  by (simp_all add: progress_event_def zero_event_def)

lemma is_terminal_executor [simp]:
  "\<not> is_terminal (progress_event t s p)"
  "is_terminal (status_event t st) = terminal_status st"
  by (simp_all add: is_terminal_iff)

text \<open>A stage never lasts longer than the configured maximum.\<close>

lemma stage_duration_bounds:
  assumes "stage_duration e r = Ret d"
  shows "0 \<le> d \<and> d \<le> max 0 (MaxStageDuration e)"
proof (cases "MaxStageDuration e > 0")
  case True
  then have "int r mod (MaxStageDuration e + 1) < MaxStageDuration e + 1"
    by (intro pos_mod_bound) simp
  with True assms show ?thesis by (auto simp: stage_duration_def split: if_splits)
next
  case False
  with assms show ?thesis by (simp add: stage_duration_def)
qed

lemma stage_duration_Ret:
  assumes "valid_executor e"
  obtains d where "stage_duration e r = Ret d"
  using assms that by (cases "MaxStageDuration e > 0") (auto simp: stage_duration_def valid_executor_def)

lemma run_stages_script:
  assumes dur: "valid_executor e"
  shows "obind (run_stages TC e w t tot i ss c)
      (finish_run TC (re_ctx w (2 * (i + length ss) + 1)) t) =
    emit_all TC (re_ctx w) (2 * i + 1) (stage_script (re_cancel w) t tot i ss) c"
proof (induction ss arbitrary: i c)
  case Nil
  show ?case by (cases "emit_ignored TC (re_ctx w (2 * i + 1)) (status_event t TaskCompleted) c") auto
next
  case (Cons s ss)
  obtain d where d: "stage_duration e (re_rand w i) = Ret d"
    using dur by (rule stage_duration_Ret)
  show ?case
  proof (cases "emit_ignored TC (re_ctx w (2 * i + 1)) (progress_event t s (int i * 100 div tot)) c")
    case (Ret c1)
    show ?thesis
    proof (cases "re_cancel w i")
      case True
      with Ret d show ?thesis
        by (cases "emit_ignored TC (re_ctx w (Suc (Suc (2 * i)))) (status_event t TaskFailed) c1") auto
    next
      case False
      with Ret d Cons.IH [of "Suc i"] show ?thesis
        by (cases "emit_ignored TC (re_ctx w (Suc (Suc (2 * i))))
              (progress_event t s ((int i + 1) * 100 div tot)) c1") auto
    qed
  qed auto
qed

text \<open>For every consumer, a run emits exactly its script, one event after the other.\<close>

lemma exec_run_script:
  assumes "valid_executor e"
  shows "exec_run TC e w t c = emit_all TC (re_ctx w) 0 (run_script (re_cancel w) t) c"
proof (cases "emit_ignored TC (re_ctx w 0) (status_event t TaskRunning) c")
  case (Ret c1)
  with run_stages_script [OF assms, of TC w t "int (length (task_Stages t))" 0 "task_Stages t" c1]
  show ?thesis by (simp add: exec_run_def run_script_def Let_def)
qed (simp_all add: exec_run_def run_script_def Let_def)

text \<open>A run reports one terminal status, and it is the last event.\<close>

lemma stage_script_terminal:
  "\<exists>evs st. stage_script cancel t tot i ss = evs @ [status_event t st] \<and>
     list_all (\<lambda>ev. \<not> is_terminal ev) evs \<and> terminal_status st \<and>
     (st = TaskFailed \<longleftrightarrow> (\<exists>j. i \<le> j \<and> j < i + length ss \<and> cancel j))"
proof (induction ss arbitrary: i)
  case Nil
  then show ?case
    by (intro exI [of _ "[]"] exI [of _ TaskCompleted]) simp
next
  case (Cons s ss)
  show ?case
  proof (cases "cancel i")
    case True
    then show ?thesis
      by (intro exI [of _ "[progress_event t s (int i * 100 div tot)]"] exI [of _ TaskFailed]) auto
  next
    case False
    from Cons.IH [of "Suc i"] obtain evs st where
      IH: "stage_script cancel t tot (Suc i) ss = evs @ [status_event t st]"
        "list_all (\<lambda>ev. \<not> is_terminal ev) evs" "terminal_status st"
        "st = TaskFailed \<longleftrightarrow> (\<exists>j. Suc i \<le> j \<and> j < Suc i + length ss \<and> cancel j)"
      by blast
    have "(\<exists>j. Suc i \<le> j \<and> j < Suc i + length ss \<and> cancel j) \<longleftrightarrow>
        (\<exists>j. i \<le> j \<and> j < i + length (s # ss) \<and> cancel j)"
      using False by (metis Suc_leD Suc_leI add_Suc add_Suc_right le_neq_implies_less length_Cons)
    with IH False show ?thesis
      by (intro exI [of _ "progress_event t s (int i * 100 div tot) #
          progress_event t s ((int i + 1) * 100 div tot) # evs"] exI [of _ st]) simp
  qed
qed

lemma run_script_terminal:
  "\<exists>evs st. run_script cancel t = evs @ [status_event t st] \<and>
     list_all (\<lambda>ev. \<not> is_terminal ev) evs \<and> terminal_status st \<and>
     (st = TaskFailed \<longleftrightarrow> (\<exists>j < length (task_Stages t). cancel j))"
proof -
  from stage_script_terminal [of cancel t "int (length (task_Stages t))" 0 "task_Stages t"]
  obtain evs st where "stage_script cancel t (int (length (task_Stages t))) 0 (task_Stages t) =
      evs @ [status_event t st]" "list_all (\<lambda>ev. \<not> is_terminal ev) evs" "terminal_status st"
    "st = TaskFailed \<longleftrightarrow> (\<exists>j < length (task_Stages t). cancel j)"
    by auto
  then show ?thesis
    by (intro exI [of _ "status_event t TaskRunning # evs"] exI [of _ st]) (simp add: run_script_def)
qed

text \<open>An uncancelled run in closed form: running, two reports per stage, completed.\<close>

lemma stage_script_live:
  assumes "\<forall>j. i \<le> j \<and> j < i + length ss \<longrightarrow> \<not> cancel j"
  shows "stage_script cancel t tot i ss =
    concat (map (\<lambda>(j, s). [progress_event t s (int j * 100 div tot),
       progress_event t s ((int j + 1) * 100 div tot)]) (enumerate i ss)) @
    [status_event t TaskCompleted]"
  using assms by (induction ss arbitrary: i) auto

lemma run_script_live:
  assumes "\<forall>j < length (task_Stages t). \<not> cancel j"
  shows "run_script cancel t = status_event t TaskRunning #
    concat (map (\<lambda>(j, s). [progress_event t s (int j * 100 div int (length (task_Stages t))),
       progress_event t s ((int j + 1) * 100 div int (length (task_Stages t)))])
       (enumerate 0 (task_Stages t))) @ [status_event t TaskCompleted]"
  using assms by (simp add: run_script_def stage_script_live)

lemma length_run_script_live:
  assumes "\<forall>j < length (task_Stages t). \<not> cancel j"
  shows "length (run_script cancel t) = 2 * length (task_Stages t) + 2"
proof -
  have "length (stage_script cancel t tot i ss) = 2 * length ss + 1"
    if "\<forall>j. i \<le> j \<and> j < i + length ss \<longrightarrow> \<not> cancel j" for i ss and tot
    using that by (induction ss arbitrary: i) auto
  with assms show ?thesis by (simp add: run_script_def)
qed

text \<open>Reported percentages: bounded by 0 and 100 and never going down.\<close>

definition percentages :: "task_event list \<Rightarrow> int list" where
  "percentages evs = map ev_Progress (filter (\<lambda>ev. ev_Type ev = EventProgress) evs)"

lemma percentages_simps [simp]:
  "percentages [] = []"
  "percentages (status_event t st # evs) = percentages evs"
  "percentages (progress_event t s p # evs) = p # percentages evs"
  by (simp_all add: percentages_def)

lemma stage_script_percentages:
  assumes "tot = int (i + length ss)"
  shows "sorted (percentages (stage_script cancel t tot i ss)) \<and>
    (\<forall>p \<in> set (percentages (stage_script cancel t tot i ss)). int i * 100 div tot \<le> p \<and> p \<le> 100)"
  using assms
proof (induction ss arbitrary: i)
  case Nil
  then show ?case by simp
next
  case (Cons s ss)
  have pos: "0 < tot" using Cons.prems by simp
  have step: "int i * 100 div tot \<le> (int i + 1) * 100 div tot"
    by (rule zdiv_mono1) (use pos in auto)
  have top: "(int i + 1) * 100 div tot \<le> 100"
  proof -
    have "(int i + 1) * 100 div tot \<le> tot * 100 div tot"
      by (rule zdiv_mono1) (use pos Cons.prems in auto)
    with pos show ?thesis by simp
  qed
  have nxt: "int (Suc i) * 100 div tot = (int i + 1) * 100 div tot" by (simp add: add.commute)
  from Cons.IH [of "Suc i"] Cons.prems step top show ?case
    unfolding nxt by (auto simp: nxt)
qed

lemma run_script_percentages:
  "sorted (percentages (run_script cancel t)) \<and>
     (\<forall>p \<in> set (percentages (run_script cancel t)). 0 \<le> p \<and> p \<le> 100)"
  using stage_script_percentages [of "int (length (task_Stages t))" 0 "task_Stages t" cancel t]
  by (simp add: run_script_def)

lemma run_script_ids: "ev \<in> set (run_script cancel t) \<Longrightarrow> ev_TaskID ev = task_ID t"
proof -
  have "ev_TaskID ev = task_ID t" if "ev \<in> set (stage_script cancel t tot i ss)" for i ss and tot
    using that by (induction ss arbitrary: i) (auto split: if_splits)
  then show "ev \<in> set (run_script cancel t) \<Longrightarrow> ev_TaskID ev = task_ID t"
    by (auto simp: run_script_def)
qed

lemma subseq_in_set: "subseq xs ys \<Longrightarrow> x \<in> set xs \<Longrightarrow> x \<in> set ys"
  by (auto dest: list_emb_set)

text \<open>What keeps the order of a run and all its final events ends with its only final event.\<close>

lemma run_script_kept:
  assumes "subseq zs (run_script cancel t)" and "filter is_terminal zs = filter is_terminal (run_script cancel t)"
  shows "\<exists>ys st. zs = ys @ [status_event t st] \<and> terminal_status st \<and> list_all (\<lambda>ev. \<not> is_terminal ev) ys"
proof -
  from run_script_terminal obtain evs st where script: "run_script cancel t = evs @ [status_event t st]"
    and evs: "list_all (\<lambda>ev. \<not> is_terminal ev) evs" and st: "terminal_status st"
    by blast
  have "filter is_terminal evs = []" using evs by (simp add: filter_empty_conv list_all_iff)
  with assms(2) script st have one: "filter is_terminal zs = [status_event t st]" by simp
  from assms(1) script obtain us vs where zs: "zs = us @ vs" "subseq us evs" "subseq vs [status_event t st]"
    by (auto simp: subseq_append_iff)
  have us: "list_all (\<lambda>ev. \<not> is_terminal ev) us"
    using evs zs(2) by (auto simp: list_all_iff dest: list_emb_set)
  then have "filter is_terminal us = []" by (simp add: filter_empty_conv list_all_iff)
  with one zs have "vs = [status_event t st]" by (cases vs) (auto split: if_splits)
  with zs us st show ?thesis by blast
qed

section \<open>Contract of a reliable emitter\<close>

text \<open>
  \<open>outbox\<close> is what the consumer has accepted and the manager side has not taken yet, in
  the transport's own message type; \<open>enc\<close> is how an event travels; \<open>live\<close> are the contexts
  under which the consumer promises anything (some transports need an uncancelled one) and
  \<open>good\<close> the events it promises it for (those its encoding is faithful on).
\<close>

locale reliable_emitter =
  fixes TC :: "'c task_consumer"
    and cinv :: "'c \<Rightarrow> bool"
    and outbox :: "'c \<Rightarrow> 'm list"
    and enc :: "task_event \<Rightarrow> 'm"
    and live :: "ctx \<Rightarrow> bool"
    and good :: "task_event \<Rightarrow> bool"
  assumes emit_inv: "cinv c \<Longrightarrow> tc_emit TC x ev c = Ret (e, c') \<Longrightarrow> cinv c'"
    and emit_no_panic: "cinv c \<Longrightarrow> tc_emit TC x ev c \<noteq> Panic"
    and emit_terminal: "cinv c \<Longrightarrow> live x \<Longrightarrow> good ev \<Longrightarrow> is_terminal ev \<Longrightarrow> tc_emit TC x ev c = Ret (e, c') \<Longrightarrow>
      outbox c' = outbox c @ [enc ev]"
    and emit_other: "cinv c \<Longrightarrow> live x \<Longrightarrow> good ev \<Longrightarrow> \<not> is_terminal ev \<Longrightarrow>
      \<exists>e c'. tc_emit TC x ev c = Ret (e, c') \<and> (outbox c' = outbox c \<or> outbox c' = outbox c @ [enc ev])"
begin

lemma emit_all_delivers:
  "cinv c \<Longrightarrow> (\<forall>k. live (cx k)) \<Longrightarrow> list_all good evs \<Longrightarrow> emit_all TC cx k evs c = Ret c' \<Longrightarrow>
     cinv c' \<and> (\<exists>ys. subseq ys evs \<and> filter is_terminal ys = filter is_terminal evs \<and>
       outbox c' = outbox c @ map enc ys)"
proof (induction evs arbitrary: c k)
  case Nil
  then show ?case by simp
next
  case (Cons ev evs)
  from Cons.prems(4) obtain e c1 where c1: "tc_emit TC (cx k) ev c = Ret (e, c1)"
    and rest: "emit_all TC cx (Suc k) evs c1 = Ret c'"
    by (auto simp: emit_ignored_def)
  have inv1: "cinv c1" using Cons.prems(1) c1 by (rule emit_inv)
  from Cons.IH [OF inv1 Cons.prems(2) _ rest] Cons.prems(3) obtain ys where ys: "cinv c'" "subseq ys evs"
    "filter is_terminal ys = filter is_terminal evs" "outbox c' = outbox c1 @ map enc ys"
    by auto
  have "outbox c1 = outbox c @ [enc ev] \<or> (\<not> is_terminal ev \<and> outbox c1 = outbox c)"
  proof (cases "is_terminal ev")
    case True
    with emit_terminal [OF Cons.prems(1) _ _ True c1] Cons.prems(2,3) show ?thesis by simp
  next
    case False
    with emit_other [OF Cons.prems(1) _ _ False, of "cx k"] Cons.prems(2,3) c1 show ?thesis by auto
  qed
  then show ?case
  proof
    assume "outbox c1 = outbox c @ [enc ev]"
    with ys show ?thesis by (intro conjI exI [of _ "ev # ys"]) auto
  next
    assume "\<not> is_terminal ev \<and> outbox c1 = outbox c"
    with ys show ?thesis by (intro conjI exI [of _ ys]) auto
  qed
qed

text \<open>
  Whatever progress a full buffer costs, a run that returns has handed over its terminal
  status, after everything else it handed over.
\<close>

lemma exec_run_delivers:
  assumes "cinv c" and "\<forall>k. live (re_ctx w k)"
    and "list_all good (run_script (re_cancel w) t)" and "valid_executor e" and "exec_run TC e w t c = Ret c'"
  shows "\<exists>ys st. outbox c' = outbox c @ map enc (ys @ [status_event t st]) \<and> terminal_status st \<and>
    subseq (ys @ [status_event t st]) (run_script (re_cancel w) t) \<and>
    list_all (\<lambda>ev. \<not> is_terminal ev) ys"
proof -
  from assms have "emit_all TC (re_ctx w) 0 (run_script (re_cancel w) t) c = Ret c'"
    by (simp add: exec_run_script)
  from emit_all_delivers [OF assms(1-3) this] obtain zs where zs: "subseq zs (run_script (re_cancel w) t)"
    "filter is_terminal zs = filter is_terminal (run_script (re_cancel w) t)" "outbox c' = outbox c @ map enc zs"
    by blast
  from run_script_kept [OF zs(1,2)] obtain ys st where "zs = ys @ [status_event t st]" "terminal_status st"
    "list_all (\<lambda>ev. \<not> is_terminal ev) ys" by blast
  with zs(1,3) show ?thesis by blast
qed

end

end
