(* ===== verification/Http.thy ===== *)
theory Http
  imports TaskJson Executor
begin

text \<open>
  The vocabulary of the HTTP layer: requests, responses, and what the handlers use of the
  web framework.

  The framework (\<^verbatim>\<open>github.com/labstack/echo/v4\<close>) and \<^verbatim>\<open>html/template\<close> rendering of the asset
  files are not part of the repository; they are the record \<open>echo\<close>, an argument of every
  handler. \<open>echo_ok\<close> states the documented behaviour the theorems rely on: \<^verbatim>\<open>c.JSON\<close>
  writes the status and the JSON text followed by a newline, the error handler answers an
  \<^verbatim>\<open>HTTPError\<close> with its own status and any other error with 500, \<^verbatim>\<open>c.Bind\<close> decodes a JSON
  body. A route is named by a constructor of \<open>route\<close>: matching paths is the framework's.
\<close>

section \<open>Requests and responses\<close>

record http_response =
  rs_Status :: int
  rs_Body :: string
  rs_Cookie :: "string option"

text \<open>What a handler reads of a request: the three headers, the cookie and the body.\<close>

record http_request =
  rq_XUserID :: string
  rq_Cookie :: "string option"
  rq_HXRequest :: string
  rq_Body :: string

definition plain_request :: "string \<Rightarrow> http_request" where
  "plain_request body = \<lparr>rq_XUserID = [], rq_Cookie = None, rq_HXRequest = [], rq_Body = body\<rparr>"

datatype route =
    GetHealth
  | PostTasks
  | ListTasksRoute
  | GetTaskRoute string
  | IndexRoute
  | WorkNext
  | WorkEvents

text \<open>The body of a submission, and its JSON form.\<close>

record submit_request =
  sr_Name :: string
  sr_StageCount :: int

definition submit_fields :: "string list" where
  "submit_fields = [''name'', ''stage_count'']"

definition submit_member :: "string \<Rightarrow> json \<Rightarrow> submit_request \<Rightarrow> submit_request option" where
  "submit_member k v r =
     (case field_index submit_fields k of
        None \<Rightarrow> Some r
      | Some i \<Rightarrow>
          if i = 0 then set_string (\<lambda>s r. r\<lparr>sr_Name := s\<rparr>) v r
          else set_int (\<lambda>n r. r\<lparr>sr_StageCount := n\<rparr>) v r)"

definition unmarshal_submit :: "string \<Rightarrow> submit_request option" where
  "unmarshal_submit s =
     Option.bind (parse_json s) (\<lambda>v. case v of
         JNull \<Rightarrow> Some \<lparr>sr_Name = [], sr_StageCount = 0\<rparr>
       | JObj kvs \<Rightarrow> members submit_member kvs \<lparr>sr_Name = [], sr_StageCount = 0\<rparr>
       | _ \<Rightarrow> None)"

section \<open>The framework\<close>

record echo =
  eo_json :: "int \<Rightarrow> string option \<Rightarrow> api_error + http_response"
  eo_no_content :: "int \<Rightarrow> http_response"
  eo_string :: "int \<Rightarrow> string \<Rightarrow> http_response"
  eo_error :: "api_error \<Rightarrow> http_response"
  eo_bind_task :: "string \<Rightarrow> task option"
  eo_bind_event :: "string \<Rightarrow> task_event option"
  eo_bind_submit :: "string \<Rightarrow> submit_request option"
  eo_template :: "string \<Rightarrow> task list \<Rightarrow> go_error + string"

definition response :: "int \<Rightarrow> string \<Rightarrow> http_response" where
  "response code body = \<lparr>rs_Status = code, rs_Body = body, rs_Cookie = None\<rparr>"

definition echo_ok :: "echo \<Rightarrow> bool" where
  "echo_ok E \<longleftrightarrow>
     (\<forall>code s. eo_json E code (Some s) = Inr (response code (s @ [newline]))) \<and>
     (\<forall>code. rs_Status (eo_no_content E code) = code) \<and>
     (\<forall>code msg i. rs_Status (eo_error E (HTTPError code msg i)) = code) \<and>
     (\<forall>e. rs_Status (eo_error E (OtherError e)) = 500) \<and>
     (\<forall>s t. unmarshal_task s = Some t \<longrightarrow> eo_bind_task E s = Some t) \<and>
     (\<forall>s ev. unmarshal_event s = Some ev \<longrightarrow> eo_bind_event E s = Some ev) \<and>
     (\<forall>s r. unmarshal_submit s = Some r \<longrightarrow> eo_bind_submit E s = Some r)"

text \<open>A framework that behaves this way; it serves the examples.\<close>

definition error_body :: "string \<Rightarrow> string" where
  "error_body msg = jtext (JObj [(''message'', JStr msg)]) @ [newline]"

definition plain_echo :: echo where
  "plain_echo = \<lparr>eo_json = (\<lambda>code txt. case txt of
       Some s \<Rightarrow> Inr (response code (s @ [newline]))
     | None \<Rightarrow> Inl (OtherError (Errorf ''json: error calling MarshalJSON''))),
     eo_no_content = (\<lambda>code. response code []),
     eo_string = response,
     eo_error = (\<lambda>e. case e of
       HTTPError code msg _ \<Rightarrow> response code (error_body msg)
     | OtherError _ \<Rightarrow> response 500 (error_body ''Internal Server Error'')),
     eo_bind_task = unmarshal_task, eo_bind_event = unmarshal_event,
     eo_bind_submit = unmarshal_submit,
     eo_template = (\<lambda>name ts. Inr (name @ concat (map task_ID ts)))\<rparr>"

lemma response_simps [simp]:
  "rs_Status (response code body) = code" "rs_Body (response code body) = body"
  "rs_Cookie (response code body) = None"
  by (simp_all add: response_def)

lemma plain_echo_ok: "echo_ok plain_echo"
  by (simp add: echo_ok_def plain_echo_def)

lemma echo_laws:
  assumes "echo_ok E"
  shows "eo_json E code (Some s) = Inr (response code (s @ [newline]))"
    "rs_Status (eo_no_content E code) = code"
    "rs_Status (eo_error E (HTTPError code msg i)) = code"
    "rs_Status (eo_error E (OtherError e)) = 500"
    "unmarshal_task s = Some t \<Longrightarrow> eo_bind_task E s = Some t"
    "unmarshal_event s = Some ev \<Longrightarrow> eo_bind_event E s = Some ev"
    "unmarshal_submit s = Some r \<Longrightarrow> eo_bind_submit E s = Some r"
  using assms by (simp_all add: echo_ok_def)

text \<open>What leaves the server: a handler's response, or its error through the error handler.\<close>

definition serve :: "echo \<Rightarrow> api_error + http_response \<Rightarrow> http_response" where
  "serve E r = (case r of Inl e \<Rightarrow> eo_error E e | Inr x \<Rightarrow> x)"

lemma serve_simps [simp]: "serve E (Inl e) = eo_error E e" "serve E (Inr x) = x"
  by (simp_all add: serve_def)

section \<open>The executor's events on a wire\<close>

text \<open>Everything a run reports about an encodable task is encodable.\<close>

lemma status_event_encodable:
  "valid_utf8 (task_ID t) \<Longrightarrow> valid_utf8 st \<Longrightarrow> event_encodable (status_event t st)"
  by (simp add: event_encodable_def status_event_def zero_event_def in_int64_def)

lemma progress_event_encodable:
  "valid_utf8 (task_ID t) \<Longrightarrow> valid_utf8 (stage_Name s) \<Longrightarrow> in_int64 p \<Longrightarrow>
     event_encodable (progress_event t s p)"
  by (simp add: event_encodable_def progress_event_def zero_event_def)

lemma stage_script_encodable:
  assumes "valid_utf8 (task_ID t)" and "\<forall>s \<in> set ss. valid_utf8 (stage_Name s)"
    and "list_all in_int64 (percentages (stage_script cancel t tot i ss))"
  shows "list_all event_encodable (stage_script cancel t tot i ss)"
  using assms(2,3)
proof (induction ss arbitrary: i)
  case Nil
  with assms(1) show ?case by (simp add: status_event_encodable)
next
  case (Cons s ss)
  then show ?case
    using assms(1) Cons.IH [of "Suc i"]
    by (cases "cancel i") (simp_all add: status_event_encodable progress_event_encodable)
qed

lemma run_script_encodable:
  assumes "task_encodable t"
  shows "list_all event_encodable (run_script cancel t)"
proof -
  have "valid_utf8 (task_ID t)" "\<forall>s \<in> set (task_Stages t). valid_utf8 (stage_Name s)"
    using assms by (auto simp: task_encodable_def list_all_iff stage_encodable_def)
  moreover have "list_all in_int64 (percentages (run_script cancel t))"
    using run_script_percentages [of cancel t] by (auto simp: list_all_iff in_int64_def)
  ultimately show ?thesis
    by (simp add: run_script_def stage_script_encodable status_event_encodable)
qed

end
