(* ===== verification/Manager.thy ===== *)
theory Manager
  imports Contracts
begin

text \<open>
  \<^verbatim>\<open>shared/manager/manager.go\<close>: the owner of the task lifecycle. The manager holds a store,
  a dispatcher and an event publisher; its definitions take their method tables \<open>TS\<close>,
  \<open>TD\<close> and \<open>EP\<close> as arguments.

  \<^item> \<open>submit\<close>, \<open>manager_get\<close>, \<open>manager_list\<close> are the \<^verbatim>\<open>TaskManager\<close> methods,
    \<open>event_loop\<close> and \<open>deadline_loop\<close> the two background goroutines.
  \<^item> \<open>mgr_step\<close> is the concurrent manager: any number of \<^verbatim>\<open>Submit\<close> calls in flight, the
    event loop and the deadline loop, interleaved between their store and dispatcher
    calls, with an environment (workers and transport) that changes the dispatcher.
  \<^item> The locale \<open>supervised\<close> asks of a store only that its operations are steps of the task life
    cycle (\<open>lifecycle_store\<close>) and of a dispatcher its contract; in it every interleaving of
    \<open>mgr_step\<close> refines the life cycle. Any store with the map contract is a \<open>lifecycle_store\<close>,
    and so is a SQL table.
  \<^item> The locale \<open>managed\<close> (a store and a dispatcher that keep their contracts) carries
    the other lemmas; the patterns interpret it.
\<close>

section \<open>State\<close>

record ('s, 'd, 'e) manager =
  mg_store :: 's
  mg_dispatcher :: 'd
  mg_events :: 'e
  mg_deadline :: duration

definition NewManager :: "'s \<Rightarrow> 'd \<Rightarrow> 'e \<Rightarrow> duration \<Rightarrow> ('s, 'd, 'e) manager" where
  "NewManager s d e dl = \<lparr>mg_store = s, mg_dispatcher = d, mg_events = e, mg_deadline = dl\<rparr>"

section \<open>Submit, Get, List\<close>

text \<open>The dash of the two messages is the UTF-8 encoding of U+2014.\<close>

definition em_dash :: string where
  "em_dash = [CHR 0xE2, CHR 0x80, CHR 0x94]"

definition queue_full_message :: string where
  "queue_full_message = ''task queue is full '' @ em_dash @ '' retry later''"

definition no_workers_message :: string where
  "no_workers_message = ''no workers available '' @ em_dash @ '' retry later''"

text \<open>The switch of \<^verbatim>\<open>Submit\<close> on the dispatcher's error.\<close>

definition dispatch_http_error :: "go_error \<Rightarrow> api_error" where
  "dispatch_http_error err =
     (if err = ErrDispatchFull then HTTPError 429 queue_full_message (Some err)
      else if err = ErrNoWorkers then HTTPError 503 no_workers_message (Some err)
      else HTTPError 500 (error_text err) None)"

definition submit :: "'s task_store \<Rightarrow> 'd task_dispatcher \<Rightarrow> ctx \<Rightarrow> instant \<Rightarrow> task \<Rightarrow>
    ('s, 'd, 'e) manager \<Rightarrow> (api_error option \<times> ('s, 'd, 'e) manager) outcome" where
  "submit TS TD c now t m =
     (let (cerr, s1) = ts_create TS t (mg_store m)
      in case cerr of
           Some err \<Rightarrow> Ret (Some (HTTPError 500 (error_text err) None), m\<lparr>mg_store := s1\<rparr>)
         | None \<Rightarrow>
             obind (td_dispatch TD c t (mg_dispatcher m)) (\<lambda>(derr, d1).
               case derr of
                 Some err \<Rightarrow>
                   let s2 = snd (ts_set_status TS now (task_ID t) TaskFailed s1)
                   in Ret (Some (dispatch_http_error err), m\<lparr>mg_store := s2, mg_dispatcher := d1\<rparr>)
               | None \<Rightarrow>
                   let s2 = snd (ts_set_dispatched_at TS (task_ID t) now s1)
                   in Ret (None, m\<lparr>mg_store := s2, mg_dispatcher := d1\<rparr>)))"

definition manager_get :: "'s task_store \<Rightarrow> string \<Rightarrow> ('s, 'd, 'e) manager \<Rightarrow> task option" where
  "manager_get TS i m = ts_get TS i (mg_store m)"

text \<open>A nil slice and an empty one are the same list, so the nil check is the identity.\<close>

definition manager_list :: "'s task_store \<Rightarrow> nat \<Rightarrow> ('s, 'd, 'e) manager \<Rightarrow> task list" where
  "manager_list TS p m = (let ts = ts_list TS p (mg_store m) in if ts = [] then [] else ts)"

text \<open>The manager as a \<^verbatim>\<open>contracts.TaskManager\<close>.\<close>

definition manager_ops :: "'s task_store \<Rightarrow> 'd task_dispatcher \<Rightarrow> ('s, 'd, 'e) manager task_manager" where
  "manager_ops TS TD = \<lparr>tm_submit = submit TS TD, tm_get = (\<lambda>_ i m. Ret (manager_get TS i m, m)),
     tm_list = (\<lambda>_ p m. Ret (manager_list TS p m, m))\<rparr>"

text \<open>\<^verbatim>\<open>Start\<close>: the flag says whether the two loops were launched.\<close>

definition manager_start ::
    "'d task_dispatcher \<Rightarrow> ctx \<Rightarrow> ('s, 'd, 'e) manager \<Rightarrow> bool \<times> ('s, 'd, 'e) manager" where
  "manager_start TD c m =
     (let (err, d1) = td_start TD c (mg_dispatcher m)
      in (err = None, m\<lparr>mg_dispatcher := d1\<rparr>))"

section \<open>The event loop\<close>

definition enrich :: "'s task_store \<Rightarrow> 's \<Rightarrow> task_event \<Rightarrow> task_event" where
  "enrich TS s ev =
     (case ts_get TS (ev_TaskID ev) s of
        Some t \<Rightarrow> ev\<lparr>ev_UserID := task_UserID t\<rparr> | None \<Rightarrow> ev)"

definition persist :: "'s task_store \<Rightarrow> instant \<Rightarrow> task_event \<Rightarrow> 's \<Rightarrow> 's" where
  "persist TS now ev s =
     (if ev_Type ev = EventTaskStatus
      then (let status = ev_Status ev
            in if status = TaskCompleted \<or> status = TaskFailed
               then snd (ts_set_status TS now (ev_TaskID ev) status s) else s)
      else s)"

text \<open>The body of the loop after \<^verbatim>\<open>ReceiveEvent\<close> returned an event.\<close>

definition handle_event :: "'s task_store \<Rightarrow> 'e event_publisher \<Rightarrow> instant \<Rightarrow> nat \<Rightarrow> task_event \<Rightarrow>
    ('s, 'd, 'e) manager \<Rightarrow> ('s, 'd, 'e) manager outcome" where
  "handle_event TS EP now p ev m =
     (let ev1 = enrich TS (mg_store m) ev;
          s1 = persist TS now ev1 (mg_store m)
      in omap (\<lambda>b. m\<lparr>mg_store := s1, mg_events := b\<rparr>) (ep_publish EP p ev1 (mg_events m)))"

definition event_loop_turn :: "'s task_store \<Rightarrow> 'd task_dispatcher \<Rightarrow> 'e event_publisher \<Rightarrow> ctx \<Rightarrow> instant \<Rightarrow>
    nat \<Rightarrow> ('s, 'd, 'e) manager \<Rightarrow> (bool \<times> ('s, 'd, 'e) manager) outcome" where
  "event_loop_turn TS TD EP c now p m =
     obind (td_receive_event TD c (mg_dispatcher m)) (\<lambda>(r, d1).
       case r of
         Inl _ \<Rightarrow> Ret (False, m\<lparr>mg_dispatcher := d1\<rparr>)
       | Inr ev \<Rightarrow> omap (\<lambda>m1. (True, m1)) (handle_event TS EP now p ev (m\<lparr>mg_dispatcher := d1\<rparr>)))"

text \<open>The loop for as many turns as environments (context, clock, map order) are given.\<close>

fun event_loop :: "'s task_store \<Rightarrow> 'd task_dispatcher \<Rightarrow> 'e event_publisher \<Rightarrow>
    (ctx \<times> instant \<times> nat) list \<Rightarrow> ('s, 'd, 'e) manager \<Rightarrow> ('s, 'd, 'e) manager outcome" where
  "event_loop TS TD EP [] m = Ret m"
| "event_loop TS TD EP ((c, now, p) # xs) m =
     obind (event_loop_turn TS TD EP c now p m) (\<lambda>(more, m1).
       if more then event_loop TS TD EP xs m1 else Ret m1)"

section \<open>The deadline loop\<close>

definition overdue :: "instant \<Rightarrow> duration \<Rightarrow> task \<Rightarrow> bool" where
  "overdue now dl t \<longleftrightarrow>
     \<not> (task_Status t = TaskCompleted \<or> task_Status t = TaskFailed) \<and>
     (case task_DispatchedAt t of None \<Rightarrow> False | Some at \<Rightarrow> now - at > dl)"

text \<open>The body of the loop over the listed tasks; errors of both calls are discarded.\<close>

fun deadline_scan :: "'s task_store \<Rightarrow> 'd task_dispatcher \<Rightarrow> ctx \<Rightarrow> instant \<Rightarrow> task list \<Rightarrow>
    ('s, 'd, 'e) manager \<Rightarrow> ('s, 'd, 'e) manager outcome" where
  "deadline_scan TS TD c now [] m = Ret m"
| "deadline_scan TS TD c now (t # ts) m =
     (if overdue now (mg_deadline m) t
      then obind (td_dispatch TD c t (mg_dispatcher m)) (\<lambda>(_, d1).
             let s1 = snd (ts_set_dispatched_at TS (task_ID t) now (mg_store m))
             in deadline_scan TS TD c now ts (m\<lparr>mg_store := s1, mg_dispatcher := d1\<rparr>))
      else deadline_scan TS TD c now ts m)"

definition deadline_tick :: "'s task_store \<Rightarrow> 'd task_dispatcher \<Rightarrow> ctx \<Rightarrow> instant \<Rightarrow> nat \<Rightarrow>
    ('s, 'd, 'e) manager \<Rightarrow> ('s, 'd, 'e) manager outcome" where
  "deadline_tick TS TD c now p m = deadline_scan TS TD c now (ts_list TS p (mg_store m)) m"

text \<open>
  The loop for the ticks given (context, clock, map order); a tick whose \<^verbatim>\<open>select\<close> takes
  \<^verbatim>\<open>ctx.Done()\<close> ends it. \<^verbatim>\<open>time.NewTicker\<close> panics for a period that is not positive.
\<close>

fun deadline_ticks :: "'s task_store \<Rightarrow> 'd task_dispatcher \<Rightarrow> (ctx \<times> instant \<times> nat) list \<Rightarrow>
    ('s, 'd, 'e) manager \<Rightarrow> ('s, 'd, 'e) manager outcome" where
  "deadline_ticks TS TD [] m = Ret m"
| "deadline_ticks TS TD ((c, now, p) # xs) m =
     obind (select (ctx_pick c) (on_done c True @ [False])) (\<lambda>stop.
       if stop then Ret m
       else obind (deadline_tick TS TD c now p m) (deadline_ticks TS TD xs))"

definition deadline_loop :: "'s task_store \<Rightarrow> 'd task_dispatcher \<Rightarrow> (ctx \<times> instant \<times> nat) list \<Rightarrow>
    ('s, 'd, 'e) manager \<Rightarrow> ('s, 'd, 'e) manager outcome" where
  "deadline_loop TS TD xs m =
     (if mg_deadline m = 0 then Ret m
      else if mg_deadline m div 2 \<le> 0 then Panic
      else deadline_ticks TS TD xs m)"

section \<open>The concurrent manager\<close>

text \<open>
  A \<^verbatim>\<open>Submit\<close> call between its store and dispatcher calls: the task was created and not yet
  dispatched, or dispatched with the given result and not yet recorded.
\<close>

datatype submit_pc = Created task | Dispatched task "go_error option"

text \<open>
  \<open>mw_scan\<close> is what is left of the deadline loop's current pass over its snapshot, with
  the instant the pass started.
\<close>

record ('s, 'd, 'e) mgr_world =
  mw_mgr :: "('s, 'd, 'e) manager"
  mw_submits :: "submit_pc list"
  mw_scan :: "instant \<times> task list"

text \<open>The tasks the API submits: made by \<^verbatim>\<open>NewTask\<close>, with the caller's user ID filled in.\<close>

definition submitted_task :: "task \<Rightarrow> bool" where
  "submitted_task t \<longleftrightarrow> (\<exists>u now nm n uid. t = (new_task u now nm n)\<lparr>task_UserID := uid\<rparr>)"

inductive mgr_step :: "'s task_store \<Rightarrow> 'd task_dispatcher \<Rightarrow> 'e event_publisher \<Rightarrow> ('d \<Rightarrow> 'd \<Rightarrow> bool) \<Rightarrow>
    ('s, 'd, 'e) mgr_world \<Rightarrow> ('s, 'd, 'e) mgr_world \<Rightarrow> bool"
  for TS :: "'s task_store" and TD :: "'d task_dispatcher" and EP :: "'e event_publisher"
    and env :: "'d \<Rightarrow> 'd \<Rightarrow> bool" where
  step_create:
    "submitted_task t \<Longrightarrow> ts_create TS t (mg_store (mw_mgr w)) = (None, s1) \<Longrightarrow>
     mgr_step TS TD EP env w
       (w\<lparr>mw_mgr := (mw_mgr w)\<lparr>mg_store := s1\<rparr>, mw_submits := Created t # mw_submits w\<rparr>)"
| step_create_error:
    "submitted_task t \<Longrightarrow> ts_create TS t (mg_store (mw_mgr w)) = (Some e, s1) \<Longrightarrow>
     mgr_step TS TD EP env w (w\<lparr>mw_mgr := (mw_mgr w)\<lparr>mg_store := s1\<rparr>\<rparr>)"
| step_dispatch:
    "mw_submits w = us @ Created t # vs \<Longrightarrow>
     td_dispatch TD c t (mg_dispatcher (mw_mgr w)) = Ret (e, d1) \<Longrightarrow>
     mgr_step TS TD EP env w
       (w\<lparr>mw_mgr := (mw_mgr w)\<lparr>mg_dispatcher := d1\<rparr>, mw_submits := us @ Dispatched t e # vs\<rparr>)"
| step_record_failed:
    "mw_submits w = us @ Dispatched t (Some e) # vs \<Longrightarrow>
     ts_set_status TS now (task_ID t) TaskFailed (mg_store (mw_mgr w)) = (x, s1) \<Longrightarrow>
     mgr_step TS TD EP env w
       (w\<lparr>mw_mgr := (mw_mgr w)\<lparr>mg_store := s1\<rparr>, mw_submits := us @ vs\<rparr>)"
| step_record_dispatched:
    "mw_submits w = us @ Dispatched t None # vs \<Longrightarrow>
     ts_set_dispatched_at TS (task_ID t) now (mg_store (mw_mgr w)) = (x, s1) \<Longrightarrow>
     mgr_step TS TD EP env w
       (w\<lparr>mw_mgr := (mw_mgr w)\<lparr>mg_store := s1\<rparr>, mw_submits := us @ vs\<rparr>)"
| step_event:
    "event_loop_turn TS TD EP c now p (mw_mgr w) = Ret (cont, m1) \<Longrightarrow>
     mgr_step TS TD EP env w (w\<lparr>mw_mgr := m1\<rparr>)"
| step_snapshot:
    "mg_deadline (mw_mgr w) \<noteq> 0 \<Longrightarrow> snd (mw_scan w) = [] \<Longrightarrow>
     mgr_step TS TD EP env w (w\<lparr>mw_scan := (now, ts_list TS p (mg_store (mw_mgr w)))\<rparr>)"
| step_scan:
    "mw_scan w = (now, t # ts) \<Longrightarrow> deadline_scan TS TD c now [t] (mw_mgr w) = Ret m1 \<Longrightarrow>
     mgr_step TS TD EP env w (w\<lparr>mw_mgr := m1, mw_scan := (now, ts)\<rparr>)"
| step_env:
    "env (mg_dispatcher (mw_mgr w)) d1 \<Longrightarrow>
     mgr_step TS TD EP env w (w\<lparr>mw_mgr := (mw_mgr w)\<lparr>mg_dispatcher := d1\<rparr>\<rparr>)"

section \<open>Lemmas\<close>

lemma NewManager_simps [simp]:
  "mg_store (NewManager s d e dl) = s" "mg_dispatcher (NewManager s d e dl) = d"
  "mg_events (NewManager s d e dl) = e" "mg_deadline (NewManager s d e dl) = dl"
  by (simp_all add: NewManager_def)

lemma manager_list_eq: "manager_list TS p m = ts_list TS p (mg_store m)"
  by (simp add: manager_list_def Let_def)

lemma overdue_iff:
  "overdue now dl t \<longleftrightarrow> \<not> terminal_status (task_Status t) \<and>
     (\<exists>at. task_DispatchedAt t = Some at \<and> now - at > dl)"
  by (auto simp: overdue_def terminal_status_def split: option.split)

lemma enrich_simps [simp]:
  "ev_Type (enrich TS s ev) = ev_Type ev"
  "ev_TaskID (enrich TS s ev) = ev_TaskID ev"
  "ev_Status (enrich TS s ev) = ev_Status ev"
  "is_terminal (enrich TS s ev) = is_terminal ev"
  by (simp_all add: enrich_def split: option.split)

lemma persist_terminal:
  "persist TS now ev s =
     (if is_terminal ev then snd (ts_set_status TS now (ev_TaskID ev) (ev_Status ev) s) else s)"
  by (simp add: persist_def is_terminal_def Let_def)

lemma submitted_task_status: "submitted_task t \<Longrightarrow> task_Status t = TaskPending"
  "submitted_task t \<Longrightarrow> task_CompletedAt t = None"
  "submitted_task t \<Longrightarrow> task_DispatchedAt t = None"
  by (auto simp: submitted_task_def)

inductive_cases mgr_stepE: "mgr_step TS TD EP env w w'"

text \<open>The life of a stored task: pending, or finished with the time it finished.\<close>

definition lifecycle_ok :: "task \<Rightarrow> bool" where
  "lifecycle_ok t \<longleftrightarrow>
     (if task_Status t = TaskPending then task_CompletedAt t = None
      else terminal_status (task_Status t) \<and> task_CompletedAt t \<noteq> None)"

lemma lifecycle_ok_submitted: "submitted_task t \<Longrightarrow> lifecycle_ok t"
  by (auto simp: lifecycle_ok_def submitted_task_status)

lemma lifecycle_ok_finish: "terminal_status st \<Longrightarrow> lifecycle_ok (with_status now st t)"
  by (auto simp: lifecycle_ok_def terminal_status_def)

lemma lifecycle_ok_dispatched [simp]:
  "lifecycle_ok (t\<lparr>task_DispatchedAt := x\<rparr>) = lifecycle_ok t"
  by (simp add: lifecycle_ok_def)

text \<open>
  The abstract lifecycle machine: what the manager as a whole may do to the stored tasks.
  It creates a submitted task under a fresh ID, gives a task a final status, or records a
  dispatch time.
\<close>

inductive lifecycle_step :: "task_map \<Rightarrow> task_map \<Rightarrow> bool" where
  life_same: "lifecycle_step m m"
| life_create: "submitted_task t \<Longrightarrow> m (task_ID t) = None \<Longrightarrow> lifecycle_step m (m(task_ID t \<mapsto> t))"
| life_finish: "terminal_status st \<Longrightarrow> lifecycle_step m (spec_finish now i st m)"
| life_dispatched: "lifecycle_step m (spec_dispatched i at m)"

lemma lifecycle_step_ok:
  assumes "lifecycle_step m m'" and "\<forall>t \<in> ran m. lifecycle_ok t"
  shows "\<forall>t \<in> ran m'. lifecycle_ok t"
  using assms
proof cases
  case life_same
  with assms show ?thesis by simp
next
  case (life_create t)
  with assms show ?thesis by (auto simp: lifecycle_ok_submitted)
next
  case (life_finish st now i)
  with assms show ?thesis
    by (cases "m i") (auto simp: ran_def lifecycle_ok_finish split: if_splits)
next
  case (life_dispatched i at)
  with assms show ?thesis by (cases "m i") (auto simp: ran_def split: if_splits)
qed

text \<open>What never changes once a task is stored, and that a final status stays final.\<close>

definition task_evolves :: "task \<Rightarrow> task \<Rightarrow> bool" where
  "task_evolves t u \<longleftrightarrow> task_ID u = task_ID t \<and> task_Name u = task_Name t \<and>
     task_UserID u = task_UserID t \<and> task_SubmittedAt u = task_SubmittedAt t \<and>
     task_Stages u = task_Stages t \<and>
     (terminal_status (task_Status t) \<longrightarrow> terminal_status (task_Status u)) \<and>
     (task_DispatchedAt t \<noteq> None \<longrightarrow> task_DispatchedAt u \<noteq> None)"

lemma task_evolves_refl [simp]: "task_evolves t t"
  by (simp add: task_evolves_def)

lemma task_evolves_trans: "task_evolves t u \<Longrightarrow> task_evolves u v \<Longrightarrow> task_evolves t v"
  by (simp add: task_evolves_def)

lemma lifecycle_step_evolves:
  assumes "lifecycle_step m m'" and "m i = Some t"
  shows "\<exists>u. m' i = Some u \<and> task_evolves t u"
  using assms
proof cases
  case (life_finish st now j)
  with assms(2) show ?thesis
    by (cases "i = j") (auto simp: task_evolves_def with_status_def)
next
  case (life_dispatched j at)
  with assms(2) show ?thesis by (cases "i = j") (auto simp: task_evolves_def)
qed auto

lemma lifecycle_steps_evolve:
  assumes "lifecycle_step\<^sup>*\<^sup>* m m'" and "m i = Some t"
  shows "\<exists>u. m' i = Some u \<and> task_evolves t u"
  using assms
proof (induction rule: rtranclp_induct)
  case base
  then show ?case by auto
next
  case (step y z)
  then obtain u where u: "y i = Some u" "task_evolves t u" by blast
  from lifecycle_step_evolves [OF step.hyps(2) u(1)] u(2) show ?case
    by (blast intro: task_evolves_trans)
qed

lemma lifecycle_steps_ok:
  "lifecycle_step\<^sup>*\<^sup>* m m' \<Longrightarrow> \<forall>t \<in> ran m. lifecycle_ok t \<Longrightarrow> \<forall>t \<in> ran m'. lifecycle_ok t"
  by (induction rule: rtranclp_induct) (auto dest: lifecycle_step_ok)

text \<open>What a pass of the deadline loop does to one task.\<close>

definition touch :: "instant \<Rightarrow> duration \<Rightarrow> task \<Rightarrow> task" where
  "touch now dl t = (if overdue now dl t then t\<lparr>task_DispatchedAt := Some now\<rparr> else t)"

lemma touch_ID [simp]: "task_ID (touch now dl t) = task_ID t"
  by (simp add: touch_def)

lemma touch_not_overdue: "0 \<le> dl \<Longrightarrow> \<not> overdue now dl (touch now dl t)"
  by (auto simp: touch_def overdue_iff)

section \<open>The life cycle under every interleaving\<close>

text \<open>
  What the life cycle needs of a store, less than \<open>task_store_contract\<close>: each operation of the
  manager on it is a step of the abstract machine. A database that cuts times and ignores
  unknown IDs qualifies too.
\<close>

locale lifecycle_store =
  fixes TS :: "'s task_store"
    and sinv :: "'s \<Rightarrow> bool"
    and tasks_of :: "'s \<Rightarrow> task_map"
  assumes keeps_create: "sinv s \<Longrightarrow> submitted_task t \<Longrightarrow> ts_create TS t s = (e, s') \<Longrightarrow>
      sinv s' \<and> lifecycle_step (tasks_of s) (tasks_of s')"
    and keeps_status: "sinv s \<Longrightarrow> terminal_status st \<Longrightarrow> ts_set_status TS now i st s = (e, s') \<Longrightarrow>
      sinv s' \<and> lifecycle_step (tasks_of s) (tasks_of s')"
    and keeps_dispatched: "sinv s \<Longrightarrow> ts_set_dispatched_at TS i now s = (e, s') \<Longrightarrow>
      sinv s' \<and> lifecycle_step (tasks_of s) (tasks_of s')"

locale supervised =
  lifecycle_store TS sinv tasks_of + dispatcher_contract TD dinv queued inbox sendable
  for TS :: "'s task_store" and sinv and tasks_of
    and TD :: "'d task_dispatcher" and dinv and queued and inbox and sendable
begin

abbreviation moves_on :: "('s, 'd, 'e) manager \<Rightarrow> ('s, 'd, 'e) manager \<Rightarrow> bool" where
  "moves_on m m' \<equiv> sinv (mg_store m') \<and> dinv (mg_dispatcher m') \<and>
     lifecycle_step (tasks_of (mg_store m)) (tasks_of (mg_store m'))"

lemma persist_moves:
  assumes "sinv s"
  shows "sinv (persist TS now ev s) \<and> lifecycle_step (tasks_of s) (tasks_of (persist TS now ev s))"
proof (cases "is_terminal ev")
  case True
  then have "terminal_status (ev_Status ev)" by (simp add: is_terminal_iff)
  with True assms keeps_status [OF assms this] show ?thesis
    by (metis persist_terminal prod.collapse)
qed (use assms in \<open>simp add: persist_terminal lifecycle_step.intros\<close>)

lemma turn_moves:
  assumes inv: "sinv (mg_store m)" "dinv (mg_dispatcher m)"
    and turn: "event_loop_turn TS TD EP c now p m = Ret (goes, m')"
  shows "moves_on m m'"
proof -
  from turn obtain r d where r: "td_receive_event TD c (mg_dispatcher m) = Ret (r, d)"
    and k: "(case r of Inl _ \<Rightarrow> Ret (False, m\<lparr>mg_dispatcher := d\<rparr>)
      | Inr ev \<Rightarrow> omap (\<lambda>m1. (True, m1)) (handle_event TS EP now p ev (m\<lparr>mg_dispatcher := d\<rparr>)))
      = Ret (goes, m')"
    by (auto simp: event_loop_turn_def)
  show ?thesis
  proof (cases r)
    case (Inl x)
    with k r receive_stop [OF inv(2), of c x d] inv show ?thesis
      by (auto simp: lifecycle_step.intros)
  next
    case (Inr ev)
    with k r receive_event [OF inv(2), of c ev d] persist_moves [OF inv(1), of now "enrich TS (mg_store m) ev"]
    show ?thesis by (auto simp: handle_event_def Let_def)
  qed
qed

lemma scan_moves:
  assumes inv: "sinv (mg_store m)" "dinv (mg_dispatcher m)" and scan: "deadline_scan TS TD c now [t] m = Ret m'"
  shows "moves_on m m'"
proof (cases "overdue now (mg_deadline m) t")
  case True
  with scan obtain e d where d: "td_dispatch TD c t (mg_dispatcher m) = Ret (e, d)"
    and m': "m' = m\<lparr>mg_store := snd (ts_set_dispatched_at TS (task_ID t) now (mg_store m)), mg_dispatcher := d\<rparr>"
    by (auto simp: Let_def)
  obtain x s1 where s1: "ts_set_dispatched_at TS (task_ID t) now (mg_store m) = (x, s1)" by fastforce
  from keeps_dispatched [OF inv(1) s1] dispatch_inv [OF inv(2) d] m' s1 show ?thesis
    by simp
qed (use inv scan in \<open>auto simp: lifecycle_step.intros\<close>)

text \<open>
  Every step of the concurrent manager, whatever the interleaving, is a step of the
  abstract life-cycle machine on the stored tasks.
\<close>

lemma mgr_step_moves:
  assumes step: "mgr_step TS TD EP env w w'"
    and inv: "sinv (mg_store (mw_mgr w))" "dinv (mg_dispatcher (mw_mgr w))"
    and env: "\<forall>d d'. dinv d \<longrightarrow> env d d' \<longrightarrow> dinv d'"
  shows "moves_on (mw_mgr w) (mw_mgr w')"
  using step
proof cases
  case (step_create t s1)
  with keeps_create [OF inv(1), of t None s1] inv show ?thesis by simp
next
  case (step_create_error t e s1)
  with keeps_create [OF inv(1), of t "Some e" s1] inv show ?thesis by simp
next
  case (step_dispatch us t vs c e d1)
  with dispatch_inv [OF inv(2)] inv show ?thesis by (auto simp: lifecycle_step.intros)
next
  case (step_record_failed us t e vs now x s1)
  with keeps_status [OF inv(1), of TaskFailed now "task_ID t" x s1] inv show ?thesis
    by (simp add: terminal_status_def)
next
  case (step_record_dispatched us t vs now x s1)
  with keeps_dispatched [OF inv(1), of "task_ID t" now x s1] inv show ?thesis by simp
next
  case (step_event c now p cont m1)
  with turn_moves [OF inv, of EP c now p cont m1] show ?thesis by simp
next
  case (step_snapshot now p)
  with inv show ?thesis by (simp add: lifecycle_step.intros)
next
  case (step_scan now t ts c m1)
  with scan_moves [OF inv, of c now t m1] show ?thesis by simp
next
  case (step_env d1)
  with inv env show ?thesis by (auto simp: lifecycle_step.intros)
qed

lemma mgr_steps_refine:
  assumes "(mgr_step TS TD EP env)\<^sup>*\<^sup>* w w'"
    and "sinv (mg_store (mw_mgr w))" "dinv (mg_dispatcher (mw_mgr w))"
    and env: "\<forall>d d'. dinv d \<longrightarrow> env d d' \<longrightarrow> dinv d'"
  shows "sinv (mg_store (mw_mgr w')) \<and> dinv (mg_dispatcher (mw_mgr w')) \<and>
    lifecycle_step\<^sup>*\<^sup>* (tasks_of (mg_store (mw_mgr w))) (tasks_of (mg_store (mw_mgr w')))"
  using assms(1-3)
proof (induction rule: rtranclp_induct)
  case base
  then show ?case by simp
next
  case (step y z)
  then have y: "sinv (mg_store (mw_mgr y))" "dinv (mg_dispatcher (mw_mgr y))"
    "lifecycle_step\<^sup>*\<^sup>* (tasks_of (mg_store (mw_mgr w))) (tasks_of (mg_store (mw_mgr y)))"
    by simp_all
  from mgr_step_moves [OF step.hyps(2) y(1,2) env] y(3) show ?case
    by (auto intro: rtranclp.rtrancl_into_rtrancl)
qed

end

sublocale task_store_contract \<subseteq> lifecycle_store TS sinv tasks_of
proof unfold_locales
  fix s :: 's and t e s'
  assume "sinv s" "submitted_task t" "ts_create TS t s = (e, s')"
  with create_inv [of s t] create_state [of s t] show "sinv s' \<and> lifecycle_step (tasks_of s) (tasks_of s')"
    by (cases "tasks_of s (task_ID t)") (auto intro: lifecycle_step.intros)
next
  fix s :: 's and st now i e s'
  assume "sinv s" "terminal_status st" "ts_set_status TS now i st s = (e, s')"
  with finish_inv [of s now i st] finish_state [of s st now i]
  show "sinv s' \<and> lifecycle_step (tasks_of s) (tasks_of s')" by (auto intro: lifecycle_step.intros)
next
  fix s :: 's and i now e s'
  assume "sinv s" "ts_set_dispatched_at TS i now s = (e, s')"
  with dispatched_inv [of s i now] dispatched_state [of s i now]
  show "sinv s' \<and> lifecycle_step (tasks_of s) (tasks_of s')" by (auto intro: lifecycle_step.intros)
qed

section \<open>A manager over a store and a dispatcher that keep their contracts\<close>

locale managed =
  task_store_contract TS sinv tasks_of + dispatcher_contract TD dinv queued inbox sendable
  for TS :: "'s task_store" and sinv and tasks_of
    and TD :: "'d task_dispatcher" and dinv and queued and inbox and sendable
begin

text \<open>\<^verbatim>\<open>Submit\<close>, every branch.\<close>

lemma submit_duplicate:
  assumes "sinv (mg_store m)" and "tasks_of (mg_store m) (task_ID t) \<noteq> None"
  shows "\<exists>msg m'. submit TS TD c now t m = Ret (Some (HTTPError 500 msg None), m') \<and>
    tasks_of (mg_store m') = tasks_of (mg_store m) \<and> mg_dispatcher m' = mg_dispatcher m"
proof -
  obtain e s1 where cr: "ts_create TS t (mg_store m) = (e, s1)"
    by (cases "ts_create TS t (mg_store m)")
  from create_result [OF assms(1), of t] cr assms(2) obtain err where "e = Some err" by auto
  with cr create_state [OF assms(1), of t] assms(2) show ?thesis
    by (auto simp: submit_def)
qed

lemma submit_new:
  assumes inv: "sinv (mg_store m)" "dinv (mg_dispatcher m)"
    and new: "tasks_of (mg_store m) (task_ID t) = None"
  obtains derr d1 s2 where
    "td_dispatch TD c t (mg_dispatcher m) = Ret (derr, d1)"
    "submit TS TD c now t m = Ret (map_option dispatch_http_error derr,
       m\<lparr>mg_store := s2, mg_dispatcher := d1\<rparr>)"
    "sinv s2" "dinv d1"
    "tasks_of s2 = (tasks_of (mg_store m))(task_ID t \<mapsto>
       (if derr = None then t\<lparr>task_DispatchedAt := Some now\<rparr> else with_status now TaskFailed t))"
proof -
  obtain e s1 where cr: "ts_create TS t (mg_store m) = (e, s1)"
    by (cases "ts_create TS t (mg_store m)")
  from create_result [OF inv(1), of t] cr new have e: "e = None" by simp
  from create_inv [OF inv(1), of t] cr have inv1: "sinv s1" by simp
  from create_state [OF inv(1), of t] cr new
  have s1: "tasks_of s1 = (tasks_of (mg_store m))(task_ID t \<mapsto> t)" by simp
  from dispatch_returns [OF inv(2), of c t] obtain derr d1
    where d: "td_dispatch TD c t (mg_dispatcher m) = Ret (derr, d1)" by auto
  from dispatch_inv [OF inv(2) d] have dinv1: "dinv d1" .
  show thesis
  proof (cases derr)
    case None
    show ?thesis
      by (rule that [OF d, of "snd (ts_set_dispatched_at TS (task_ID t) now s1)"])
        (use None cr e d s1 inv1 dinv1 in
          \<open>simp_all add: submit_def dispatched_state dispatched_inv\<close>)
  next
    case (Some err)
    show ?thesis
      by (rule that [OF d, of "snd (ts_set_status TS now (task_ID t) TaskFailed s1)"])
        (use Some cr e d s1 inv1 dinv1 in \<open>simp_all add: submit_def finish_state finish_inv\<close>)
  qed
qed

text \<open>
  An acknowledged task is stored, marked dispatched and handed to the transport exactly
  once; a refused one is stored as failed and not handed over.
\<close>

lemma submit_acknowledged:
  assumes "sinv (mg_store m)" "dinv (mg_dispatcher m)" and "sendable t"
    and sub: "submit TS TD c now t m = Ret (None, m')"
  shows "tasks_of (mg_store m) (task_ID t) = None \<and>
    tasks_of (mg_store m') =
      (tasks_of (mg_store m))(task_ID t \<mapsto> t\<lparr>task_DispatchedAt := Some now\<rparr>) \<and>
    queued (mg_dispatcher m') = add_mset t (queued (mg_dispatcher m)) \<and>
    sinv (mg_store m') \<and> dinv (mg_dispatcher m')"
proof (cases "tasks_of (mg_store m) (task_ID t)")
  case None
  obtain derr d1 s2 where
    d: "td_dispatch TD c t (mg_dispatcher m) = Ret (derr, d1)" and
    r: "submit TS TD c now t m = Ret (map_option dispatch_http_error derr,
       m\<lparr>mg_store := s2, mg_dispatcher := d1\<rparr>)" "sinv s2" "dinv d1"
    "tasks_of s2 = (tasks_of (mg_store m))(task_ID t \<mapsto>
       (if derr = None then t\<lparr>task_DispatchedAt := Some now\<rparr> else with_status now TaskFailed t))"
    using assms(1,2) None by (rule submit_new [of m t c now])
  from r(1) sub have "derr = None" and "m' = m\<lparr>mg_store := s2, mg_dispatcher := d1\<rparr>" by auto
  with None r d dispatch_accepted [OF assms(2,3), of c d1] show ?thesis by simp
next
  case (Some u)
  with submit_duplicate [OF assms(1), of t c now] sub show ?thesis by auto
qed

lemma submit_refused:
  assumes "sinv (mg_store m)" "dinv (mg_dispatcher m)"
    and new: "tasks_of (mg_store m) (task_ID t) = None"
    and sub: "submit TS TD c now t m = Ret (Some err, m')"
  shows "tasks_of (mg_store m') = (tasks_of (mg_store m))(task_ID t \<mapsto> with_status now TaskFailed t) \<and>
    queued (mg_dispatcher m') = queued (mg_dispatcher m) \<and>
    (\<exists>derr. td_dispatch TD c t (mg_dispatcher m) = Ret (Some derr, mg_dispatcher m') \<and>
      err = dispatch_http_error derr)"
proof -
  obtain derr d1 s2 where
    d: "td_dispatch TD c t (mg_dispatcher m) = Ret (derr, d1)" and
    r: "submit TS TD c now t m = Ret (map_option dispatch_http_error derr,
       m\<lparr>mg_store := s2, mg_dispatcher := d1\<rparr>)" "sinv s2" "dinv d1"
    "tasks_of s2 = (tasks_of (mg_store m))(task_ID t \<mapsto>
       (if derr = None then t\<lparr>task_DispatchedAt := Some now\<rparr> else with_status now TaskFailed t))"
    using assms(1,2) new by (rule submit_new [of m t c now])
  with sub dispatch_refused [OF assms(2), of c t] show ?thesis by auto
qed

text \<open>The event loop takes the oldest event, completes its user ID and stores only a final status.\<close>

lemma enrich_spec:
  "sinv s \<Longrightarrow> enrich TS s ev =
     (case tasks_of s (ev_TaskID ev) of
        Some t \<Rightarrow> ev\<lparr>ev_UserID := task_UserID t\<rparr> | None \<Rightarrow> ev)"
  by (simp add: enrich_def get)

lemma persist_spec:
  "sinv s \<Longrightarrow> tasks_of (persist TS now ev s) =
     (if is_terminal ev then spec_finish now (ev_TaskID ev) (ev_Status ev) (tasks_of s)
      else tasks_of s)"
  by (auto simp: persist_terminal is_terminal_iff finish_state)

lemma persist_inv: "sinv s \<Longrightarrow> sinv (persist TS now ev s)"
  by (simp add: persist_terminal finish_inv)

text \<open>The deadline scan.\<close>

lemma deadline_scan_one:
  assumes "sinv (mg_store m)" "dinv (mg_dispatcher m)"
    and "deadline_scan TS TD c now [t] m = Ret m'"
  shows "sinv (mg_store m') \<and> dinv (mg_dispatcher m') \<and> mg_deadline m' = mg_deadline m \<and>
    mg_events m' = mg_events m \<and>
    tasks_of (mg_store m') = (if overdue now (mg_deadline m) t
      then spec_dispatched (task_ID t) now (tasks_of (mg_store m)) else tasks_of (mg_store m))"
  using assms by (auto simp: dispatched_inv dispatched_state Let_def dest: dispatch_inv split: if_splits)

lemma deadline_scan_Cons:
  "deadline_scan TS TD c now (t # ts) m =
     obind (deadline_scan TS TD c now [t] m) (deadline_scan TS TD c now ts)"
  by (cases "td_dispatch TD c t (mg_dispatcher m)") (auto simp: Let_def)

text \<open>A whole pass: it returns, and afterwards no unfinished task is overdue.\<close>

lemma deadline_scan_returns:
  "sinv (mg_store m) \<Longrightarrow> dinv (mg_dispatcher m) \<Longrightarrow> \<exists>m'. deadline_scan TS TD c now ts m = Ret m'"
proof (induction ts arbitrary: m)
  case Nil
  then show ?case by simp
next
  case (Cons t ts)
  have "\<exists>m1. deadline_scan TS TD c now [t] m = Ret m1"
    using dispatch_returns [OF Cons.prems(2), of c t] by (auto simp: Let_def)
  then obtain m1 where m1: "deadline_scan TS TD c now [t] m = Ret m1" ..
  with deadline_scan_one [OF Cons.prems m1] Cons.IH [of m1] show ?case
    by (subst deadline_scan_Cons) simp
qed

lemma deadline_scan_tasks:
  assumes "sinv (mg_store m)" "dinv (mg_dispatcher m)"
    and "\<forall>t \<in> set ts. tasks_of (mg_store m) (task_ID t) = Some t" and "distinct (map task_ID ts)"
    and "deadline_scan TS TD c now ts m = Ret m'"
  shows "sinv (mg_store m') \<and> dinv (mg_dispatcher m') \<and>
    tasks_of (mg_store m') i = map_option
      (\<lambda>t. if t \<in> set ts then touch now (mg_deadline m) t else t) (tasks_of (mg_store m) i)"
  using assms
proof (induction ts arbitrary: m)
  case Nil
  then show ?case by (simp add: option.map_ident)
next
  case (Cons t ts)
  from Cons.prems(5) obtain m1 where m1: "deadline_scan TS TD c now [t] m = Ret m1"
    and rest: "deadline_scan TS TD c now ts m1 = Ret m'"
    by (subst (asm) deadline_scan_Cons) auto
  from deadline_scan_one [OF Cons.prems(1,2) m1] have inv1: "sinv (mg_store m1)"
    "dinv (mg_dispatcher m1)" and dl: "mg_deadline m1 = mg_deadline m"
    and st: "tasks_of (mg_store m1) = (if overdue now (mg_deadline m) t
      then spec_dispatched (task_ID t) now (tasks_of (mg_store m)) else tasks_of (mg_store m))"
    by auto
  have ids: "task_ID u \<noteq> task_ID t" if "u \<in> set ts" for u
    using Cons.prems(4) that by (auto simp: image_iff)
  have prem: "\<forall>u \<in> set ts. tasks_of (mg_store m1) (task_ID u) = Some u"
    using st Cons.prems(3) by (auto dest: ids)
  have IH: "sinv (mg_store m') \<and> dinv (mg_dispatcher m') \<and> tasks_of (mg_store m') i = map_option
      (\<lambda>t. if t \<in> set ts then touch now (mg_deadline m) t else t) (tasks_of (mg_store m1) i)"
    using Cons.IH [OF inv1 prem _ rest] Cons.prems(4) unfolding dl by simp
  show ?case
  proof (cases "i = task_ID t")
    case True
    have "tasks_of (mg_store m1) i = Some (touch now (mg_deadline m) t)"
      "tasks_of (mg_store m) i = Some t"
      using Cons.prems(3) True st by (auto simp: touch_def)
    moreover have "touch now (mg_deadline m) t \<notin> set ts" by (auto dest: ids)
    ultimately show ?thesis using IH by simp
  next
    case False
    then have same: "tasks_of (mg_store m1) i = tasks_of (mg_store m) i" using st by simp
    have "u \<noteq> t" if "tasks_of (mg_store m) i = Some u" for u
      using keys [OF Cons.prems(1) that] False by auto
    with same IH show ?thesis by (cases "tasks_of (mg_store m) i") auto
  qed
qed

lemma deadline_scan_queued:
  assumes "sinv (mg_store m)" "dinv (mg_dispatcher m)" "deadline_scan TS TD c now ts m = Ret m'"
    and "list_all sendable ts"
  shows "\<exists>us. subseq us (filter (overdue now (mg_deadline m)) ts) \<and>
    queued (mg_dispatcher m') = queued (mg_dispatcher m) + mset us"
  using assms
proof (induction ts arbitrary: m)
  case Nil
  then show ?case by simp
next
  case (Cons t ts)
  from Cons.prems(3) obtain m1 where m1: "deadline_scan TS TD c now [t] m = Ret m1"
    and rest: "deadline_scan TS TD c now ts m1 = Ret m'"
    by (subst (asm) deadline_scan_Cons) auto
  from deadline_scan_one [OF Cons.prems(1,2) m1] have inv1: "sinv (mg_store m1)"
    "dinv (mg_dispatcher m1)" and dl: "mg_deadline m1 = mg_deadline m" by auto
  from Cons.IH [OF inv1 rest] Cons.prems(4) dl obtain us where us: "subseq us (filter (overdue now (mg_deadline m)) ts)"
    "queued (mg_dispatcher m') = queued (mg_dispatcher m1) + mset us" by auto
  have "queued (mg_dispatcher m1) = queued (mg_dispatcher m) \<or>
      overdue now (mg_deadline m) t \<and> queued (mg_dispatcher m1) = add_mset t (queued (mg_dispatcher m))"
  proof (cases "overdue now (mg_deadline m) t")
    case True
    with m1 obtain e d1 where d: "td_dispatch TD c t (mg_dispatcher m) = Ret (e, d1)" "mg_dispatcher m1 = d1"
      by (auto simp: Let_def)
    have "sendable t" using Cons.prems(4) by simp
    with True d dispatch_accepted [OF Cons.prems(2), of t c d1] dispatch_refused [OF Cons.prems(2), of c t _ d1]
    show ?thesis by (cases e) auto
  next
    case False
    with m1 show ?thesis by simp
  qed
  then show ?case
  proof
    assume "queued (mg_dispatcher m1) = queued (mg_dispatcher m)"
    with us show ?thesis by (intro exI [of _ us]) auto
  next
    assume "overdue now (mg_deadline m) t \<and>
      queued (mg_dispatcher m1) = add_mset t (queued (mg_dispatcher m))"
    with us show ?thesis by (intro exI [of _ "t # us"]) auto
  qed
qed

lemma deadline_tick_tasks:
  assumes inv: "sinv (mg_store m)" "dinv (mg_dispatcher m)"
    and tick: "deadline_tick TS TD c now p m = Ret m'"
  shows "tasks_of (mg_store m') i = map_option (touch now (mg_deadline m)) (tasks_of (mg_store m) i)"
proof -
  let ?ts = "ts_list TS p (mg_store m)"
  have ts: "\<forall>t \<in> set ?ts. tasks_of (mg_store m) (task_ID t) = Some t"
    using inv(1) by (simp add: listed_iff)
  have listed: "t \<in> set ?ts" if "tasks_of (mg_store m) i = Some t" for t
    using inv(1) that by (simp add: list_set ranI)
  from deadline_scan_tasks [OF inv ts list_distinct [OF inv(1)], of c now m' i] tick
  show ?thesis
    by (cases "tasks_of (mg_store m) i") (auto simp: deadline_tick_def dest: listed)
qed

end

sublocale managed \<subseteq> supervised TS sinv tasks_of TD dinv queued inbox sendable
  by unfold_locales

section \<open>A manager with a broadcasting event bus\<close>

text \<open>What a sequence of events, each with the instant it is handled, does to the stored tasks.\<close>

fun apply_events :: "(instant \<times> task_event) list \<Rightarrow> task_map \<Rightarrow> task_map" where
  "apply_events [] m = m"
| "apply_events ((now, ev) # evs) m =
     apply_events evs (if is_terminal ev then spec_finish now (ev_TaskID ev) (ev_Status ev) m else m)"

locale broadcasting =
  managed TS sinv tasks_of TD dinv queued inbox sendable + publisher_contract EP einv subs feed free
  for TS :: "'s task_store" and sinv and tasks_of
    and TD :: "'d task_dispatcher" and dinv and queued and inbox and sendable
    and EP :: "'e event_publisher" and einv and subs and feed and free
begin

lemma enrich_persist:
  assumes "sinv s"
  shows "enrich TS (persist TS now ev' s) ev = enrich TS s ev"
proof (cases "is_terminal ev' \<and> ev_TaskID ev' = ev_TaskID ev")
  case True
  with assms show ?thesis
    by (cases "tasks_of s (ev_TaskID ev)") (simp_all add: enrich_spec persist_inv persist_spec)
next
  case False
  with assms show ?thesis by (auto simp: enrich_spec persist_inv persist_spec)
qed

lemma event_turn_live:
  assumes "sinv (mg_store m)" "dinv (mg_dispatcher m)" "einv (mg_events m)"
    and "\<not> ctx_done c" and "inbox (mg_dispatcher m) = ev # evs"
  obtains d b where "event_loop_turn TS TD EP c now p m =
      Ret (True, m\<lparr>mg_dispatcher := d,
        mg_store := persist TS now (enrich TS (mg_store m) ev) (mg_store m), mg_events := b\<rparr>)"
    "inbox d = evs" "queued d = queued (mg_dispatcher m)" "dinv d"
    "ep_publish EP p (enrich TS (mg_store m) ev) (mg_events m) = Ret b"
proof -
  from receive_live [OF assms(2,4)] assms(5) obtain d where
    d: "td_receive_event TD c (mg_dispatcher m) = Ret (Inr ev, d)" "inbox d = evs" by auto
  from receive_event [OF assms(2) d(1)] have "queued d = queued (mg_dispatcher m)" "dinv d" by simp_all
  moreover obtain b where "ep_publish EP p (enrich TS (mg_store m) ev) (mg_events m) = Ret b"
    using publish_returns [OF assms(3)] by blast
  ultimately show thesis
    using d by (intro that [of b d]) (simp_all add: event_loop_turn_def handle_event_def Let_def)
qed

text \<open>
  The loop drains the inbox in order: every subscriber with room receives the events, with
  their user IDs completed, in the order the dispatcher delivered them, and the store has
  seen exactly the final statuses among them.
\<close>

lemma event_loop_delivers:
  assumes "sinv (mg_store m)" "dinv (mg_dispatcher m)" "einv (mg_events m)"
    and "list_all (\<lambda>(c, _, _). \<not> ctx_done c) xs" and "length xs \<le> length (inbox (mg_dispatcher m))"
    and "i \<in> subs (mg_events m)" and "length xs \<le> free (mg_events m) i"
  shows "\<exists>m'. event_loop TS TD EP xs m = Ret m' \<and>
    inbox (mg_dispatcher m') = drop (length xs) (inbox (mg_dispatcher m)) \<and>
    queued (mg_dispatcher m') = queued (mg_dispatcher m) \<and>
    feed (mg_events m') i = feed (mg_events m) i @
      map (enrich TS (mg_store m)) (take (length xs) (inbox (mg_dispatcher m))) \<and>
    tasks_of (mg_store m') =
      apply_events (zip (map (\<lambda>(_, now, _). now) xs) (inbox (mg_dispatcher m))) (tasks_of (mg_store m))"
  using assms
proof (induction xs arbitrary: m)
  case Nil
  then show ?case by simp
next
  case (Cons x xs)
  obtain c now p where x: "x = (c, now, p)" by (cases x)
  obtain ev evs where ib: "inbox (mg_dispatcher m) = ev # evs"
    using Cons.prems(5) by (cases "inbox (mg_dispatcher m)") auto
  have live: "\<not> ctx_done c" using Cons.prems(4) x by simp
  obtain d b where turn: "event_loop_turn TS TD EP c now p m =
      Ret (True, m\<lparr>mg_dispatcher := d,
        mg_store := persist TS now (enrich TS (mg_store m) ev) (mg_store m), mg_events := b\<rparr>)"
    and d: "inbox d = evs" "queued d = queued (mg_dispatcher m)" "dinv d"
    and b: "ep_publish EP p (enrich TS (mg_store m) ev) (mg_events m) = Ret b"
    using Cons.prems(1-3) live ib by (rule event_turn_live [where now = now and p = p])
  from publish_inv [OF Cons.prems(3) b] publish_room [OF Cons.prems(3) b Cons.prems(6)] Cons.prems(6,7)
  have b': "einv b" "i \<in> subs b" "feed b i = feed (mg_events m) i @ [enrich TS (mg_store m) ev]"
    "Suc (free b i) = free (mg_events m) i" by auto
  let ?m = "m\<lparr>mg_dispatcher := d,
        mg_store := persist TS now (enrich TS (mg_store m) ev) (mg_store m), mg_events := b\<rparr>"
  have same: "enrich TS (persist TS now ev' (mg_store m)) = enrich TS (mg_store m)" for ev'
    using Cons.prems(1) by (simp add: fun_eq_iff enrich_persist)
  from Cons.IH [of ?m] Cons.prems b' d ib x obtain m' where
    "event_loop TS TD EP xs ?m = Ret m'" "inbox (mg_dispatcher m') = drop (length xs) evs"
    "queued (mg_dispatcher m') = queued (mg_dispatcher m)"
    "feed (mg_events m') i = feed b i @ map (enrich TS (mg_store m)) (take (length xs) evs)"
    "tasks_of (mg_store m') = apply_events (zip (map (\<lambda>(_, now, _). now) xs) evs)
      (tasks_of (persist TS now (enrich TS (mg_store m) ev) (mg_store m)))"
    by (auto simp: persist_inv same)
  with turn x ib b' Cons.prems(1) show ?case by (simp add: persist_spec)
qed

end

end
