(* ===== verification/Bridge.thy ===== *)
theory Bridge
  imports Contracts
begin

text \<open>
  \<^verbatim>\<open>shared/events/memory.go\<close>: the in-memory event bridge of patterns 1 to 4.

  A Go channel is a reference, so the bridge keeps a heap of channels: \<open>mb_live\<close> are the
  keys of the \<^verbatim>\<open>live\<close> map, \<open>mb_heap\<close> the channels they stand for. \<open>mb_closing\<close> are the
  subscriptions whose goroutine has left the critical section that deletes the channel and
  has not closed it yet: the two actions are not one atomic step in the code.

  \<open>bridge_step\<close> interleaves \<^verbatim>\<open>Publish\<close>, \<^verbatim>\<open>Subscribe\<close>, the cancellation goroutines and the
  readers, with a log of what was published and read. \<open>bridge_inv\<close> gives that no
  publication meets a closed channel; \<open>bridge_log_inv\<close> that every reader sees a
  subsequence of what was published after it subscribed, in order.
\<close>

section \<open>MemoryBridge\<close>

record memory_bridge =
  mb_live :: "nat list"
  mb_heap :: "nat \<Rightarrow> task_event chan"
  mb_next :: nat
  mb_closing :: "nat list"

definition NewMemoryBridge :: memory_bridge where
  "NewMemoryBridge = \<lparr>mb_live = [], mb_heap = (\<lambda>_. make_chan 0), mb_next = 0, mb_closing = []\<rparr>"

definition bridge_publish :: "nat \<Rightarrow> task_event \<Rightarrow> memory_bridge \<Rightarrow> memory_bridge outcome" where
  "bridge_publish p ev b =
     omap (\<lambda>h. b\<lparr>mb_heap := h\<rparr>) (offer_all ev (range_order p (mb_live b)) (mb_heap b))"

definition memory_bridge_ops :: "memory_bridge event_publisher" where
  "memory_bridge_ops = \<lparr>ep_publish = bridge_publish\<rparr>"

definition bridge_subscribe :: "memory_bridge \<Rightarrow> nat \<times> memory_bridge" where
  "bridge_subscribe b =
     (let i = mb_next b
      in (i, b\<lparr>mb_heap := (mb_heap b)(i := make_chan 64), mb_next := Suc i,
               mb_live := i # mb_live b\<rparr>))"

text \<open>The goroutine of a subscription: first the critical section, then the close.\<close>

definition bridge_unlist :: "nat \<Rightarrow> memory_bridge \<Rightarrow> memory_bridge" where
  "bridge_unlist i b = b\<lparr>mb_live := removeAll i (mb_live b), mb_closing := i # mb_closing b\<rparr>"

definition bridge_close :: "nat \<Rightarrow> memory_bridge \<Rightarrow> memory_bridge outcome" where
  "bridge_close i b =
     omap (\<lambda>c. b\<lparr>mb_heap := (mb_heap b)(i := c), mb_closing := removeAll i (mb_closing b)\<rparr>)
       (chan_close (mb_heap b i))"

definition bridge_read :: "nat \<Rightarrow> memory_bridge \<Rightarrow> (task_event option \<times> memory_bridge) outcome" where
  "bridge_read i b =
     omap (\<lambda>(r, c). (r, b\<lparr>mb_heap := (mb_heap b)(i := c)\<rparr>)) (chan_recv (mb_heap b i))"

section \<open>The concurrent bridge\<close>

text \<open>
  \<open>bw_log\<close> is everything published so far, \<open>bw_since i\<close> its length when \<open>i\<close> subscribed,
  \<open>bw_read i\<close> what the reader of \<open>i\<close> has taken.
\<close>

record bridge_world =
  bw_bridge :: memory_bridge
  bw_log :: "task_event list"
  bw_since :: "nat \<Rightarrow> nat"
  bw_read :: "nat \<Rightarrow> task_event list"

inductive bridge_step :: "bridge_world \<Rightarrow> bridge_world \<Rightarrow> bool" where
  step_publish:
    "bridge_publish p ev (bw_bridge w) = Ret b \<Longrightarrow>
     bridge_step w (w\<lparr>bw_bridge := b, bw_log := bw_log w @ [ev]\<rparr>)"
| step_subscribe:
    "bridge_subscribe (bw_bridge w) = (i, b) \<Longrightarrow>
     bridge_step w (w\<lparr>bw_bridge := b, bw_since := (bw_since w)(i := length (bw_log w)),
       bw_read := (bw_read w)(i := [])\<rparr>)"
| step_unlist:
    "i \<in> set (mb_live (bw_bridge w)) \<Longrightarrow>
     bridge_step w (w\<lparr>bw_bridge := bridge_unlist i (bw_bridge w)\<rparr>)"
| step_close:
    "i \<in> set (mb_closing (bw_bridge w)) \<Longrightarrow> bridge_close i (bw_bridge w) = Ret b \<Longrightarrow>
     bridge_step w (w\<lparr>bw_bridge := b\<rparr>)"
| step_read:
    "i < mb_next (bw_bridge w) \<Longrightarrow> bridge_read i (bw_bridge w) = Ret (r, b) \<Longrightarrow>
     bridge_step w (w\<lparr>bw_bridge := b,
       bw_read := (bw_read w)(i := bw_read w i @ (case r of Some ev \<Rightarrow> [ev] | None \<Rightarrow> []))\<rparr>)"

definition bridge_start :: bridge_world where
  "bridge_start = \<lparr>bw_bridge = NewMemoryBridge, bw_log = [], bw_since = (\<lambda>_. 0), bw_read = (\<lambda>_. [])\<rparr>"

section \<open>Invariants\<close>

definition sub_chan_ok :: "task_event chan \<Rightarrow> bool" where
  "sub_chan_ok c \<longleftrightarrow> \<not> ch_closed c \<and> ch_cap c = 64 \<and> chan_ok c"

definition bridge_inv :: "memory_bridge \<Rightarrow> bool" where
  "bridge_inv b \<longleftrightarrow> distinct (mb_live b) \<and> distinct (mb_closing b) \<and>
     set (mb_live b) \<inter> set (mb_closing b) = {} \<and>
     (\<forall>i \<in> set (mb_live b) \<union> set (mb_closing b).
        i < mb_next b \<and> sub_chan_ok (mb_heap b i))"

definition bridge_subs :: "memory_bridge \<Rightarrow> nat set" where
  "bridge_subs b = set (mb_live b)"

definition bridge_feed :: "memory_bridge \<Rightarrow> nat \<Rightarrow> task_event list" where
  "bridge_feed b i = ch_buf (mb_heap b i)"

definition bridge_free :: "memory_bridge \<Rightarrow> nat \<Rightarrow> nat" where
  "bridge_free b i = ch_cap (mb_heap b i) - length (ch_buf (mb_heap b i))"

definition bridge_log_inv :: "bridge_world \<Rightarrow> bool" where
  "bridge_log_inv w \<longleftrightarrow> bridge_inv (bw_bridge w) \<and>
     (\<forall>i. bw_since w i \<le> length (bw_log w)) \<and>
     (\<forall>i < mb_next (bw_bridge w).
        subseq (bw_read w i @ bridge_feed (bw_bridge w) i) (drop (bw_since w i) (bw_log w)))"

section \<open>Lemmas\<close>

lemma memory_bridge_ops_simps [simp]: "ep_publish memory_bridge_ops = bridge_publish"
  by (simp add: memory_bridge_ops_def)

lemma sub_chan_ok_simps [simp]:
  "sub_chan_ok (make_chan 64)" "sub_chan_ok c \<Longrightarrow> sub_chan_ok (offer ev c)"
  "sub_chan_ok c \<Longrightarrow> \<not> ch_closed c"
  by (simp_all add: sub_chan_ok_def)

lemma sub_chan_ok_recv: "sub_chan_ok c \<Longrightarrow> chan_recv c = Ret (r, c') \<Longrightarrow> sub_chan_ok c'"
  by (auto simp: sub_chan_ok_def chan_recv_def chan_ok_def split: list.splits if_splits)

text \<open>Publication in closed form; the visiting order of the map makes no difference.\<close>

lemma bridge_publish_eq:
  assumes "bridge_inv b"
  shows "bridge_publish p ev b =
    Ret (b\<lparr>mb_heap := \<lambda>i. if i \<in> set (mb_live b) then offer ev (mb_heap b i) else mb_heap b i\<rparr>)"
  using assms by (simp add: bridge_publish_def offer_all_eq bridge_inv_def)

lemma bridge_inv_new [simp]: "bridge_inv NewMemoryBridge"
  by (simp add: bridge_inv_def NewMemoryBridge_def)

lemma bridge_inv_publish:
  "bridge_inv b \<Longrightarrow> bridge_publish p ev b = Ret b' \<Longrightarrow> bridge_inv b'"
  by (auto simp: bridge_publish_eq) (auto simp: bridge_inv_def)

lemma bridge_inv_subscribe: "bridge_inv b \<Longrightarrow> bridge_inv (snd (bridge_subscribe b))"
  by (auto simp: bridge_inv_def bridge_subscribe_def Let_def less_Suc_eq)

lemma bridge_inv_unlist: "bridge_inv b \<Longrightarrow> i \<in> set (mb_live b) \<Longrightarrow> bridge_inv (bridge_unlist i b)"
  by (auto simp: bridge_inv_def bridge_unlist_def distinct_removeAll)

lemma bridge_inv_close:
  "bridge_inv b \<Longrightarrow> i \<in> set (mb_closing b) \<Longrightarrow> \<exists>b'. bridge_close i b = Ret b' \<and> bridge_inv b'"
  by (auto simp: bridge_inv_def bridge_close_def chan_close_def distinct_removeAll)

lemma bridge_inv_read:
  "bridge_inv b \<Longrightarrow> bridge_read i b = Ret (r, b') \<Longrightarrow> bridge_inv b'"
  by (auto simp: bridge_inv_def bridge_read_def) (meson UnCI sub_chan_ok_recv)+

interpretation bridge_pub:
  publisher_contract memory_bridge_ops bridge_inv bridge_subs bridge_feed bridge_free
proof unfold_locales
  fix b b' ev i and p :: nat
  assume inv: "bridge_inv b"
  show "\<exists>b'. ep_publish memory_bridge_ops p ev b = Ret b'"
    using inv by (simp add: bridge_publish_eq)
  assume pub: "ep_publish memory_bridge_ops p ev b = Ret b'"
  with inv have b': "b' = b\<lparr>mb_heap := \<lambda>i. if i \<in> set (mb_live b) then offer ev (mb_heap b i)
      else mb_heap b i\<rparr>" by (simp add: bridge_publish_eq)
  show "bridge_inv b' \<and> bridge_subs b' = bridge_subs b"
    using inv pub b' bridge_inv_publish by (auto simp: bridge_subs_def)
  show "i \<in> bridge_subs b \<Longrightarrow> 0 < bridge_free b i \<Longrightarrow>
      bridge_feed b' i = bridge_feed b i @ [ev] \<and> Suc (bridge_free b' i) = bridge_free b i"
    using b' by (auto simp: bridge_subs_def bridge_free_def bridge_feed_def chan_room_def)
  show "i \<notin> bridge_subs b \<or> bridge_free b i = 0 \<Longrightarrow>
      bridge_feed b' i = bridge_feed b i \<and> bridge_free b' i = bridge_free b i"
    using b' by (auto simp: bridge_subs_def bridge_free_def bridge_feed_def chan_room_def)
qed

section \<open>Runs of the concurrent bridge\<close>

lemma bridge_log_inv_start: "bridge_log_inv bridge_start"
  by (simp add: bridge_log_inv_def bridge_start_def NewMemoryBridge_def bridge_inv_def)

lemma subseq_drop_snoc:
  "subseq xs (drop n ys) \<Longrightarrow> n \<le> length ys \<Longrightarrow>
     subseq xs (drop n (ys @ [y])) \<and> subseq (xs @ [y]) (drop n (ys @ [y]))"
  by (auto simp: list_emb_append_mono intro: list_emb_append2 subseq_order.trans)

lemma bridge_step_log_inv:
  assumes "bridge_step w w'" and inv: "bridge_log_inv w"
  shows "bridge_log_inv w'"
  using assms(1)
proof cases
  case (step_publish p ev b)
  from inv step_publish have b: "b = (bw_bridge w)\<lparr>mb_heap := \<lambda>i. if i \<in> set (mb_live (bw_bridge w))
      then offer ev (mb_heap (bw_bridge w) i) else mb_heap (bw_bridge w) i\<rparr>"
    by (simp add: bridge_publish_eq bridge_log_inv_def)
  have "bridge_inv b"
    using step_publish(2) inv bridge_inv_publish unfolding bridge_log_inv_def by blast
  moreover have "subseq (bw_read w i @ bridge_feed b i) (drop (bw_since w i) (bw_log w @ [ev]))"
    if "i < mb_next (bw_bridge w)" for i
    using subseq_drop_snoc [of "bw_read w i @ bridge_feed (bw_bridge w) i" "bw_since w i" "bw_log w" ev]
      inv that by (auto simp: bridge_log_inv_def bridge_feed_def b)
  ultimately show ?thesis
    using step_publish inv by (simp add: bridge_log_inv_def b le_SucI)
next
  case (step_subscribe i b)
  with inv bridge_inv_subscribe [of "bw_bridge w"] show ?thesis
    by (auto simp: bridge_log_inv_def bridge_subscribe_def Let_def bridge_feed_def less_Suc_eq)
next
  case (step_unlist i)
  with inv bridge_inv_unlist [of "bw_bridge w" i] show ?thesis
    by (auto simp: bridge_log_inv_def bridge_unlist_def bridge_feed_def)
next
  case (step_close i b)
  with inv bridge_inv_close [of "bw_bridge w" i] show ?thesis
    by (auto simp: bridge_log_inv_def bridge_close_def bridge_feed_def chan_close_def
        split: if_splits)
next
  case (step_read i r b)
  with inv bridge_inv_read [of "bw_bridge w" i r b] show ?thesis
    by (auto simp: bridge_log_inv_def bridge_read_def bridge_feed_def chan_recv_def
        split: list.splits if_splits)
qed

lemma bridge_steps_log_inv: "bridge_step\<^sup>*\<^sup>* w w' \<Longrightarrow> bridge_log_inv w \<Longrightarrow> bridge_log_inv w'"
  by (induction rule: rtranclp_induct) (auto dest: bridge_step_log_inv)

end
