(* ===== verification/Hub.thy ===== *)
theory Hub
  imports Json
begin

text \<open>
  \<^verbatim>\<open>shared/sse/hub.go\<close>: the SSE hub, which routes events to the subscribers of one user.

  \<open>hb_subs\<close> is \<^verbatim>\<open>userSubs\<close>, a map from user IDs to sets of channel references, \<open>hb_heap\<close>
  the channels. The hub never closes a channel. \<open>hub_step\<close> interleaves publication,
  subscription, unsubscription and readers and keeps a log; \<open>hub_log_inv\<close> says that a
  subscriber sees a subsequence of the JSON texts of its own user's events, in order.
\<close>

section \<open>Hub\<close>

record hub =
  hb_subs :: "(string, nat list) gomap"
  hb_heap :: "nat \<Rightarrow> string chan"
  hb_next :: nat

definition NewHub :: hub where
  "NewHub = \<lparr>hb_subs = [], hb_heap = (\<lambda>_. make_chan 0), hb_next = 0\<rparr>"

text \<open>\<^verbatim>\<open>h.userSubs[userID]\<close>: the nil map of an absent key reads as empty.\<close>

definition user_subs :: "hub \<Rightarrow> string \<Rightarrow> nat list" where
  "user_subs h u = (case map_of (hb_subs h) u of Some is \<Rightarrow> is | None \<Rightarrow> [])"

definition hub_subscribe :: "string \<Rightarrow> hub \<Rightarrow> nat \<times> hub" where
  "hub_subscribe u h =
     (let i = hb_next h;
          h1 = (if map_of (hb_subs h) u = None
                then h\<lparr>hb_subs := AList.update u [] (hb_subs h)\<rparr> else h)
      in (i, h1\<lparr>hb_heap := (hb_heap h)(i := make_chan 64), hb_next := Suc i,
                hb_subs := AList.update u (i # user_subs h1 u) (hb_subs h1)\<rparr>))"

text \<open>The function \<^verbatim>\<open>Subscribe\<close> returns. Deleting from a nil map does nothing.\<close>

definition hub_unsub :: "string \<Rightarrow> nat \<Rightarrow> hub \<Rightarrow> hub" where
  "hub_unsub u i h =
     (let h1 = (case map_of (hb_subs h) u of
                  None \<Rightarrow> h
                | Some is \<Rightarrow> h\<lparr>hb_subs := AList.update u (removeAll i is) (hb_subs h)\<rparr>)
      in if user_subs h1 u = [] then h1\<lparr>hb_subs := AList.delete u (hb_subs h1)\<rparr> else h1)"

definition hub_publish :: "nat \<Rightarrow> task_event \<Rightarrow> hub \<Rightarrow> hub outcome" where
  "hub_publish p ev h =
     (let data = marshal_event ev
      in omap (\<lambda>hp. h\<lparr>hb_heap := hp\<rparr>)
           (offer_all data (range_order p (user_subs h (ev_UserID ev))) (hb_heap h)))"

definition hub_read :: "nat \<Rightarrow> hub \<Rightarrow> (string option \<times> hub) outcome" where
  "hub_read i h =
     omap (\<lambda>(r, c). (r, h\<lparr>hb_heap := (hb_heap h)(i := c)\<rparr>)) (chan_recv (hb_heap h i))"

section \<open>The concurrent hub\<close>

text \<open>
  \<open>hw_owner i\<close> is the user ID of subscription \<open>i\<close>, \<open>hw_log\<close> everything published,
  \<open>hw_since i\<close> its length at the subscription, \<open>hw_read i\<close> what the reader has taken.
\<close>

record hub_world =
  hw_hub :: hub
  hw_log :: "task_event list"
  hw_owner :: "nat \<Rightarrow> string"
  hw_since :: "nat \<Rightarrow> nat"
  hw_read :: "nat \<Rightarrow> string list"

inductive hub_step :: "hub_world \<Rightarrow> hub_world \<Rightarrow> bool" where
  step_publish:
    "hub_publish p ev (hw_hub w) = Ret h \<Longrightarrow>
     hub_step w (w\<lparr>hw_hub := h, hw_log := hw_log w @ [ev]\<rparr>)"
| step_subscribe:
    "hub_subscribe u (hw_hub w) = (i, h) \<Longrightarrow>
     hub_step w (w\<lparr>hw_hub := h, hw_owner := (hw_owner w)(i := u),
       hw_since := (hw_since w)(i := length (hw_log w)), hw_read := (hw_read w)(i := [])\<rparr>)"
| step_unsub:
    "hub_step w (w\<lparr>hw_hub := hub_unsub u i (hw_hub w)\<rparr>)"
| step_read:
    "i < hb_next (hw_hub w) \<Longrightarrow> hub_read i (hw_hub w) = Ret (Some data, h) \<Longrightarrow>
     hub_step w (w\<lparr>hw_hub := h, hw_read := (hw_read w)(i := hw_read w i @ [data])\<rparr>)"

definition hub_start :: hub_world where
  "hub_start = \<lparr>hw_hub = NewHub, hw_log = [], hw_owner = (\<lambda>_. []), hw_since = (\<lambda>_. 0),
     hw_read = (\<lambda>_. [])\<rparr>"

section \<open>Invariants\<close>

definition hub_inv :: "hub \<Rightarrow> bool" where
  "hub_inv h \<longleftrightarrow> distinct (map fst (hb_subs h)) \<and> (\<forall>i. \<not> ch_closed (hb_heap h i)) \<and>
     (\<forall>u. map_of (hb_subs h) u \<noteq> Some []) \<and>
     (\<forall>u. distinct (user_subs h u) \<and> (\<forall>i \<in> set (user_subs h u). i < hb_next h)) \<and>
     (\<forall>u v. u \<noteq> v \<longrightarrow> set (user_subs h u) \<inter> set (user_subs h v) = {})"

definition own_events :: "hub_world \<Rightarrow> nat \<Rightarrow> task_event list" where
  "own_events w i =
     filter (\<lambda>ev. ev_UserID ev = hw_owner w i) (drop (hw_since w i) (hw_log w))"

definition hub_log_inv :: "hub_world \<Rightarrow> bool" where
  "hub_log_inv w \<longleftrightarrow> hub_inv (hw_hub w) \<and> (\<forall>i. hw_since w i \<le> length (hw_log w)) \<and>
     (\<forall>u. \<forall>i \<in> set (user_subs (hw_hub w) u). hw_owner w i = u) \<and>
     (\<forall>i < hb_next (hw_hub w).
        subseq (hw_read w i @ ch_buf (hb_heap (hw_hub w) i)) (map marshal_event (own_events w i)))"

section \<open>Lemmas\<close>

lemma user_subs_heap [simp]: "user_subs (h\<lparr>hb_heap := hp\<rparr>) u = user_subs h u"
  by (simp add: user_subs_def)

lemma hub_subscribe_simps [simp]:
  "fst (hub_subscribe u h) = hb_next h"
  "hb_next (snd (hub_subscribe u h)) = Suc (hb_next h)"
  "hb_heap (snd (hub_subscribe u h)) = (hb_heap h)(hb_next h := make_chan 64)"
  "user_subs (snd (hub_subscribe u h)) v =
     (if v = u then hb_next h # user_subs h u else user_subs h v)"
  "map_of (hb_subs (snd (hub_subscribe u h))) =
     (map_of (hb_subs h))(u \<mapsto> hb_next h # user_subs h u)"
  by (auto simp: hub_subscribe_def Let_def user_subs_def fun_eq_iff split: option.split)

lemma hub_unsub_simps [simp]:
  "hb_next (hub_unsub u i h) = hb_next h"
  "hb_heap (hub_unsub u i h) = hb_heap h"
  "user_subs (hub_unsub u i h) v = (if v = u then removeAll i (user_subs h u) else user_subs h v)"
  by (auto simp: hub_unsub_def Let_def user_subs_def split: option.split)

lemma hub_unsub_map_of:
  "map_of (hb_subs (hub_unsub u i h)) = (map_of (hb_subs h))
     (u := if removeAll i (user_subs h u) = [] then None else Some (removeAll i (user_subs h u)))"
  by (auto simp: hub_unsub_def Let_def user_subs_def fun_eq_iff split: option.split)

lemma hub_inv_new [simp]: "hub_inv NewHub"
  by (simp add: hub_inv_def NewHub_def user_subs_def)

lemma hub_publish_eq:
  assumes "hub_inv h"
  shows "hub_publish p ev h = Ret (h\<lparr>hb_heap := \<lambda>i. if i \<in> set (user_subs h (ev_UserID ev))
    then offer (marshal_event ev) (hb_heap h i) else hb_heap h i\<rparr>)"
  using assms by (simp add: hub_publish_def offer_all_eq hub_inv_def Let_def)

lemma hub_inv_publish: "hub_inv h \<Longrightarrow> hub_publish p ev h = Ret h' \<Longrightarrow> hub_inv h'"
  by (auto simp: hub_publish_eq) (auto simp: hub_inv_def)

lemma hub_inv_subscribe: "hub_inv h \<Longrightarrow> hub_inv (snd (hub_subscribe u h))"
proof -
  assume inv: "hub_inv h"
  have "distinct (map fst (hb_subs (snd (hub_subscribe u h))))"
    using inv by (simp add: hub_inv_def hub_subscribe_def Let_def)
  moreover have "\<forall>u. hb_next h \<notin> set (user_subs h u)"
    using inv by (auto simp: hub_inv_def)
  ultimately show ?thesis
    using inv by (auto simp: hub_inv_def less_Suc_eq)
qed

lemma hub_inv_unsub: "hub_inv h \<Longrightarrow> hub_inv (hub_unsub u i h)"
proof -
  assume inv: "hub_inv h"
  have "distinct (map fst (hb_subs (hub_unsub u i h)))"
    using inv by (simp add: hub_inv_def hub_unsub_def Let_def split: option.split)
  with inv show ?thesis
    by (auto simp: hub_inv_def distinct_removeAll hub_unsub_map_of simp del: map_of_eq_Some_iff)
      blast+
qed

lemma hub_inv_read: "hub_inv h \<Longrightarrow> hub_read i h = Ret (r, h') \<Longrightarrow> hub_inv h'"
  by (fastforce simp: hub_inv_def hub_read_def chan_recv_def split: list.splits if_splits)

section \<open>Runs of the concurrent hub\<close>

lemma hub_log_inv_start: "hub_log_inv hub_start"
  by (simp add: hub_log_inv_def hub_start_def NewHub_def hub_inv_def user_subs_def)

lemma own_events_publish:
  assumes "hw_since w i \<le> length (hw_log w)"
  shows "own_events (w\<lparr>hw_hub := h, hw_log := hw_log w @ [ev]\<rparr>) i =
    own_events w i @ (if ev_UserID ev = hw_owner w i then [ev] else [])"
  using assms by (simp add: own_events_def)

lemma hub_step_log_inv:
  assumes "hub_step w w'" and inv: "hub_log_inv w"
  shows "hub_log_inv w'"
  using assms(1)
proof cases
  case (step_publish p ev h)
  let ?h = "hw_hub w"
  from inv step_publish have h: "h = ?h\<lparr>hb_heap := \<lambda>i. if i \<in> set (user_subs ?h (ev_UserID ev))
      then offer (marshal_event ev) (hb_heap ?h i) else hb_heap ?h i\<rparr>"
    by (simp add: hub_publish_eq hub_log_inv_def)
  have "hub_inv h"
    using step_publish(2) inv hub_inv_publish unfolding hub_log_inv_def by blast
  moreover have "subseq (hw_read w i @ ch_buf (hb_heap h i)) (map marshal_event (own_events w' i))"
    if "i < hb_next ?h" for i
  proof -
    have old: "subseq (hw_read w i @ ch_buf (hb_heap ?h i)) (map marshal_event (own_events w i))"
      and own: "i \<in> set (user_subs ?h (ev_UserID ev)) \<Longrightarrow> hw_owner w i = ev_UserID ev"
      and since: "hw_since w i \<le> length (hw_log w)"
      using inv that by (auto simp: hub_log_inv_def)
    have both: "subseq (hw_read w i @ ch_buf (hb_heap ?h i) @ [marshal_event ev])
        (map marshal_event (own_events w i) @ [marshal_event ev])"
      "subseq (hw_read w i @ ch_buf (hb_heap ?h i)) (map marshal_event (own_events w i) @ [x])" for x
      using list_emb_append_mono [OF old, of "[marshal_event ev]" "[marshal_event ev]"]
        subseq_order.trans [OF old, of "map marshal_event (own_events w i) @ [x]"] by auto
    show ?thesis
      using own old both unfolding step_publish(1) h own_events_publish [OF since]
      by (cases "i \<in> set (user_subs ?h (ev_UserID ev))") auto
  qed
  ultimately show ?thesis
    using step_publish inv by (simp add: hub_log_inv_def h le_SucI)
next
  case (step_subscribe u i h)
  from step_subscribe(2) have i: "i = hb_next (hw_hub w)" and h: "h = snd (hub_subscribe u (hw_hub w))"
    using hub_subscribe_simps(1) [of u "hw_hub w"] by simp_all
  have "\<forall>v. \<forall>j \<in> set (user_subs (hw_hub w) v). j \<noteq> hb_next (hw_hub w)"
    using inv by (auto simp: hub_log_inv_def hub_inv_def)
  with inv hub_inv_subscribe [of "hw_hub w" u] show ?thesis
    unfolding step_subscribe(1) i h
    by (auto simp: hub_log_inv_def own_events_def less_Suc_eq)
next
  case (step_unsub u i)
  with inv hub_inv_unsub [of "hw_hub w" u i] show ?thesis
    by (auto simp: hub_log_inv_def own_events_def)
next
  case (step_read i data h)
  with inv hub_inv_read [of "hw_hub w" i "Some data" h] show ?thesis
    by (auto simp: hub_log_inv_def hub_read_def own_events_def chan_recv_Some)
qed

lemma hub_steps_log_inv: "hub_step\<^sup>*\<^sup>* w w' \<Longrightarrow> hub_log_inv w \<Longrightarrow> hub_log_inv w'"
  by (induction rule: rtranclp_induct) (auto dest: hub_step_log_inv)

end
