(* ===== verification/Api.thy ===== *)
theory Api
  imports Http Manager Bridge Hub
begin

text \<open>
  \<^verbatim>\<open>shared/api/handlers.go\<close> and the task routes of the manager processes
  (\<^verbatim>\<open>patterns/p02/internal/app/manager.go\<close>): the HTTP handlers over a \<^verbatim>\<open>TaskManager\<close>, and
  the two server-sent-event streams.

  A stream is a loop over a \<^verbatim>\<open>select\<close>; \<open>stream_env\<close> gives, for each turn, the request's
  context, whether the heartbeat ticker has fired and which ready case is taken. The output
  is the text written to the response.
\<close>

section \<open>Identity\<close>

definition getUserID :: "http_request \<Rightarrow> string" where
  "getUserID rq =
     (if rq_XUserID rq \<noteq> [] then rq_XUserID rq
      else (case rq_Cookie rq of Some v \<Rightarrow> if v \<noteq> [] then v else [] | None \<Rightarrow> []))"

section \<open>Task handlers\<close>

definition id_body :: "string \<Rightarrow> string" where
  "id_body i = jtext (JObj [(''id'', JStr i)])"

text \<open>
  \<^verbatim>\<open>SubmitTask\<close>. \<open>u\<close> and \<open>t0\<close> are the values of \<^verbatim>\<open>uuid.New()\<close> and \<^verbatim>\<open>time.Now()\<close> in \<^verbatim>\<open>NewTask\<close>,
  \<open>now\<close> the time the manager reads; \<open>tpl\<close> says whether the router attached a template.
\<close>

definition SubmitTask :: "echo \<Rightarrow> bool \<Rightarrow> 'm task_manager \<Rightarrow> ctx \<Rightarrow> string \<Rightarrow> instant \<Rightarrow> instant \<Rightarrow>
    http_request \<Rightarrow> 'm \<Rightarrow> ((api_error + http_response) \<times> 'm) outcome" where
  "SubmitTask E tpl TM x u t0 now rq m =
     (case eo_bind_submit E (rq_Body rq) of
        None \<Rightarrow> Ret (Inl (HTTPError 400 ''invalid request body'' None), m)
      | Some req \<Rightarrow>
          if sr_Name req = [] then Ret (Inl (HTTPError 400 ''name is required'' None), m)
          else
            let count = (if sr_StageCount req < 1 then 3 else sr_StageCount req);
                t = (new_task u t0 (sr_Name req) count)\<lparr>task_UserID := getUserID rq\<rparr>
            in obind (tm_submit TM x now t m) (\<lambda>(err, m1).
                 case err of
                   Some e \<Rightarrow> Ret (Inl e, m1)
                 | None \<Rightarrow>
                     if rq_HXRequest rq = ''true'' then
                       (if \<not> tpl then Ret (Inl (HTTPError 500 ''template not configured'' None), m1)
                        else (case eo_template E ''task-card'' [t] of
                                Inl e \<Rightarrow> Ret (Inl (OtherError e), m1)
                              | Inr html \<Rightarrow> Ret (Inr (response 200 html), m1)))
                     else Ret (eo_json E 202 (Some (id_body (task_ID t))), m1)))"

definition ListTasks :: "echo \<Rightarrow> 'm task_manager \<Rightarrow> ctx \<Rightarrow> nat \<Rightarrow> 'm \<Rightarrow>
    ((api_error + http_response) \<times> 'm) outcome" where
  "ListTasks E TM x p m =
     obind (tm_list TM x p m) (\<lambda>(tasks, m1). Ret (eo_json E 200 (marshal_tasks tasks), m1))"

definition GetTask :: "echo \<Rightarrow> 'm task_manager \<Rightarrow> ctx \<Rightarrow> string \<Rightarrow> 'm \<Rightarrow>
    ((api_error + http_response) \<times> 'm) outcome" where
  "GetTask E TM x i m =
     obind (tm_get TM x i m) (\<lambda>(r, m1).
       case r of
         None \<Rightarrow> Ret (Inl (HTTPError 404 ''task not found'' None), m1)
       | Some t \<Rightarrow> Ret (eo_json E 200 (marshal_task t), m1))"

text \<open>\<^verbatim>\<open>Index\<close>: \<open>u\<close> is the identity minted for a browser that has none.\<close>

definition Index :: "echo \<Rightarrow> 'm task_manager \<Rightarrow> ctx \<Rightarrow> string \<Rightarrow> nat \<Rightarrow> http_request \<Rightarrow> 'm \<Rightarrow>
    ((api_error + http_response) \<times> 'm) outcome" where
  "Index E TM x u p rq m =
     (let known = getUserID rq;
          userID = (if known = [] then u else known);
          cookie = (if known = [] then Some u else None)
      in obind (tm_list TM x p m) (\<lambda>(alltasks, m1).
           let tasks = filter (\<lambda>t. task_UserID t = userID) alltasks
           in case eo_template E ''index.html'' tasks of
                Inl e \<Rightarrow> Ret (Inl (OtherError e), m1)
              | Inr html \<Rightarrow> Ret (Inr (response 200 html\<lparr>rs_Cookie := cookie\<rparr>), m1)))"

definition Health :: "echo \<Rightarrow> http_response" where
  "Health E = eo_string E 200 ''ok''"

text \<open>\<^verbatim>\<open>POST /tasks\<close> of the manager processes of patterns 2, 3 and 4.\<close>

definition manager_post_tasks :: "echo \<Rightarrow> 'm task_manager \<Rightarrow> ctx \<Rightarrow> instant \<Rightarrow> string \<Rightarrow> 'm \<Rightarrow>
    ((api_error + http_response) \<times> 'm) outcome" where
  "manager_post_tasks E TM x now body m =
     (case eo_bind_task E body of
        None \<Rightarrow> Ret (Inl (HTTPError 400 ''invalid task body'' None), m)
      | Some t \<Rightarrow>
          obind (tm_submit TM x now t m) (\<lambda>(err, m1).
            case err of
              Some e \<Rightarrow> Ret (Inl e, m1)
            | None \<Rightarrow> Ret (eo_json E 202 (Some (id_body (task_ID t))), m1)))"

text \<open>
  \<^verbatim>\<open>NewRouter\<close>: the routes of the API process that answer at once, over any \<^verbatim>\<open>TaskManager\<close>;
  every handler runs with the template attached. \<open>u\<close> is the identifier a handler mints,
  \<open>t0\<close> and \<open>now\<close> the times it and the manager read.
\<close>

definition NewRouter :: "echo \<Rightarrow> 'm task_manager \<Rightarrow> ctx \<Rightarrow> string \<Rightarrow> instant \<Rightarrow> instant \<Rightarrow> nat \<Rightarrow> route \<Rightarrow>
    http_request \<Rightarrow> 'm \<Rightarrow> (http_response \<times> 'm) outcome" where
  "NewRouter E TM x u t0 now p r rq m =
     omap (\<lambda>(resp, m1). (serve E resp, m1))
       (case r of
          GetHealth \<Rightarrow> Ret (Inr (Health E), m)
        | PostTasks \<Rightarrow> SubmitTask E True TM x u t0 now rq m
        | ListTasksRoute \<Rightarrow> ListTasks E TM x p m
        | GetTaskRoute i \<Rightarrow> GetTask E TM x i m
        | IndexRoute \<Rightarrow> Index E TM x u p rq m
        | _ \<Rightarrow> Ret (Inl (HTTPError 404 ''Not Found'' None), m))"

section \<open>Event streams\<close>

record stream_env =
  se_ctx :: ctx
  se_tick :: bool

definition connected_comment :: string where
  "connected_comment = '': connected'' @ [newline, newline]"

definition heartbeat_comment :: string where
  "heartbeat_comment = '': heartbeat'' @ [newline, newline]"

definition data_frame :: "string \<Rightarrow> string" where
  "data_frame payload = ''data: '' @ payload @ [newline, newline]"

text \<open>
  One turn of a stream reading a channel: \<^term>\<open>None\<close> in the first component means the
  handler returns. \<open>enc\<close> turns a received value into the text of its frame.
\<close>

definition on_tick :: "stream_env \<Rightarrow> 'a \<Rightarrow> 'a list" where
  "on_tick e a = (if se_tick e then [a] else [])"

text \<open>\<^verbatim>\<open>SSEStream\<close>: the hub's channels carry the JSON text.\<close>

definition sse_turn :: "nat \<Rightarrow> stream_env \<Rightarrow> hub \<Rightarrow> (string option \<times> hub) outcome" where
  "sse_turn i e h =
     select (ctx_pick (se_ctx e))
       (on_done (se_ctx e) (None, h) @
        on_recv [] (hb_heap h i) (\<lambda>payload c. (Some (data_frame payload), h\<lparr>hb_heap := (hb_heap h)(i := c)\<rparr>)) @
        on_tick e (Some heartbeat_comment, h))"

text \<open>The turns given, and whether the handler has returned by then.\<close>

fun sse_loop :: "nat \<Rightarrow> stream_env list \<Rightarrow> hub \<Rightarrow> (bool \<times> string \<times> hub) outcome" where
  "sse_loop i [] h = Ret (False, [], h)"
| "sse_loop i (e # es) h =
     obind (sse_turn i e h) (\<lambda>(r, h1).
       case r of
         None \<Rightarrow> Ret (True, [], h1)
       | Some txt \<Rightarrow> omap (\<lambda>(fin, txt', h2). (fin, txt @ txt', h2)) (sse_loop i es h1))"

text \<open>The deferred unsubscription runs when the handler returns.\<close>

definition SSEStream :: "http_request \<Rightarrow> stream_env list \<Rightarrow> hub \<Rightarrow> (string \<times> hub) outcome" where
  "SSEStream rq es h =
     (let userID = getUserID rq; (i, h1) = hub_subscribe userID h
      in omap (\<lambda>(fin, txt, h2). (connected_comment @ txt, if fin then hub_unsub userID i h2 else h2))
           (sse_loop i es h1))"

text \<open>\<^verbatim>\<open>BridgeStream\<close>: the bridge's channels carry events; a closed channel ends the stream.\<close>

definition bridge_turn :: "nat \<Rightarrow> stream_env \<Rightarrow> memory_bridge \<Rightarrow> (string option \<times> memory_bridge) outcome" where
  "bridge_turn i e b =
     select (ctx_pick (se_ctx e))
       (on_done (se_ctx e) (None, b) @
        (case bridge_read i b of
           Ret (Some ev, b1) \<Rightarrow> [(Some (data_frame (marshal_event ev)), b1)]
         | Ret (None, b1) \<Rightarrow> [(None, b1)]
         | _ \<Rightarrow> []) @
        on_tick e (Some heartbeat_comment, b))"

fun bridge_loop :: "nat \<Rightarrow> stream_env list \<Rightarrow> memory_bridge \<Rightarrow> (string \<times> memory_bridge) outcome" where
  "bridge_loop i [] b = Ret ([], b)"
| "bridge_loop i (e # es) b =
     obind (bridge_turn i e b) (\<lambda>(r, b1).
       case r of
         None \<Rightarrow> Ret ([], b1)
       | Some txt \<Rightarrow> omap (\<lambda>(txt', b2). (txt @ txt', b2)) (bridge_loop i es b1))"

definition BridgeStream :: "stream_env list \<Rightarrow> memory_bridge \<Rightarrow> (string \<times> memory_bridge) outcome" where
  "BridgeStream es b =
     (let (i, b1) = bridge_subscribe b
      in omap (\<lambda>(txt, b2). (connected_comment @ txt, b2)) (bridge_loop i es b1))"

end
