(* ===== verification/Client.thy ===== *)
theory Client
  imports Api
begin

text \<open>
  The API process of patterns 2 and 3: \<^verbatim>\<open>shared/client/manager.go\<close>, a \<^verbatim>\<open>TaskManager\<close> that
  proxies to the manager over HTTP, and \<^verbatim>\<open>shared/sse/client.go\<close>, which reads the manager's
  event stream.

  The network is an argument \<open>net\<close> of the proxy: what comes back for a route and a body,
  and the state of the other side afterwards. \<open>manager_net\<close> is the network that delivers
  every request to the manager's handlers. \<open>proxy_submit\<close>, \<open>proxy_get\<close> and
  \<open>proxy_list\<close> compare the proxy over it with direct calls; \<open>stream_lines_frames\<close> reads back
  a stream of frames.
\<close>

section \<open>RemoteTaskManager\<close>

type_synonym 'm network =
  "ctx \<Rightarrow> instant \<Rightarrow> nat \<Rightarrow> route \<Rightarrow> string \<Rightarrow> 'm \<Rightarrow> ((go_error + http_response) \<times> 'm) outcome"

definition remote_status_error :: "int \<Rightarrow> api_error option" where
  "remote_status_error st =
     (if st = 202 \<or> st = 200 then None
      else if st = 429 then Some (HTTPError 429 queue_full_message None)
      else if st = 503 then Some (HTTPError 503 no_workers_message None)
      else Some (OtherError (Errorf (''manager returned '' @ int_text st))))"

text \<open>The deadline, clock and map order of the manager's side travel with the call.\<close>

definition remote_submit :: "'m network \<Rightarrow> ctx \<Rightarrow> instant \<Rightarrow> task \<Rightarrow> 'm \<Rightarrow>
    (api_error option \<times> 'm) outcome" where
  "remote_submit net x now t m =
     (case marshal_task t of
        None \<Rightarrow> Ret (Some (OtherError (Errorf ''json: error calling MarshalJSON'')), m)
      | Some data \<Rightarrow>
          obind (net x now 0 PostTasks data m) (\<lambda>(r, m1).
            case r of
              Inl e \<Rightarrow> Ret (Some (OtherError e), m1)
            | Inr resp \<Rightarrow> Ret (remote_status_error (rs_Status resp), m1)))"

definition remote_get :: "'m network \<Rightarrow> ctx \<Rightarrow> string \<Rightarrow> 'm \<Rightarrow> (task option \<times> 'm) outcome" where
  "remote_get net x i m =
     obind (net x 0 0 (GetTaskRoute i) [] m) (\<lambda>(r, m1).
       case r of
         Inl e \<Rightarrow> Ret (None, m1)
       | Inr resp \<Rightarrow>
           if rs_Status resp = 404 then Ret (None, m1)
           else Ret (decode_task (rs_Body resp), m1))"

definition remote_list :: "'m network \<Rightarrow> ctx \<Rightarrow> nat \<Rightarrow> 'm \<Rightarrow> (task list \<times> 'm) outcome" where
  "remote_list net x p m =
     obind (net x 0 p ListTasksRoute [] m) (\<lambda>(r, m1).
       case r of
         Inl e \<Rightarrow> Ret ([], m1)
       | Inr resp \<Rightarrow>
           Ret (case decode_tasks (rs_Body resp) of None \<Rightarrow> [] | Some ts \<Rightarrow> ts, m1))"

definition remote_ops :: "'m network \<Rightarrow> 'm task_manager" where
  "remote_ops net = \<lparr>tm_submit = remote_submit net, tm_get = remote_get net, tm_list = remote_list net\<rparr>"

text \<open>The task routes of the manager process, reached without loss.\<close>

definition manager_net :: "echo \<Rightarrow> 'm task_manager \<Rightarrow> 'm network" where
  "manager_net E TM x now p r body m =
     omap (\<lambda>(resp, m1). (Inr (serve E resp), m1))
       (case r of
          PostTasks \<Rightarrow> manager_post_tasks E TM x now body m
        | ListTasksRoute \<Rightarrow> ListTasks E TM x p m
        | GetTaskRoute i \<Rightarrow> GetTask E TM x i m
        | GetHealth \<Rightarrow> Ret (Inr (Health E), m)
        | _ \<Rightarrow> Ret (Inl (HTTPError 404 ''Not Found'' None), m))"

section \<open>The SSE client\<close>

text \<open>
  \<^verbatim>\<open>bufio.Scanner\<close> with its default line splitter: lines end at a newline, a final line
  without one counts, one trailing carriage return is dropped, and a line that does not
  fit the 64 KiB buffer together with its newline ends the scan.
\<close>

definition drop_cr :: "string \<Rightarrow> string" where
  "drop_cr l = (if l \<noteq> [] \<and> last l = CHR 0x0D then butlast l else l)"

function scan_lines :: "string \<Rightarrow> string list" where
  "scan_lines s =
     (let l = takeWhile (\<lambda>c. c \<noteq> newline) s; r = dropWhile (\<lambda>c. c \<noteq> newline) s
      in if s = [] \<or> 65536 \<le> length l then []
         else drop_cr l # scan_lines (tl r))"
  by auto
termination
proof (relation "measure length", goal_cases)
  case (2 s x xa)
  then have "length xa \<le> length s" "0 < length s" by (simp_all add: length_dropWhile_le)
  then show ?case by (simp only: in_measure length_tl)
qed simp

declare scan_lines.simps [simp del]

text \<open>
  The loop of \<^verbatim>\<open>streamEvents\<close> over the scanned lines; \<open>cx\<close> gives the context at the check
  and at the send of each line.
\<close>

fun stream_lines :: "(nat \<Rightarrow> ctx) \<Rightarrow> nat \<Rightarrow> string list \<Rightarrow> task_event chan \<Rightarrow>
    (go_error option \<times> task_event chan) outcome" where
  "stream_lines cx k [] out = Ret (None, out)"
| "stream_lines cx k (line # ls) out =
     (if ctx_done (cx (2 * k)) then Ret (Some (ctx_err (cx (2 * k))), out)
      else if take 6 line = ''data: '' then
        (case unmarshal_event (drop 6 line) of
           None \<Rightarrow> stream_lines cx (Suc k) ls out
         | Some ev \<Rightarrow>
             if ch_closed out then Panic
             else obind (select (ctx_pick (cx (2 * k + 1)))
                 (on_send ev out Inr @ on_done (cx (2 * k + 1)) (Inl (ctx_err (cx (2 * k + 1))))))
               (\<lambda>r. case r of
                  Inl e \<Rightarrow> Ret (Some e, out)
                | Inr out1 \<Rightarrow> stream_lines cx (Suc k) ls out1))
      else stream_lines cx (Suc k) ls out)"

text \<open>\<^verbatim>\<open>streamEvents\<close>: \<open>resp\<close> is what the HTTP client returned, its body the whole stream.\<close>

definition stream_events :: "(nat \<Rightarrow> ctx) \<Rightarrow> go_error + http_response \<Rightarrow> task_event chan \<Rightarrow>
    (go_error option \<times> task_event chan) outcome" where
  "stream_events cx resp out =
     (case resp of
        Inl e \<Rightarrow> Ret (Some e, out)
      | Inr r \<Rightarrow>
          if rs_Status r \<noteq> 200
          then Ret (Some (Errorf (''SSE endpoint returned '' @ int_text (rs_Status r))), out)
          else stream_lines cx 0 (scan_lines (rs_Body r)) out)"

text \<open>\<^verbatim>\<open>Subscribe\<close> makes the channel the reconnect loop fills.\<close>

definition sse_channel :: "task_event chan" where
  "sse_channel = make_chan 64"

definition next_backoff :: "duration \<Rightarrow> duration" where
  "next_backoff b = (if 2 * b > 30 * Second then 30 * Second else 2 * b)"

text \<open>
  \<^verbatim>\<open>streamWithReconnect\<close> over the attempts given (the context before, after and at the wait,
  and what the connection brought), with the delays it waited for. The channel is closed
  when it returns; the flag says whether it has.
\<close>

record attempt =
  at_before :: bool
  at_stream :: "(nat \<Rightarrow> ctx) \<times> (go_error + http_response)"
  at_after :: bool
  at_wait :: ctx

fun stream_with_reconnect :: "duration \<Rightarrow> attempt list \<Rightarrow> task_event chan \<Rightarrow>
    (bool \<times> duration list \<times> task_event chan) outcome" where
  "stream_with_reconnect b [] out = Ret (False, [], out)"
| "stream_with_reconnect b (a # as) out =
     (if at_before a then omap (\<lambda>c. (True, [], c)) (chan_close out)
      else obind (stream_events (fst (at_stream a)) (snd (at_stream a)) out) (\<lambda>(_, out1).
        if at_after a then omap (\<lambda>c. (True, [], c)) (chan_close out1)
        else obind (select (ctx_pick (at_wait a)) (on_done (at_wait a) True @ [False])) (\<lambda>stop.
          if stop then omap (\<lambda>c. (True, [], c)) (chan_close out1)
          else omap (\<lambda>(fin, ds, out2). (fin, b # ds, out2))
                 (stream_with_reconnect (next_backoff b) as out1))))"

section \<open>The proxy over a network without loss\<close>

lemma remote_ops_simps [simp]:
  "tm_submit (remote_ops net) = remote_submit net" "tm_get (remote_ops net) = remote_get net"
  "tm_list (remote_ops net) = remote_list net"
  by (simp_all add: remote_ops_def)

text \<open>What the proxy makes of the manager's error.\<close>

definition proxy_error :: "api_error \<Rightarrow> api_error option" where
  "proxy_error e = remote_status_error (case e of HTTPError st _ _ \<Rightarrow> st | OtherError _ \<Rightarrow> 500)"

lemma proxy_submit:
  assumes "echo_ok E" and "task_encodable t" and "tm_submit TM x now t m = Ret (err, m1)"
  shows "remote_submit (manager_net E TM) x now t m =
    Ret (case err of None \<Rightarrow> None | Some e \<Rightarrow> proxy_error e, m1)"
proof -
  obtain s where s: "marshal_task t = Some s" "unmarshal_task s = Some t"
    using unmarshal_marshal_task [OF assms(2)] by blast
  have bind: "eo_bind_task E s = Some t" using assms(1) s(2) by (simp add: echo_laws)
  show ?thesis
  proof (cases err)
    case None
    with assms(3) bind s(1) echo_laws(1) [OF assms(1)] show ?thesis
      by (simp add: remote_submit_def manager_net_def manager_post_tasks_def remote_status_error_def)
  next
    case (Some e)
    have "rs_Status (eo_error E e) = (case e of HTTPError st _ _ \<Rightarrow> st | OtherError _ \<Rightarrow> 500)"
      using assms(1) by (cases e) (simp_all add: echo_laws)
    with Some assms(3) bind s(1) show ?thesis
      by (simp add: remote_submit_def manager_net_def manager_post_tasks_def proxy_error_def)
  qed
qed

lemma proxy_get:
  assumes "echo_ok E" and "tm_get TM x i m = Ret (r, m1)" and "\<forall>t. r = Some t \<longrightarrow> task_encodable t"
  shows "remote_get (manager_net E TM) x i m = Ret (r, m1)"
proof (cases r)
  case None
  with assms echo_laws(3) [OF assms(1), of 404] show ?thesis
    by (simp add: remote_get_def manager_net_def GetTask_def)
next
  case (Some t)
  then obtain s where "marshal_task t = Some s" "decode_task (s @ [newline]) = Some t"
    using unmarshal_marshal_task assms(3) by blast
  with Some assms(2) echo_laws(1) [OF assms(1)] show ?thesis
    by (simp add: remote_get_def manager_net_def GetTask_def)
qed

lemma proxy_list:
  assumes "echo_ok E" and "tm_list TM x p m = Ret (ts, m1)" and "list_all task_encodable ts"
  shows "remote_list (manager_net E TM) x p m = Ret (ts, m1)"
proof -
  obtain s where "marshal_tasks ts = Some s" "decode_tasks (s @ [newline]) = Some ts"
    using decode_marshal_tasks [OF assms(3)] by blast
  with assms(2) echo_laws(1) [OF assms(1)] show ?thesis
    by (simp add: remote_list_def manager_net_def ListTasks_def)
qed

section \<open>Reading a stream back\<close>

lemma scan_lines_line:
  assumes "newline \<notin> set l" and "length l < 65536"
  shows "scan_lines (l @ newline # rest) = drop_cr l # scan_lines rest"
proof -
  have "takeWhile (\<lambda>c. c \<noteq> newline) (l @ newline # rest) = l"
    "dropWhile (\<lambda>c. c \<noteq> newline) (l @ newline # rest) = newline # rest"
    using assms(1) by (induction l) auto
  with assms(2) show ?thesis by (subst scan_lines.simps) (simp add: Let_def)
qed

lemma scan_lines_Nil [simp]: "scan_lines [] = []"
  by (subst scan_lines.simps) simp

text \<open>What a stream consists of: a frame for an event, or a comment.\<close>

datatype chunk = Frame task_event | Comment string

fun chunk_text :: "chunk \<Rightarrow> string" where
  "chunk_text (Frame ev) = data_frame (marshal_event ev)"
| "chunk_text (Comment note_text) = '': '' @ note_text @ [newline, newline]"

fun chunk_events :: "chunk list \<Rightarrow> task_event list" where
  "chunk_events [] = []"
| "chunk_events (Frame ev # cs) = ev # chunk_events cs"
| "chunk_events (Comment note_text # cs) = chunk_events cs"

fun chunk_ok :: "chunk \<Rightarrow> bool" where
  "chunk_ok (Frame ev) \<longleftrightarrow> event_encodable ev \<and> length (marshal_event ev) < 65530"
| "chunk_ok (Comment note_text) \<longleftrightarrow> (\<forall>c \<in> set note_text. 32 \<le> byte c) \<and> length note_text < 65534"

lemma drop_cr_plain: "\<forall>c \<in> set l. 32 \<le> byte c \<Longrightarrow> drop_cr l = l"
  using last_in_set [of l] by (fastforce simp: drop_cr_def)

lemma plain_no_newline: "\<forall>c \<in> set l. 32 \<le> byte c \<Longrightarrow> newline \<notin> set l"
  by auto

lemma scan_lines_plain:
  assumes "\<forall>c \<in> set l. 32 \<le> byte c" and "length l < 65536"
  shows "scan_lines (l @ newline # newline # rest) = l # [] # scan_lines rest"
  using scan_lines_line [of l "newline # rest"] scan_lines_line [of "[]" rest] assms
  by (simp add: drop_cr_plain plain_no_newline)

lemma scan_lines_chunk:
  assumes "chunk_ok c"
  shows "scan_lines (chunk_text c @ rest) =
    (case c of Frame ev \<Rightarrow> ''data: '' @ marshal_event ev | Comment note_text \<Rightarrow> '': '' @ note_text) # [] # scan_lines rest"
proof (cases c)
  case (Frame ev)
  have "\<forall>x \<in> set (''data: '' @ marshal_event ev). 32 \<le> byte x"
    using assms Frame marshal_event_plain by auto
  from scan_lines_plain [OF this, of rest] assms Frame show ?thesis by (simp add: data_frame_def)
next
  case (Comment note_text)
  have "\<forall>x \<in> set ('': '' @ note_text). 32 \<le> byte x" using assms Comment by auto
  from scan_lines_plain [OF this, of rest] assms Comment show ?thesis by simp
qed

lemma stream_lines_frames:
  assumes "\<forall>k. \<not> ctx_done (cx k)" and "list_all chunk_ok cs" and "\<not> ch_closed out"
    and "length (ch_buf out) + length (chunk_events cs) \<le> ch_cap out"
  shows "stream_lines cx k (scan_lines (concat (map chunk_text cs))) out =
    Ret (None, out\<lparr>ch_buf := ch_buf out @ chunk_events cs\<rparr>)"
  using assms(2-4)
proof (induction cs arbitrary: k out)
  case Nil
  then show ?case by simp
next
  case (Cons c cs)
  show ?case
  proof (cases c)
    case (Frame ev)
    with Cons.prems have room: "chan_room out" and ev: "event_encodable ev" by (auto simp: chan_room_def)
    from Cons.IH [of "chan_push ev out" "Suc (Suc k)"] Cons.prems Frame
    have "stream_lines cx (Suc (Suc k)) (scan_lines (concat (map chunk_text cs))) (chan_push ev out) =
      Ret (None, out\<lparr>ch_buf := ch_buf out @ ev # chunk_events cs\<rparr>)"
      by (simp add: chan_push_def)
    with Frame Cons.prems assms(1) room ev scan_lines_chunk [of c] show ?thesis
      by (simp add: unmarshal_marshal del: chunk_text.simps)
  next
    case (Comment note_text)
    with Cons.IH [of out "Suc (Suc k)"] Cons.prems assms(1) scan_lines_chunk [of c] show ?thesis
      by (simp del: chunk_text.simps)
  qed
qed

text \<open>What \<^verbatim>\<open>BridgeStream\<close> writes is such a sequence: a frame per event it took, and comments.\<close>

lemma bridge_turn_chunk:
  assumes "bridge_turn i e b = Ret (Some txt', b1)"
  obtains c where "txt' = chunk_text c" "bridge_feed b i = chunk_events [c] @ bridge_feed b1 i"
    "(\<exists>ev. c = Frame ev) \<or> c = Comment ''heartbeat''"
proof -
  from assms have "(Some txt', b1) \<in> set (on_done (se_ctx e) (None, b) @
      (case bridge_read i b of Ret (Some ev, b1) \<Rightarrow> [(Some (data_frame (marshal_event ev)), b1)]
       | Ret (None, b1) \<Rightarrow> [(None, b1)] | _ \<Rightarrow> []) @ on_tick e (Some heartbeat_comment, b))"
    unfolding bridge_turn_def by (rule select_in)
  then consider (ev) ev where "bridge_read i b = Ret (Some ev, b1)" "txt' = data_frame (marshal_event ev)"
    | (tick) "b1 = b" "txt' = heartbeat_comment"
    by (cases "bridge_read i b") (auto simp: on_done_def on_tick_def split: option.splits if_splits)
  then show thesis
  proof cases
    case ev
    then have "bridge_feed b i = ev # bridge_feed b1 i"
      by (auto simp: bridge_read_def bridge_feed_def chan_recv_Some)
    with ev show thesis by (intro that [of "Frame ev"]) simp_all
  next
    case tick
    then show thesis by (intro that [of "Comment ''heartbeat''"]) (simp_all add: heartbeat_comment_def)
  qed
qed

lemma chunk_events_Cons: "chunk_events (c # cs) = chunk_events [c] @ chunk_events cs"
  by (cases c) simp_all

lemma bridge_loop_chunks:
  "bridge_loop i es b = Ret (txt', b') \<Longrightarrow>
     \<exists>cs. txt' = concat (map chunk_text cs) \<and> bridge_feed b i = chunk_events cs @ bridge_feed b' i \<and>
       (\<forall>c \<in> set cs. (\<exists>ev. c = Frame ev) \<or> c = Comment ''heartbeat'')"
proof (induction es arbitrary: b txt')
  case Nil
  then show ?case by (intro exI [of _ "[]"]) simp
next
  case (Cons e es)
  from Cons.prems obtain r b1 where r: "bridge_turn i e b = Ret (r, b1)"
    and k: "(case r of None \<Rightarrow> Ret ([], b1)
      | Some t1 \<Rightarrow> omap (\<lambda>(t2, b2). (t1 @ t2, b2)) (bridge_loop i es b1)) = Ret (txt', b')"
    by auto
  show ?case
  proof (cases r)
    case None
    have "bridge_feed b1 i = bridge_feed b i"
      using r None by (auto simp: bridge_turn_def bridge_read_def bridge_feed_def chan_recv_None on_done_def
          on_tick_def dest!: select_in split: outcome.splits option.splits if_splits)
    with None k show ?thesis by (intro exI [of _ "[]"]) auto
  next
    case (Some t1)
    with k obtain t2 where t2: "bridge_loop i es b1 = Ret (t2, b')" "txt' = t1 @ t2" by auto
    from Cons.IH [OF t2(1)] obtain cs where cs: "t2 = concat (map chunk_text cs)"
      "bridge_feed b1 i = chunk_events cs @ bridge_feed b' i"
      "\<forall>c \<in> set cs. (\<exists>ev. c = Frame ev) \<or> c = Comment ''heartbeat''" by blast
    from r Some obtain c where c: "t1 = chunk_text c" "bridge_feed b i = chunk_events [c] @ bridge_feed b1 i"
      "(\<exists>ev. c = Frame ev) \<or> c = Comment ''heartbeat''" by (auto elim: bridge_turn_chunk)
    from t2(2) cs c chunk_events_Cons [of c cs] show ?thesis by (intro exI [of _ "c # cs"]) auto
  qed
qed

lemma chunk_events_frames: "ev \<in> set (chunk_events cs) \<longleftrightarrow> Frame ev \<in> set cs"
  by (induction cs rule: chunk_events.induct) auto

lemma bridge_stream_events:
  assumes loop: "bridge_loop i es b = Ret (body, b')" and live: "\<forall>k. \<not> ctx_done (cx k)" "\<not> ch_closed out"
    and ok: "list_all (\<lambda>ev. event_encodable ev \<and> length (marshal_event ev) < 65530) (bridge_feed b i)"
    and room: "length (ch_buf out) + length (bridge_feed b i) \<le> ch_cap out"
  shows "\<exists>evs. bridge_feed b i = evs @ bridge_feed b' i \<and>
    stream_events cx (Inr (response 200 (connected_comment @ body))) out =
      Ret (None, out\<lparr>ch_buf := ch_buf out @ evs\<rparr>)"
proof -
  obtain cs where cs: "body = concat (map chunk_text cs)" "bridge_feed b i = chunk_events cs @ bridge_feed b' i"
    "\<forall>c \<in> set cs. (\<exists>ev. c = Frame ev) \<or> c = Comment ''heartbeat''"
    using bridge_loop_chunks [OF loop] by blast
  let ?cs = "Comment ''connected'' # cs"
  have "chunk_ok c" if "c \<in> set cs" for c
    using that cs(2,3) ok chunk_events_frames [of _ cs] by (fastforce simp: list_all_iff)
  then have ok': "list_all chunk_ok ?cs" by (simp add: list_all_iff)
  have text': "connected_comment @ body = concat (map chunk_text ?cs)"
    by (simp add: cs(1) connected_comment_def)
  have "length (ch_buf out) + length (chunk_events ?cs) \<le> ch_cap out" using room cs(2) by simp
  from stream_lines_frames [OF live(1) ok' live(2) this, of 0] cs(2) show ?thesis
    by (intro exI [of _ "chunk_events cs"]) (simp add: stream_events_def text' del: concat.simps list.map)
qed

section \<open>Reconnection delays\<close>

lemma reconnect_delays:
  "stream_with_reconnect b as out = Ret (fin, ds, out') \<Longrightarrow>
     ds = map (\<lambda>k. (next_backoff ^^ k) b) [0..<length ds]"
proof (induction as arbitrary: b out fin ds)
  case Nil
  then show ?case by simp
next
  case (Cons a as)
  show ?case
  proof (cases ds)
    case (Cons d ds')
    with Cons.prems obtain out1 where "d = b"
      "stream_with_reconnect (next_backoff b) as out1 = Ret (fin, ds', out')"
      by (auto split: if_splits)
    with Cons.IH have "d = b" "ds' = map (\<lambda>k. (next_backoff ^^ k) (next_backoff b)) [0..<length ds']" by blast+
    then show ?thesis
      unfolding Cons by (simp add: map_upt_Suc funpow_swap1 del: upt_Suc)
  qed simp
qed

lemma next_backoff_iterate: "(next_backoff ^^ k) Second = min (2 ^ k * Second) (30 * Second)"
  by (induction k) (auto simp: next_backoff_def min_def)

end
