(* ===== verification/Channel.thy ===== *)
theory Channel
  imports Executor
begin

text \<open>
  Pattern 1, \<^verbatim>\<open>patterns/p01/internal/goroutine\<close> and \<^verbatim>\<open>patterns/p01/internal/worker\<close>: the
  in-process transport. \<^verbatim>\<open>New\<close> makes the two buffered channels; the dispatcher and the
  consumer are the two views of the same pair, the record \<open>channel_link\<close>.

  Interpretations: \<open>channel_disp\<close> (\<open>dispatcher_contract\<close>), \<open>channel_emitter\<close>
  (\<open>reliable_emitter\<close>) and \<open>channel_queue\<close> (\<open>work_queue\<close>).
\<close>

section \<open>The shared channels\<close>

record channel_link =
  cl_tasks :: "task chan"
  cl_events :: "task_event chan"

text \<open>\<^verbatim>\<open>make(chan T, n)\<close> panics for a negative size.\<close>

definition goroutine_New :: "int \<Rightarrow> channel_link outcome" where
  "goroutine_New queueSize =
     (if queueSize < 0 then Panic
      else Ret \<lparr>cl_tasks = make_chan (nat queueSize), cl_events = make_chan 256\<rparr>)"

section \<open>ChannelDispatcher\<close>

definition channel_start :: "ctx \<Rightarrow> channel_link \<Rightarrow> go_error option \<times> channel_link" where
  "channel_start c l = (None, l)"

definition channel_dispatch ::
    "ctx \<Rightarrow> task \<Rightarrow> channel_link \<Rightarrow> (go_error option \<times> channel_link) outcome" where
  "channel_dispatch c t l =
     omap (\<lambda>(sent, ch). (if sent then None else Some ErrDispatchFull, l\<lparr>cl_tasks := ch\<rparr>))
       (chan_try_send t (cl_tasks l))"

definition channel_receive_event ::
    "ctx \<Rightarrow> channel_link \<Rightarrow> ((go_error + task_event) \<times> channel_link) outcome" where
  "channel_receive_event c l =
     select (ctx_pick c)
       (on_done c (Inl (ctx_err c), l) @
        on_recv zero_event (cl_events l) (\<lambda>ev ch. (Inr ev, l\<lparr>cl_events := ch\<rparr>)))"

definition channel_dispatcher_ops :: "channel_link task_dispatcher" where
  "channel_dispatcher_ops = \<lparr>td_start = channel_start, td_dispatch = channel_dispatch,
     td_receive_event = channel_receive_event\<rparr>"

section \<open>ChannelConsumer\<close>

definition channel_connect :: "ctx \<Rightarrow> channel_link \<Rightarrow> (go_error option \<times> channel_link) outcome" where
  "channel_connect c l = Ret (None, l)"

definition channel_receive :: "ctx \<Rightarrow> channel_link \<Rightarrow> ((go_error + task) \<times> channel_link) outcome" where
  "channel_receive c l =
     select (ctx_pick c)
       (on_done c (Inl (ctx_err c), l) @
        on_recv zero_task (cl_tasks l) (\<lambda>t ch. (Inr t, l\<lparr>cl_tasks := ch\<rparr>)))"

definition channel_emit ::
    "ctx \<Rightarrow> task_event \<Rightarrow> channel_link \<Rightarrow> (go_error option \<times> channel_link) outcome" where
  "channel_emit c ev l =
     (if ev_Type ev = EventTaskStatus \<and> (ev_Status ev = TaskCompleted \<or> ev_Status ev = TaskFailed)
      then omap (\<lambda>ch. (None, l\<lparr>cl_events := ch\<rparr>)) (chan_send ev (cl_events l))
      else omap (\<lambda>(_, ch). (None, l\<lparr>cl_events := ch\<rparr>)) (chan_try_send ev (cl_events l)))"

definition channel_consumer_ops :: "channel_link task_consumer" where
  "channel_consumer_ops = \<lparr>tc_connect = channel_connect, tc_receive = channel_receive,
     tc_emit = channel_emit\<rparr>"

section \<open>The worker loop\<close>

text \<open>
  One turn of \<^verbatim>\<open>RunWorker\<close>: receive a task and execute it; the flag is False when the loop
  returns because \<^verbatim>\<open>Receive\<close> failed.
\<close>

definition run_worker_turn ::
    "'c task_consumer \<Rightarrow> executor \<Rightarrow> ctx \<Rightarrow> run_env \<Rightarrow> 'c \<Rightarrow> (bool \<times> 'c) outcome" where
  "run_worker_turn TC e x w c =
     obind (tc_receive TC x c) (\<lambda>(r, c1).
       case r of Inl _ \<Rightarrow> Ret (False, c1)
       | Inr t \<Rightarrow> omap (\<lambda>c2. (True, c2)) (exec_run TC e w t c1))"

text \<open>The loop itself, for as many turns as environments are given.\<close>

fun run_worker :: "'c task_consumer \<Rightarrow> executor \<Rightarrow> (ctx \<times> run_env) list \<Rightarrow> 'c \<Rightarrow> (bool \<times> 'c) outcome" where
  "run_worker TC e [] c = Ret (True, c)"
| "run_worker TC e ((x, w) # xs) c =
     obind (run_worker_turn TC e x w c) (\<lambda>(more, c1).
       if more then run_worker TC e xs c1 else Ret (False, c1))"

section \<open>Invariant\<close>

definition link_inv :: "channel_link \<Rightarrow> bool" where
  "link_inv l \<longleftrightarrow> \<not> ch_closed (cl_tasks l) \<and> \<not> ch_closed (cl_events l) \<and>
     chan_ok (cl_tasks l) \<and> chan_ok (cl_events l)"

definition link_queued :: "channel_link \<Rightarrow> task multiset" where
  "link_queued l = mset (ch_buf (cl_tasks l))"

definition link_inbox :: "channel_link \<Rightarrow> task_event list" where
  "link_inbox l = ch_buf (cl_events l)"

text \<open>The two ends of the task channel as a work queue.\<close>

definition channel_push :: "task \<Rightarrow> channel_link \<Rightarrow> bool \<times> channel_link" where
  "channel_push t l =
     (case channel_dispatch Background t l of
        Ret (e, l') \<Rightarrow> (e = None, l') | _ \<Rightarrow> (False, l))"

definition channel_pop :: "channel_link \<Rightarrow> (task \<times> channel_link) option" where
  "channel_pop l =
     (case channel_receive Background l of Ret (Inr t, l') \<Rightarrow> Some (t, l') | _ \<Rightarrow> None)"

section \<open>Lemmas\<close>

lemma channel_ops_simps [simp]:
  "td_start channel_dispatcher_ops = channel_start"
  "td_dispatch channel_dispatcher_ops = channel_dispatch"
  "td_receive_event channel_dispatcher_ops = channel_receive_event"
  "tc_connect channel_consumer_ops = channel_connect"
  "tc_receive channel_consumer_ops = channel_receive"
  "tc_emit channel_consumer_ops = channel_emit"
  by (simp_all add: channel_dispatcher_ops_def channel_consumer_ops_def)

lemma goroutine_New_inv: "goroutine_New n = Ret l \<Longrightarrow> link_inv l"
  by (auto simp: goroutine_New_def link_inv_def split: if_splits)

lemma channel_dispatch_open:
  "link_inv l \<Longrightarrow> channel_dispatch c t l =
     (if chan_room (cl_tasks l) then Ret (None, l\<lparr>cl_tasks := chan_push t (cl_tasks l)\<rparr>)
      else Ret (Some ErrDispatchFull, l))"
  by (simp add: channel_dispatch_def link_inv_def chan_try_send_open)

lemma channel_receive_event_cases:
  assumes "link_inv l"
  shows "channel_receive_event c l = select (ctx_pick c) (on_done c (Inl (ctx_err c), l) @
    (case link_inbox l of [] \<Rightarrow> []
     | ev # evs \<Rightarrow> [(Inr ev, l\<lparr>cl_events := (cl_events l)\<lparr>ch_buf := evs\<rparr>\<rparr>)]))"
  using assms by (simp add: channel_receive_event_def link_inv_def on_recv_open link_inbox_def)

lemma channel_receive_cases:
  assumes "link_inv l"
  shows "channel_receive c l = select (ctx_pick c) (on_done c (Inl (ctx_err c), l) @
    (case ch_buf (cl_tasks l) of [] \<Rightarrow> []
     | t # ts \<Rightarrow> [(Inr t, l\<lparr>cl_tasks := (cl_tasks l)\<lparr>ch_buf := ts\<rparr>\<rparr>)]))"
  using assms by (simp add: channel_receive_def link_inv_def on_recv_open)

lemma link_inv_pop_event:
  "link_inv l \<Longrightarrow> ch_buf (cl_events l) = ev # evs \<Longrightarrow>
     link_inv (l\<lparr>cl_events := (cl_events l)\<lparr>ch_buf := evs\<rparr>\<rparr>)"
  by (simp add: link_inv_def chan_ok_def)

lemma link_inv_pop_task:
  "link_inv l \<Longrightarrow> ch_buf (cl_tasks l) = t # ts \<Longrightarrow>
     link_inv (l\<lparr>cl_tasks := (cl_tasks l)\<lparr>ch_buf := ts\<rparr>\<rparr>)"
  by (simp add: link_inv_def chan_ok_def)

lemma link_inv_push_task:
  "link_inv l \<Longrightarrow> chan_room (cl_tasks l) \<Longrightarrow> link_inv (l\<lparr>cl_tasks := chan_push t (cl_tasks l)\<rparr>)"
  by (simp add: link_inv_def chan_ok_push)

lemma link_inv_push_event:
  "link_inv l \<Longrightarrow> chan_room (cl_events l) \<Longrightarrow> link_inv (l\<lparr>cl_events := chan_push ev (cl_events l)\<rparr>)"
  by (simp add: link_inv_def chan_ok_push)

interpretation channel_disp:
  dispatcher_contract channel_dispatcher_ops link_inv link_queued link_inbox "\<lambda>_. True"
proof unfold_locales
  fix d c t e d' x
  assume inv: "link_inv d"
  show "\<exists>r. td_dispatch channel_dispatcher_ops c t d = Ret r"
    using inv by (simp add: channel_dispatch_open)
  show "td_dispatch channel_dispatcher_ops c t d = Ret (None, d') \<Longrightarrow> link_queued d' = add_mset t (link_queued d)"
    "td_dispatch channel_dispatcher_ops c t d = Ret (Some x, d') \<Longrightarrow> link_queued d' = link_queued d"
    using inv by (auto simp: channel_dispatch_open link_queued_def split: if_splits)
  assume "td_dispatch channel_dispatcher_ops c t d = Ret (e, d')"
  with inv have d: "d' = d \<or> chan_room (cl_tasks d) \<and> d' = d\<lparr>cl_tasks := chan_push t (cl_tasks d)\<rparr>"
    by (auto simp: channel_dispatch_open split: if_splits)
  then show "link_inv d'" using inv by (auto simp: link_inv_push_task)
  show "link_inbox d' = link_inbox d"
    using d by (auto simp: link_inbox_def)
next
  fix d c d' ev and x
  assume inv: "link_inv d"
  show "td_receive_event channel_dispatcher_ops c d = Ret (Inr ev, d') \<Longrightarrow>
      link_inbox d = ev # link_inbox d' \<and> link_queued d' = link_queued d \<and> link_inv d'"
    using inv by (auto simp: channel_receive_event_cases link_inbox_def link_queued_def on_done_def
        link_inv_pop_event dest!: select_in split: list.splits if_splits)
  show "td_receive_event channel_dispatcher_ops c d = Ret (Inl x, d') \<Longrightarrow>
      ctx_done c \<and> x = ctx_err c \<and> d' = d"
    using inv by (auto simp: channel_receive_event_cases on_done_def dest!: select_in
        split: list.splits if_splits)
  show "(td_receive_event channel_dispatcher_ops c d = Block) = (\<not> ctx_done c \<and> link_inbox d = [])"
    using inv by (simp add: channel_receive_event_cases select_Block on_done_def split: list.split)
  show "td_receive_event channel_dispatcher_ops c d \<noteq> Panic"
    using inv by (simp add: channel_receive_event_cases)
qed

lemma channel_emit_open:
  assumes "link_inv l"
  shows "channel_emit c ev l =
    (if chan_room (cl_events l) then Ret (None, l\<lparr>cl_events := chan_push ev (cl_events l)\<rparr>)
     else if is_terminal ev then Block else Ret (None, l))"
  using assms by (auto simp: channel_emit_def is_terminal_def link_inv_def chan_try_send_open
      chan_send_def)

interpretation channel_emitter: reliable_emitter channel_consumer_ops link_inv link_inbox "\<lambda>ev. ev" "\<lambda>_. True" "\<lambda>_. True"
proof unfold_locales
  fix c x ev e c'
  assume inv: "link_inv c"
  show "tc_emit channel_consumer_ops x ev c = Ret (e, c') \<Longrightarrow> link_inv c'"
    using inv by (auto simp: channel_emit_open link_inv_push_event split: if_splits)
  show "tc_emit channel_consumer_ops x ev c \<noteq> Panic"
    using inv by (simp add: channel_emit_open)
  show "is_terminal ev \<Longrightarrow> tc_emit channel_consumer_ops x ev c = Ret (e, c') \<Longrightarrow>
      link_inbox c' = link_inbox c @ [ev]"
    using inv by (auto simp: channel_emit_open link_inbox_def split: if_splits)
  show "\<not> is_terminal ev \<Longrightarrow> \<exists>e c'. tc_emit channel_consumer_ops x ev c = Ret (e, c') \<and>
      (link_inbox c' = link_inbox c \<or> link_inbox c' = link_inbox c @ [ev])"
    using inv by (auto simp: channel_emit_open link_inbox_def)
qed

lemma channel_push_eq:
  "link_inv l \<Longrightarrow> channel_push t l =
     (if chan_room (cl_tasks l) then (True, l\<lparr>cl_tasks := chan_push t (cl_tasks l)\<rparr>) else (False, l))"
  by (simp add: channel_push_def channel_dispatch_open)

lemma channel_pop_eq:
  "link_inv l \<Longrightarrow> channel_pop l = (case ch_buf (cl_tasks l) of [] \<Rightarrow> None
     | t # ts \<Rightarrow> Some (t, l\<lparr>cl_tasks := (cl_tasks l)\<lparr>ch_buf := ts\<rparr>\<rparr>))"
  by (simp add: channel_pop_def channel_receive_cases split: list.split)

interpretation channel_queue: work_queue channel_push channel_pop
  "\<lambda>l. ch_buf (cl_tasks l)" "\<lambda>l. ch_cap (cl_tasks l)" link_inv
proof unfold_locales
  fix q t q' and b :: bool
  assume inv: "link_inv q"
  show "channel_push t q = (True, q') \<Longrightarrow> ch_buf (cl_tasks q') = ch_buf (cl_tasks q) @ [t] \<and>
      length (ch_buf (cl_tasks q)) < ch_cap (cl_tasks q)"
    using inv by (auto simp: channel_push_eq chan_room_def split: if_splits)
  show "channel_push t q = (False, q') \<Longrightarrow> q' = q \<and>
      ch_cap (cl_tasks q) \<le> length (ch_buf (cl_tasks q))"
    using inv by (auto simp: channel_push_eq chan_room_def split: if_splits)
  show "channel_push t q = (b, q') \<Longrightarrow> ch_cap (cl_tasks q') = ch_cap (cl_tasks q) \<and> link_inv q'"
    using inv by (auto simp: channel_push_eq link_inv_push_task split: if_splits)
  show "channel_pop q = Some (t, q') \<Longrightarrow> ch_buf (cl_tasks q) = t # ch_buf (cl_tasks q') \<and>
      ch_cap (cl_tasks q') = ch_cap (cl_tasks q) \<and> link_inv q'"
    using inv by (auto simp: channel_pop_eq link_inv_pop_task split: list.splits)
  show "(channel_pop q = None) = (ch_buf (cl_tasks q) = [])"
    using inv by (simp add: channel_pop_eq split: list.split)
qed

end
