(* ===== verification/Rest.thy ===== *)
theory Rest
  imports Client Channel
begin

text \<open>
  Pattern 2, \<^verbatim>\<open>patterns/p02/internal/rest\<close> and the worker loop of
  \<^verbatim>\<open>patterns/p02/internal/app\<close>: workers poll the manager over HTTP.

  \<^item> \<open>rest_dispatcher\<close> is the manager's side: the two channels, \<^verbatim>\<open>Dispatch\<close>,
    \<^verbatim>\<open>ReceiveEvent\<close> and the two worker endpoints \<^verbatim>\<open>HandleNext\<close> and \<^verbatim>\<open>HandleEvent\<close>.
  \<^item> \<open>rest_receive\<close> and \<open>rest_emit\<close> are the worker's side over a network; \<open>rest_net\<close> is
    the network that reaches the two endpoints.
  \<^item> Interpretations: \<open>rest_disp\<close> (\<open>dispatcher_contract\<close>), \<open>rest_queue\<close>
    (\<open>work_queue\<close>), and, for every framework that keeps its laws, \<open>reliable_emitter\<close>
    through the locale \<open>rest_transport\<close>.
\<close>

section \<open>RESTDispatcher\<close>

record rest_dispatcher =
  rd_tasks :: "task chan"
  rd_events :: "task_event chan"

definition NewRESTDispatcher :: "int \<Rightarrow> rest_dispatcher outcome" where
  "NewRESTDispatcher queueSize =
     (if queueSize < 0 then Panic
      else Ret \<lparr>rd_tasks = make_chan (nat queueSize), rd_events = make_chan 256\<rparr>)"

definition rest_start :: "ctx \<Rightarrow> rest_dispatcher \<Rightarrow> go_error option \<times> rest_dispatcher" where
  "rest_start c d = (None, d)"

definition rest_dispatch ::
    "ctx \<Rightarrow> task \<Rightarrow> rest_dispatcher \<Rightarrow> (go_error option \<times> rest_dispatcher) outcome" where
  "rest_dispatch c t d =
     omap (\<lambda>(sent, ch). (if sent then None else Some ErrDispatchFull, d\<lparr>rd_tasks := ch\<rparr>))
       (chan_try_send t (rd_tasks d))"

definition rest_receive_event ::
    "ctx \<Rightarrow> rest_dispatcher \<Rightarrow> ((go_error + task_event) \<times> rest_dispatcher) outcome" where
  "rest_receive_event c d =
     select (ctx_pick c)
       (on_recv zero_event (rd_events d) (\<lambda>ev ch. (Inr ev, d\<lparr>rd_events := ch\<rparr>)) @
        on_done c (Inl (ctx_err c), d))"

definition rest_dispatcher_ops :: "rest_dispatcher task_dispatcher" where
  "rest_dispatcher_ops = \<lparr>td_start = rest_start, td_dispatch = rest_dispatch,
     td_receive_event = rest_receive_event\<rparr>"

text \<open>The receive of \<^verbatim>\<open>HandleNext\<close>: \<^term>\<open>None\<close> is its default branch.\<close>

definition rest_take :: "rest_dispatcher \<Rightarrow> (task \<times> rest_dispatcher) option" where
  "rest_take d =
     (case chan_recv (rd_tasks d) of
        Ret (Some t, ch) \<Rightarrow> Some (t, d\<lparr>rd_tasks := ch\<rparr>)
      | Ret (None, ch) \<Rightarrow> Some (zero_task, d\<lparr>rd_tasks := ch\<rparr>)
      | _ \<Rightarrow> None)"

definition HandleNext :: "echo \<Rightarrow> rest_dispatcher \<Rightarrow> (api_error + http_response) \<times> rest_dispatcher" where
  "HandleNext E d =
     (case rest_take d of
        Some (t, d1) \<Rightarrow> (eo_json E 200 (marshal_task t), d1)
      | None \<Rightarrow> (Inr (eo_no_content E 204), d))"

text \<open>\<^verbatim>\<open>HandleEvent\<close>; \<open>x\<close> is the context of the request.\<close>

definition HandleEvent :: "echo \<Rightarrow> ctx \<Rightarrow> string \<Rightarrow> rest_dispatcher \<Rightarrow>
    ((api_error + http_response) \<times> rest_dispatcher) outcome" where
  "HandleEvent E x body d =
     (case eo_bind_event E body of
        None \<Rightarrow> Ret (Inl (HTTPError 400 ''invalid event body'' None), d)
      | Some ev \<Rightarrow>
          omap (\<lambda>ch. (Inr (eo_no_content E 204), d\<lparr>rd_events := ch\<rparr>))
            (if ev_Type ev = EventTaskStatus \<and>
                (ev_Status ev = TaskCompleted \<or> ev_Status ev = TaskFailed)
             then (if ch_closed (rd_events d) then Panic
                   else select (ctx_pick x)
                     (on_send ev (rd_events d) (\<lambda>ch. ch) @ on_done x (rd_events d)))
             else omap snd (chan_try_send ev (rd_events d))))"

section \<open>RESTConsumer\<close>

text \<open>
  \<open>rc_bad_url\<close> is the error \<^verbatim>\<open>http.NewRequestWithContext\<close> reports when the configured
  manager URL does not parse.
\<close>

record rest_consumer =
  rc_bad_url :: "go_error option"

definition rest_connect :: "ctx \<Rightarrow> 'm \<Rightarrow> (go_error option \<times> 'm) outcome" where
  "rest_connect c m = Ret (None, m)"

text \<open>
  A sleep that respects cancellation, then the next poll. The result carries the sleeps
  that elapsed.
\<close>

definition rest_sleep :: "ctx \<Rightarrow> duration \<Rightarrow> ('m \<Rightarrow> ((duration list \<times> (go_error + task)) \<times> 'm) outcome) \<Rightarrow>
    'm \<Rightarrow> ((duration list \<times> (go_error + task)) \<times> 'm) outcome" where
  "rest_sleep x d again m =
     obind (select (ctx_pick x) (on_done x True @ [False])) (\<lambda>stop.
       if stop then Ret (([], Inl (ctx_err x)), m)
       else omap (\<lambda>((ds, r), m1). ((d # ds, r), m1)) (again m))"

text \<open>
  \<^verbatim>\<open>Receive\<close> over the contexts of its successive polls; with no poll left it is still
  polling.
\<close>

primrec rest_receive :: "rest_consumer \<Rightarrow> 'm network \<Rightarrow> ctx list \<Rightarrow> 'm \<Rightarrow>
    ((duration list \<times> (go_error + task)) \<times> 'm) outcome" where
  "rest_receive rc net [] = (\<lambda>m. Block)"
| "rest_receive rc net (x # xs) = (\<lambda>m.
     case rc_bad_url rc of
       Some e \<Rightarrow> Ret (([], Inl e), m)
     | None \<Rightarrow>
         obind (net x 0 0 WorkNext [] m) (\<lambda>(r, m1).
           case r of
             Inl e \<Rightarrow> rest_sleep x (2 * Second) (rest_receive rc net xs) m1
           | Inr resp \<Rightarrow>
               if rs_Status resp = 204
               then rest_sleep x (500 * Millisecond) (rest_receive rc net xs) m1
               else if rs_Status resp = 200 then
                 (case decode_task (rs_Body resp) of
                    None \<Rightarrow> rest_sleep x (2 * Second) (rest_receive rc net xs) m1
                  | Some t \<Rightarrow> Ret (([], Inr t), m1))
               else rest_sleep x (2 * Second) (rest_receive rc net xs) m1))"

definition rest_emit :: "rest_consumer \<Rightarrow> 'm network \<Rightarrow> ctx \<Rightarrow> task_event \<Rightarrow> 'm \<Rightarrow>
    (go_error option \<times> 'm) outcome" where
  "rest_emit rc net x ev m =
     (let data = marshal_event ev
      in case rc_bad_url rc of
           Some e \<Rightarrow> Ret (Some e, m)
         | None \<Rightarrow>
             obind (net x 0 0 WorkEvents data m) (\<lambda>(r, m1).
               case r of Inl e \<Rightarrow> Ret (Some e, m1) | Inr _ \<Rightarrow> Ret (None, m1)))"

text \<open>The consumer, seen for a bounded number of polls per \<^verbatim>\<open>Receive\<close>.\<close>

definition rest_consumer_ops :: "rest_consumer \<Rightarrow> 'm network \<Rightarrow> nat \<Rightarrow> 'm task_consumer" where
  "rest_consumer_ops rc net n = \<lparr>tc_connect = rest_connect,
     tc_receive = (\<lambda>x m. omap (\<lambda>((_, r), m1). (r, m1)) (rest_receive rc net (replicate n x) m)),
     tc_emit = rest_emit rc net\<rparr>"

text \<open>
  The worker routes of the manager's router, for a client that gives up when its context is
  cancelled before the request is sent.
\<close>

definition rest_net :: "echo \<Rightarrow> rest_dispatcher network" where
  "rest_net E x now p r body d =
     (if ctx_done x then Ret (Inl (ctx_err x), d)
      else (case r of
          WorkNext \<Rightarrow> (let (resp, d1) = HandleNext E d in Ret (Inr (serve E resp), d1))
        | WorkEvents \<Rightarrow> omap (\<lambda>(resp, d1). (Inr (serve E resp), d1)) (HandleEvent E x body d)
        | _ \<Rightarrow> Ret (Inr (eo_error E (HTTPError 404 ''Not Found'' None)), d)))"

section \<open>Invariant\<close>

definition rest_inv :: "rest_dispatcher \<Rightarrow> bool" where
  "rest_inv d \<longleftrightarrow> \<not> ch_closed (rd_tasks d) \<and> \<not> ch_closed (rd_events d) \<and>
     chan_ok (rd_tasks d) \<and> chan_ok (rd_events d)"

definition rest_queued :: "rest_dispatcher \<Rightarrow> task multiset" where
  "rest_queued d = mset (ch_buf (rd_tasks d))"

definition rest_inbox :: "rest_dispatcher \<Rightarrow> task_event list" where
  "rest_inbox d = ch_buf (rd_events d)"

definition rest_push :: "task \<Rightarrow> rest_dispatcher \<Rightarrow> bool \<times> rest_dispatcher" where
  "rest_push t d =
     (case rest_dispatch Background t d of
        Ret (e, d') \<Rightarrow> (e = None, d') | _ \<Rightarrow> (False, d))"

section \<open>Lemmas\<close>

lemma rest_ops_simps [simp]:
  "td_start rest_dispatcher_ops = rest_start"
  "td_dispatch rest_dispatcher_ops = rest_dispatch"
  "td_receive_event rest_dispatcher_ops = rest_receive_event"
  "tc_connect (rest_consumer_ops rc net n) = rest_connect"
  "tc_emit (rest_consumer_ops rc net n) = rest_emit rc net"
  by (simp_all add: rest_dispatcher_ops_def rest_consumer_ops_def)

lemma NewRESTDispatcher_inv: "NewRESTDispatcher n = Ret d \<Longrightarrow> rest_inv d"
  by (auto simp: NewRESTDispatcher_def rest_inv_def split: if_splits)

lemma rest_dispatch_open:
  "rest_inv d \<Longrightarrow> rest_dispatch c t d =
     (if chan_room (rd_tasks d) then Ret (None, d\<lparr>rd_tasks := chan_push t (rd_tasks d)\<rparr>)
      else Ret (Some ErrDispatchFull, d))"
  by (simp add: rest_dispatch_def rest_inv_def chan_try_send_open)

lemma rest_receive_event_cases:
  assumes "rest_inv d"
  shows "rest_receive_event c d = select (ctx_pick c)
    ((case rest_inbox d of [] \<Rightarrow> []
      | ev # evs \<Rightarrow> [(Inr ev, d\<lparr>rd_events := (rd_events d)\<lparr>ch_buf := evs\<rparr>\<rparr>)]) @
     on_done c (Inl (ctx_err c), d))"
  using assms by (simp add: rest_receive_event_def rest_inv_def on_recv_open rest_inbox_def)

lemma rest_take_eq:
  assumes "rest_inv d"
  shows "rest_take d = (case ch_buf (rd_tasks d) of [] \<Rightarrow> None
    | t # ts \<Rightarrow> Some (t, d\<lparr>rd_tasks := (rd_tasks d)\<lparr>ch_buf := ts\<rparr>\<rparr>))"
  using assms by (simp add: rest_take_def rest_inv_def chan_recv_def split: list.split)

lemma rest_inv_updates:
  assumes "rest_inv d"
  shows "ch_buf (rd_events d) = ev # evs \<Longrightarrow> rest_inv (d\<lparr>rd_events := (rd_events d)\<lparr>ch_buf := evs\<rparr>\<rparr>)"
    "ch_buf (rd_tasks d) = t # ts \<Longrightarrow> rest_inv (d\<lparr>rd_tasks := (rd_tasks d)\<lparr>ch_buf := ts\<rparr>\<rparr>)"
    "chan_room (rd_tasks d) \<Longrightarrow> rest_inv (d\<lparr>rd_tasks := chan_push t (rd_tasks d)\<rparr>)"
    "chan_room (rd_events d) \<Longrightarrow> rest_inv (d\<lparr>rd_events := chan_push ev (rd_events d)\<rparr>)"
  using assms by (simp_all add: rest_inv_def chan_ok_def chan_room_def)

interpretation rest_disp: dispatcher_contract rest_dispatcher_ops rest_inv rest_queued rest_inbox "\<lambda>_. True"
proof unfold_locales
  fix d c t e d' x
  assume inv: "rest_inv d"
  show "\<exists>r. td_dispatch rest_dispatcher_ops c t d = Ret r"
    using inv by (simp add: rest_dispatch_open)
  show "td_dispatch rest_dispatcher_ops c t d = Ret (None, d') \<Longrightarrow> rest_queued d' = add_mset t (rest_queued d)"
    "td_dispatch rest_dispatcher_ops c t d = Ret (Some x, d') \<Longrightarrow> rest_queued d' = rest_queued d"
    using inv by (auto simp: rest_dispatch_open rest_queued_def split: if_splits)
  assume "td_dispatch rest_dispatcher_ops c t d = Ret (e, d')"
  with inv have d: "d' = d \<or> chan_room (rd_tasks d) \<and> d' = d\<lparr>rd_tasks := chan_push t (rd_tasks d)\<rparr>"
    by (auto simp: rest_dispatch_open split: if_splits)
  then show "rest_inv d'" using inv by (auto simp: rest_inv_updates)
  show "rest_inbox d' = rest_inbox d"
    using d by (auto simp: rest_inbox_def)
next
  fix d c d' ev and x
  assume inv: "rest_inv d"
  show "td_receive_event rest_dispatcher_ops c d = Ret (Inr ev, d') \<Longrightarrow>
      rest_inbox d = ev # rest_inbox d' \<and> rest_queued d' = rest_queued d \<and> rest_inv d'"
    using inv by (auto simp: rest_receive_event_cases rest_inbox_def rest_queued_def on_done_def
        rest_inv_updates dest!: select_in split: list.splits if_splits)
  show "td_receive_event rest_dispatcher_ops c d = Ret (Inl x, d') \<Longrightarrow>
      ctx_done c \<and> x = ctx_err c \<and> d' = d"
    using inv by (auto simp: rest_receive_event_cases on_done_def dest!: select_in
        split: list.splits if_splits)
  show "(td_receive_event rest_dispatcher_ops c d = Block) = (\<not> ctx_done c \<and> rest_inbox d = [])"
    using inv by (auto simp: rest_receive_event_cases select_Block on_done_def split: list.split)
  show "td_receive_event rest_dispatcher_ops c d \<noteq> Panic"
    using inv by (simp add: rest_receive_event_cases)
qed

interpretation rest_queue: work_queue rest_push rest_take
  "\<lambda>d. ch_buf (rd_tasks d)" "\<lambda>d. ch_cap (rd_tasks d)" rest_inv
proof unfold_locales
  fix q t q' and b :: bool
  assume inv: "rest_inv q"
  have push: "rest_push t q = (if chan_room (rd_tasks q)
      then (True, q\<lparr>rd_tasks := chan_push t (rd_tasks q)\<rparr>) else (False, q))"
    using inv by (simp add: rest_push_def rest_dispatch_open)
  show "rest_push t q = (True, q') \<Longrightarrow> ch_buf (rd_tasks q') = ch_buf (rd_tasks q) @ [t] \<and>
      length (ch_buf (rd_tasks q)) < ch_cap (rd_tasks q)"
    using push by (auto simp: chan_room_def split: if_splits)
  show "rest_push t q = (False, q') \<Longrightarrow> q' = q \<and>
      ch_cap (rd_tasks q) \<le> length (ch_buf (rd_tasks q))"
    using push by (auto simp: chan_room_def split: if_splits)
  show "rest_push t q = (b, q') \<Longrightarrow> ch_cap (rd_tasks q') = ch_cap (rd_tasks q) \<and> rest_inv q'"
    using inv push by (auto simp: rest_inv_updates split: if_splits)
  show "rest_take q = Some (t, q') \<Longrightarrow> ch_buf (rd_tasks q) = t # ch_buf (rd_tasks q') \<and>
      ch_cap (rd_tasks q') = ch_cap (rd_tasks q) \<and> rest_inv q'"
    using inv by (auto simp: rest_take_eq rest_inv_updates split: list.splits)
  show "(rest_take q = None) = (ch_buf (rd_tasks q) = [])"
    using inv by (simp add: rest_take_eq split: list.split)
qed

section \<open>The worker over the network\<close>

text \<open>A poll hands the oldest queued task over unchanged.\<close>

lemma rest_poll_task:
  assumes "echo_ok E" and "rest_inv d" and "ch_buf (rd_tasks d) = t # ts" and "task_encodable t"
    and "\<not> ctx_done x" and "rc_bad_url rc = None"
  shows "rest_receive rc (rest_net E) (x # xs) d =
    Ret (([], Inr t), d\<lparr>rd_tasks := (rd_tasks d)\<lparr>ch_buf := ts\<rparr>\<rparr>)"
proof -
  obtain s where "marshal_task t = Some s" "decode_task (s @ [newline]) = Some t"
    using unmarshal_marshal_task [OF assms(4)] by blast
  with assms echo_laws(1) [OF assms(1)] show ?thesis
    by (simp add: rest_net_def HandleNext_def rest_take_eq)
qed

text \<open>While the queue is empty the worker sleeps half a second between polls.\<close>

lemma rest_poll_empty:
  assumes "echo_ok E" and "rest_inv d" and "ch_buf (rd_tasks d) = []"
    and "\<not> ctx_done x" and "rc_bad_url rc = None"
  shows "rest_receive rc (rest_net E) (x # xs) d =
    omap (\<lambda>((ds, r), d1). ((500 * Millisecond # ds, r), d1)) (rest_receive rc (rest_net E) xs d)"
  using assms echo_laws(2) [OF assms(1), of 204]
  by (simp add: rest_net_def HandleNext_def rest_take_eq rest_sleep_def)

lemma HandleEvent_open:
  assumes "echo_ok E" and "rest_inv d" and "event_encodable ev" and "\<not> ctx_done x"
  shows "HandleEvent E x (marshal_event ev) d =
    (if chan_room (rd_events d)
     then Ret (Inr (eo_no_content E 204), d\<lparr>rd_events := chan_push ev (rd_events d)\<rparr>)
     else if is_terminal ev then Block else Ret (Inr (eo_no_content E 204), d))"
  using assms echo_laws(6) [OF assms(1) unmarshal_marshal [OF assms(3)]]
  by (auto simp: HandleEvent_def is_terminal_def rest_inv_def chan_try_send_open)

lemma rest_emit_open:
  assumes "echo_ok E" and "rest_inv d" and "event_encodable ev" and "\<not> ctx_done x"
    and "rc_bad_url rc = None"
  shows "rest_emit rc (rest_net E) x ev d =
    (if chan_room (rd_events d) then Ret (None, d\<lparr>rd_events := chan_push ev (rd_events d)\<rparr>)
     else if is_terminal ev then Block else Ret (None, d))"
  using assms by (simp add: rest_emit_def rest_net_def HandleEvent_open)

lemma rest_emit_net:
  "rc_bad_url rc = None \<Longrightarrow> rest_emit rc net x ev m =
     omap (\<lambda>(r, m1). (case r of Inl e \<Rightarrow> Some e | Inr _ \<Rightarrow> None, m1))
       (net x 0 0 WorkEvents (marshal_event ev) m)"
  by (cases "net x 0 0 WorkEvents (marshal_event ev) m")
    (auto simp: rest_emit_def split: sum.split)

text \<open>Whatever the context, an emission keeps the invariant and never panics.\<close>

lemma rest_net_inv:
  assumes "rest_inv d"
  shows "rest_net E x now p WorkEvents body d = Ret (r, d') \<Longrightarrow> rest_inv d'"
    and "rest_net E x now p WorkEvents body d \<noteq> Panic"
  using assms
  by (auto simp: rest_net_def HandleEvent_def rest_inv_def on_send_def on_done_def chan_try_send_open
      chan_ok_push dest!: select_in split: option.splits if_splits)

locale rest_transport =
  fixes E :: echo and rc :: rest_consumer and n :: nat
  assumes framework: "echo_ok E" and url: "rc_bad_url rc = None"

sublocale rest_transport \<subseteq> reliable_emitter "rest_consumer_ops rc (rest_net E) n" rest_inv rest_inbox
  "\<lambda>ev. ev" "\<lambda>x. \<not> ctx_done x" event_encodable
proof unfold_locales
  fix c x ev e c'
  assume inv: "rest_inv c"
  show "tc_emit (rest_consumer_ops rc (rest_net E) n) x ev c = Ret (e, c') \<Longrightarrow> rest_inv c'"
    using inv url rest_net_inv(1) [OF inv, of E x 0 0 "marshal_event ev"]
    by (auto simp: rest_emit_net)
  show "tc_emit (rest_consumer_ops rc (rest_net E) n) x ev c \<noteq> Panic"
    using inv url rest_net_inv(2) [OF inv, of E x 0 0 "marshal_event ev"]
    by (auto simp: rest_emit_net)
  assume live: "\<not> ctx_done x" and ev: "event_encodable ev"
  note emit = rest_emit_open [OF framework inv ev live url]
  show "is_terminal ev \<Longrightarrow> tc_emit (rest_consumer_ops rc (rest_net E) n) x ev c = Ret (e, c') \<Longrightarrow>
      rest_inbox c' = rest_inbox c @ [ev]"
    using emit by (auto simp: rest_inbox_def split: if_splits)
  show "\<not> is_terminal ev \<Longrightarrow> \<exists>e c'. tc_emit (rest_consumer_ops rc (rest_net E) n) x ev c = Ret (e, c') \<and>
      (rest_inbox c' = rest_inbox c \<or> rest_inbox c' = rest_inbox c @ [ev])"
    using emit by (auto simp: rest_inbox_def)
qed

context rest_transport
begin

lemma run_delivers:
  assumes "rest_inv d" and "\<forall>k. \<not> ctx_done (re_ctx w k)"
    and "list_all event_encodable (run_script (re_cancel w) t)" and "valid_executor e"
    and "exec_run (rest_consumer_ops rc (rest_net E) n) e w t d = Ret d'"
  shows "\<exists>ys st. rest_inbox d' = rest_inbox d @ map (\<lambda>ev. ev) (ys @ [status_event t st]) \<and> terminal_status st \<and>
    subseq (ys @ [status_event t st]) (run_script (re_cancel w) t) \<and>
    list_all (\<lambda>ev. \<not> is_terminal ev) ys"
  using assms by (rule exec_run_delivers)

end

interpretation rest_plain: rest_transport plain_echo "\<lparr>rc_bad_url = None\<rparr>" 1
  by unfold_locales (simp_all add: plain_echo_ok)

end
