(* ===== verification/WebSocket.thy ===== *)
theory WebSocket
  imports Client Channel
begin

text \<open>
  Pattern 3, \<^verbatim>\<open>patterns/p03/internal/websocket\<close>: the manager pushes tasks to workers that
  hold a WebSocket connection.

  A \<^verbatim>\<open>*workerConn\<close> is a reference: \<open>wd_workers\<close> is the slice of references, \<open>wd_heap\<close> what
  they point to. \<open>ws_step\<close> interleaves \<^verbatim>\<open>Dispatch\<close>, registrations, the write pumps and the
  read pumps; a read pump is in one of the states of \<open>pump\<close> between the points where it
  holds no lock. The connection itself (\<^verbatim>\<open>gorilla/websocket\<close>) contributes the messages that
  arrive and takes those the write pump hands it.

  \<^item> \<open>ws_dispatch_target\<close>: the round-robin loop picks the first idle worker of the list
    rotated to \<^verbatim>\<open>nextIdx\<close>; \<open>ws_dispatch_round\<close>: successive tasks go to successive workers.
  \<^item> \<open>ws_world_inv\<close>: in every interleaving the listed workers have open channels.
  \<^item> Interpretations: \<open>ws_disp\<close> (\<open>dispatcher_contract\<close>), \<open>ws_emitter\<close>
    (\<open>reliable_emitter\<close>) for a connected consumer.
\<close>

section \<open>The task message\<close>

definition msgTypeTask :: string where
  "msgTypeTask = ''task''"

definition marshal_task_msg :: "task \<Rightarrow> string option" where
  "marshal_task_msg t =
     map_option (\<lambda>v. jtext (JObj [(''type'', JStr msgTypeTask), (''task'', v)])) (task_json t)"

record task_msg =
  tg_Type :: string
  tg_Task :: task

definition task_msg_fields :: "string list" where
  "task_msg_fields = [''type'', ''task'']"

definition task_msg_member :: "string \<Rightarrow> json \<Rightarrow> task_msg \<Rightarrow> task_msg option" where
  "task_msg_member k v g =
     (case field_index task_msg_fields k of
        None \<Rightarrow> Some g
      | Some i \<Rightarrow>
          if i = 0 then set_string (\<lambda>s r. r\<lparr>tg_Type := s\<rparr>) v g
          else (case v of
                  JNull \<Rightarrow> Some g
                | JObj kvs \<Rightarrow> map_option (\<lambda>t. g\<lparr>tg_Task := t\<rparr>) (members task_member kvs (tg_Task g))
                | _ \<Rightarrow> None))"

definition unmarshal_task_msg :: "string \<Rightarrow> task_msg option" where
  "unmarshal_task_msg s =
     Option.bind (parse_json s) (\<lambda>v.
       let zero = \<lparr>tg_Type = [], tg_Task = zero_task\<rparr>
       in case v of JNull \<Rightarrow> Some zero | JObj kvs \<Rightarrow> members task_msg_member kvs zero | _ \<Rightarrow> None)"

section \<open>WebSocketDispatcher\<close>

record worker_conn =
  wc_id :: string
  wc_send :: "string chan"
  wc_busy :: bool

record ws_dispatcher =
  wd_workers :: "nat list"
  wd_heap :: "nat \<Rightarrow> worker_conn"
  wd_fresh :: nat
  wd_nextIdx :: nat
  wd_events :: "task_event chan"

definition NewWebSocketDispatcher :: ws_dispatcher where
  "NewWebSocketDispatcher = \<lparr>wd_workers = [],
     wd_heap = (\<lambda>_. \<lparr>wc_id = [], wc_send = make_chan 0, wc_busy = False\<rparr>), wd_fresh = 0,
     wd_nextIdx = 0, wd_events = make_chan 256\<rparr>"

definition ws_start :: "ctx \<Rightarrow> ws_dispatcher \<Rightarrow> go_error option \<times> ws_dispatcher" where
  "ws_start c d = (None, d)"

text \<open>\<^verbatim>\<open>Register\<close>; \<open>u\<close> is the value of \<^verbatim>\<open>uuid.New()\<close>.\<close>

definition ws_register :: "string \<Rightarrow> ws_dispatcher \<Rightarrow> nat \<times> ws_dispatcher" where
  "ws_register u d =
     (let w = wd_fresh d;
          wc = \<lparr>wc_id = take 8 u, wc_send = make_chan 64, wc_busy = False\<rparr>
      in (w, d\<lparr>wd_heap := (wd_heap d)(w := wc), wd_fresh := Suc w, wd_workers := wd_workers d @ [w]\<rparr>))"

definition set_busy :: "bool \<Rightarrow> nat \<Rightarrow> ws_dispatcher \<Rightarrow> ws_dispatcher" where
  "set_busy b w d = d\<lparr>wd_heap := (wd_heap d)(w := (wd_heap d w)\<lparr>wc_busy := b\<rparr>)\<rparr>"

definition set_send :: "string chan \<Rightarrow> nat \<Rightarrow> ws_dispatcher \<Rightarrow> ws_dispatcher" where
  "set_send ch w d = d\<lparr>wd_heap := (wd_heap d)(w := (wd_heap d w)\<lparr>wc_send := ch\<rparr>)\<rparr>"

text \<open>The body of the loop once an idle worker is found at position \<open>idx\<close>.\<close>

definition ws_hand_over :: "task \<Rightarrow> nat \<Rightarrow> ws_dispatcher \<Rightarrow> (go_error option \<times> ws_dispatcher) outcome" where
  "ws_hand_over t idx d =
     (let n = length (wd_workers d); w = wd_workers d ! idx;
          d1 = (set_busy True w d)\<lparr>wd_nextIdx := (idx + 1) mod n\<rparr>
      in case marshal_task_msg t of
           None \<Rightarrow> Ret (Some (Errorf ''json: error calling MarshalJSON''), set_busy False w d1)
         | Some data \<Rightarrow>
             obind (chan_try_send data (wc_send (wd_heap d1 w))) (\<lambda>(sent, ch).
               if sent then Ret (None, set_send ch w d1)
               else Ret (Some ErrNoWorkers, set_busy False w d1)))"

text \<open>The loop with \<open>k\<close> iterations left.\<close>

primrec ws_dispatch_loop :: "task \<Rightarrow> ws_dispatcher \<Rightarrow> nat \<Rightarrow> (go_error option \<times> ws_dispatcher) outcome" where
  "ws_dispatch_loop t d 0 = Ret (Some ErrNoWorkers, d)"
| "ws_dispatch_loop t d (Suc k) =
     (let n = length (wd_workers d); i = n - Suc k; idx = (wd_nextIdx d + i) mod n
      in if \<not> wc_busy (wd_heap d (wd_workers d ! idx)) then ws_hand_over t idx d
         else ws_dispatch_loop t d k)"

definition ws_dispatch :: "ctx \<Rightarrow> task \<Rightarrow> ws_dispatcher \<Rightarrow> (go_error option \<times> ws_dispatcher) outcome" where
  "ws_dispatch c t d =
     (let n = length (wd_workers d)
      in if n = 0 then Ret (Some ErrNoWorkers, d) else ws_dispatch_loop t d n)"

definition ws_receive_event ::
    "ctx \<Rightarrow> ws_dispatcher \<Rightarrow> ((go_error + task_event) \<times> ws_dispatcher) outcome" where
  "ws_receive_event c d =
     select (ctx_pick c)
       (on_done c (Inl (ctx_err c), d) @
        on_recv zero_event (wd_events d) (\<lambda>ev ch. (Inr ev, d\<lparr>wd_events := ch\<rparr>)))"

definition ws_dispatcher_ops :: "ws_dispatcher task_dispatcher" where
  "ws_dispatcher_ops = \<lparr>td_start = ws_start, td_dispatch = ws_dispatch,
     td_receive_event = ws_receive_event\<rparr>"

definition ws_remove :: "nat \<Rightarrow> ws_dispatcher \<Rightarrow> ws_dispatcher" where
  "ws_remove w d = d\<lparr>wd_workers := remove1 w (wd_workers d)\<rparr>"

text \<open>
  One turn of a write pump, on either side of the connection: the frame written, and whether
  the pump goes on. \<open>pe_tick\<close>: the ping ticker has fired; \<open>pe_ok\<close>: the write succeeds;
  \<open>pe_pick\<close>: which of the ready cases is taken. A closed channel ends the pump with a close frame.
\<close>

datatype frame = TextFrame string | CloseFrame | PingFrame

record pump_env =
  pe_tick :: bool
  pe_ok :: bool
  pe_pick :: nat

definition pump_turn :: "pump_env \<Rightarrow> string chan \<Rightarrow> ((frame \<times> bool) \<times> string chan) outcome" where
  "pump_turn e ch =
     select (pe_pick e)
       ((case chan_recv ch of
           Ret (Some msg, c) \<Rightarrow> [((TextFrame msg, pe_ok e), c)]
         | Ret (None, c) \<Rightarrow> [((CloseFrame, False), c)]
         | _ \<Rightarrow> []) @
        (if pe_tick e then [((PingFrame, pe_ok e), ch)] else []))"

definition ws_write_turn :: "pump_env \<Rightarrow> nat \<Rightarrow> ws_dispatcher \<Rightarrow> ((frame \<times> bool) \<times> ws_dispatcher) outcome" where
  "ws_write_turn e w d =
     omap (\<lambda>(r, ch). (r, set_send ch w d)) (pump_turn e (wc_send (wd_heap d w)))"

text \<open>
  The read pump: what it does with a message up to the point where it releases or needs the
  lock. \<open>Freeing\<close>: the terminal event is sent and the worker not yet marked idle.
  \<open>Leaving\<close>: the connection ended and the worker is removed, its channel not yet closed.
\<close>

datatype pump = Reading | Freeing | Leaving | Gone

definition ws_read_message :: "string \<Rightarrow> ws_dispatcher \<Rightarrow> (pump \<times> ws_dispatcher) outcome" where
  "ws_read_message raw d =
     (case unmarshal_event raw of
        None \<Rightarrow> Ret (Reading, d)
      | Some ev \<Rightarrow>
          if ev_Type ev = EventTaskStatus then
            (if ev_Status ev = TaskCompleted \<or> ev_Status ev = TaskFailed
             then omap (\<lambda>ch. (Freeing, d\<lparr>wd_events := ch\<rparr>)) (chan_send ev (wd_events d))
             else omap (\<lambda>(_, ch). (Reading, d\<lparr>wd_events := ch\<rparr>)) (chan_try_send ev (wd_events d)))
          else if ev_Type ev = EventProgress
          then omap (\<lambda>(_, ch). (Reading, d\<lparr>wd_events := ch\<rparr>)) (chan_try_send ev (wd_events d))
          else Ret (Reading, d))"

definition ws_close_send :: "nat \<Rightarrow> ws_dispatcher \<Rightarrow> ws_dispatcher outcome" where
  "ws_close_send w d = omap (\<lambda>ch. set_send ch w d) (chan_close (wc_send (wd_heap d w)))"

section \<open>The concurrent dispatcher\<close>

record ws_world =
  ww_disp :: ws_dispatcher
  ww_pump :: "nat \<Rightarrow> pump"

inductive ws_step :: "ws_world \<Rightarrow> ws_world \<Rightarrow> bool" where
  step_register:
    "ws_register u (ww_disp s) = (w, d) \<Longrightarrow>
     ws_step s (s\<lparr>ww_disp := d, ww_pump := (ww_pump s)(w := Reading)\<rparr>)"
| step_dispatch:
    "ws_dispatch c t (ww_disp s) = Ret (e, d) \<Longrightarrow> ws_step s (s\<lparr>ww_disp := d\<rparr>)"
| step_receive:
    "ws_receive_event c (ww_disp s) = Ret (r, d) \<Longrightarrow> ws_step s (s\<lparr>ww_disp := d\<rparr>)"
| step_write:
    "w < wd_fresh (ww_disp s) \<Longrightarrow> ws_write_turn e w (ww_disp s) = Ret (r, d) \<Longrightarrow>
     ws_step s (s\<lparr>ww_disp := d\<rparr>)"
| step_message:
    "w < wd_fresh (ww_disp s) \<Longrightarrow> ww_pump s w = Reading \<Longrightarrow>
     ws_read_message raw (ww_disp s) = Ret (pc, d) \<Longrightarrow>
     ws_step s (s\<lparr>ww_disp := d, ww_pump := (ww_pump s)(w := pc)\<rparr>)"
| step_free:
    "w < wd_fresh (ww_disp s) \<Longrightarrow> ww_pump s w = Freeing \<Longrightarrow>
     ws_step s (s\<lparr>ww_disp := set_busy False w (ww_disp s), ww_pump := (ww_pump s)(w := Reading)\<rparr>)"
| step_disconnect:
    "w < wd_fresh (ww_disp s) \<Longrightarrow> ww_pump s w = Reading \<Longrightarrow>
     ws_step s (s\<lparr>ww_disp := ws_remove w (ww_disp s), ww_pump := (ww_pump s)(w := Leaving)\<rparr>)"
| step_close:
    "w < wd_fresh (ww_disp s) \<Longrightarrow> ww_pump s w = Leaving \<Longrightarrow>
     ws_close_send w (ww_disp s) = Ret d \<Longrightarrow>
     ws_step s (s\<lparr>ww_disp := d, ww_pump := (ww_pump s)(w := Gone)\<rparr>)"

definition ws_world_start :: ws_world where
  "ws_world_start = \<lparr>ww_disp = NewWebSocketDispatcher, ww_pump = (\<lambda>_. Gone)\<rparr>"

section \<open>WebSocketConsumer\<close>

text \<open>
  \<open>wk_current\<close> is \<^verbatim>\<open>currentSend\<close>, a reference into the heap of send channels or nil;
  \<open>wk_fresh\<close> the next unused reference.
\<close>

record ws_consumer =
  wk_tasks :: "task chan"
  wk_current :: "nat option"
  wk_heap :: "nat \<Rightarrow> string chan"
  wk_fresh :: nat

definition NewWebSocketConsumer :: ws_consumer where
  "NewWebSocketConsumer = \<lparr>wk_tasks = make_chan 1, wk_current = None, wk_heap = (\<lambda>_. make_chan 0),
     wk_fresh = 0\<rparr>"

text \<open>\<^verbatim>\<open>Connect\<close> only starts the reconnect loop.\<close>

definition ws_connect :: "ctx \<Rightarrow> ws_consumer \<Rightarrow> (go_error option \<times> ws_consumer) outcome" where
  "ws_connect c k = Ret (None, k)"

definition ws_receive :: "ctx \<Rightarrow> ws_consumer \<Rightarrow> ((go_error + task) \<times> ws_consumer) outcome" where
  "ws_receive c k =
     select (ctx_pick c)
       (on_done c (Inl (ctx_err c), k) @
        on_recv zero_task (wk_tasks k) (\<lambda>t ch. (Inr t, k\<lparr>wk_tasks := ch\<rparr>)))"

definition ws_emit :: "ctx \<Rightarrow> task_event \<Rightarrow> ws_consumer \<Rightarrow> (go_error option \<times> ws_consumer) outcome" where
  "ws_emit c ev k =
     (let data = marshal_event ev
      in case wk_current k of
           None \<Rightarrow> Ret (None, k)
         | Some i \<Rightarrow>
             if ev_Type ev = EventTaskStatus \<and> (ev_Status ev = TaskCompleted \<or> ev_Status ev = TaskFailed)
             then omap (\<lambda>ch. (None, k\<lparr>wk_heap := (wk_heap k)(i := ch)\<rparr>)) (chan_send data (wk_heap k i))
             else omap (\<lambda>(_, ch). (None, k\<lparr>wk_heap := (wk_heap k)(i := ch)\<rparr>))
                    (chan_try_send data (wk_heap k i)))"

definition ws_consumer_ops :: "ws_consumer task_consumer" where
  "ws_consumer_ops = \<lparr>tc_connect = ws_connect, tc_receive = ws_receive, tc_emit = ws_emit\<rparr>"

text \<open>
  The reconnect loop. A fresh send channel is installed after a successful dial, the
  \<^verbatim>\<open>ready\<close> message is the first one sent on it, and \<^verbatim>\<open>currentSend\<close> is cleared when the
  connection ends.
\<close>

definition ready_msg :: string where
  "ready_msg = jtext (JObj [(''type'', JStr ''ready'')])"

definition ws_dialed :: "ws_consumer \<Rightarrow> nat \<times> ws_consumer" where
  "ws_dialed k =
     (let i = wk_fresh k
      in (i, k\<lparr>wk_heap := (wk_heap k)(i := make_chan 128), wk_fresh := Suc i, wk_current := Some i\<rparr>))"

definition ws_send_ready :: "nat \<Rightarrow> ws_consumer \<Rightarrow> ws_consumer outcome" where
  "ws_send_ready i k =
     omap (\<lambda>ch. k\<lparr>wk_heap := (wk_heap k)(i := ch)\<rparr>) (chan_send ready_msg (wk_heap k i))"

definition ws_connection_over :: "ws_consumer \<Rightarrow> ws_consumer" where
  "ws_connection_over k = k\<lparr>wk_current := None\<rparr>"

text \<open>The read loop of \<^verbatim>\<open>runConn\<close> on one message; \<^term>\<open>False\<close>: the loop closed the channel and ends.\<close>

definition ws_conn_message :: "ctx \<Rightarrow> nat \<Rightarrow> string \<Rightarrow> ws_consumer \<Rightarrow> (bool \<times> ws_consumer) outcome" where
  "ws_conn_message x i raw k =
     (case unmarshal_task_msg raw of
        None \<Rightarrow> Ret (True, k)
      | Some g \<Rightarrow>
          if tg_Type g \<noteq> msgTypeTask then Ret (True, k)
          else obind (select (ctx_pick x)
                 (on_send (tg_Task g) (wk_tasks k) Some @ on_done x None))
               (\<lambda>r. case r of
                  Some ch \<Rightarrow> Ret (True, k\<lparr>wk_tasks := ch\<rparr>)
                | None \<Rightarrow> omap (\<lambda>c. (False, k\<lparr>wk_heap := (wk_heap k)(i := c)\<rparr>)) (chan_close (wk_heap k i))))"

text \<open>
  \<^verbatim>\<open>runConn\<close> over the turns given. Before each read the loop looks at the context (and then
  closes the channel, waits for the write pump and closes the connection) and at the pump's
  \<^verbatim>\<open>done\<close> (\<open>ct_done\<close>); a read error ends it, without closing the channel. The flag says whether
  the loop is still running.
\<close>

record conn_turn =
  ct_ctx :: ctx
  ct_done :: bool
  ct_read :: "go_error + string"

definition ws_conn_check :: "conn_turn \<Rightarrow> nat \<Rightarrow> ws_consumer \<Rightarrow> (bool \<times> ws_consumer) outcome" where
  "ws_conn_check t i k =
     (case select (ctx_pick (ct_ctx t)) (on_done (ct_ctx t) True @ (if ct_done t then [False] else [])) of
        Ret True \<Rightarrow> omap (\<lambda>c. (False, k\<lparr>wk_heap := (wk_heap k)(i := c)\<rparr>)) (chan_close (wk_heap k i))
      | Ret False \<Rightarrow> Ret (False, k)
      | _ \<Rightarrow> Ret (True, k))"

fun ws_run_conn :: "nat \<Rightarrow> conn_turn list \<Rightarrow> ws_consumer \<Rightarrow> (bool \<times> ws_consumer) outcome" where
  "ws_run_conn i [] k = Ret (True, k)"
| "ws_run_conn i (t # ts) k =
     obind (ws_conn_check t i k) (\<lambda>(go, k1).
       if \<not> go then Ret (False, k1)
       else case ct_read t of
              Inl err \<Rightarrow> Ret (False, k1)
            | Inr raw \<Rightarrow> obind (ws_conn_message (ct_ctx t) i raw k1) (\<lambda>(go, k2).
                if go then ws_run_conn i ts k2 else Ret (False, k2)))"

definition ws_conn_write :: "pump_env \<Rightarrow> nat \<Rightarrow> ws_consumer \<Rightarrow> ((frame \<times> bool) \<times> ws_consumer) outcome" where
  "ws_conn_write e i k =
     omap (\<lambda>(r, ch). (r, k\<lparr>wk_heap := (wk_heap k)(i := ch)\<rparr>)) (pump_turn e (wk_heap k i))"

text \<open>One pass of the reconnect loop after a successful dial.\<close>

definition ws_session :: "conn_turn list \<Rightarrow> ws_consumer \<Rightarrow> (bool \<times> ws_consumer) outcome" where
  "ws_session ts k =
     (let (i, k1) = ws_dialed k
      in obind (ws_send_ready i k1) (\<lambda>k2.
           omap (\<lambda>(go, k3). if go then (True, k3) else (False, ws_connection_over k3)) (ws_run_conn i ts k2)))"

text \<open>
  The delay before an attempt: \<^verbatim>\<open>math.Min(float64(attempt)*500, 10000)\<close> milliseconds; the
  product of small integers is exact in \<^verbatim>\<open>float64\<close>.
\<close>

definition ws_backoff :: "nat \<Rightarrow> duration" where
  "ws_backoff attempt = min (int attempt * 500) 10000 * Millisecond"

text \<open>
  The attempts of the loop: for each, whether the loop is stopped at its start, the context
  at the wait, and whether the dial succeeds (the connection then lives and ends before the
  next attempt). The result lists the delays waited for.
\<close>

record dial =
  di_stop :: bool
  di_wait :: ctx
  di_ok :: bool

fun ws_reconnect :: "nat \<Rightarrow> dial list \<Rightarrow> duration list" where
  "ws_reconnect attempt [] = []"
| "ws_reconnect attempt (a # as) =
     (if di_stop a then []
      else if attempt > 0 then
        (case select (ctx_pick (di_wait a)) (on_done (di_wait a) True @ [False]) of
           Ret False \<Rightarrow> ws_backoff attempt # ws_reconnect (if di_ok a then 1 else Suc attempt) as
         | _ \<Rightarrow> [])
      else ws_reconnect (if di_ok a then 1 else Suc attempt) as)"

section \<open>The message round trip\<close>

lemma task_json_object: "task_json t = Some v \<Longrightarrow> \<exists>kvs. v = JObj kvs"
  by (auto simp: task_json_def split: Option.bind_splits)

lemma task_msg_field_index:
  "field_index task_msg_fields ''type'' = Some 0" "field_index task_msg_fields ''task'' = Some 1"
  by code_simp+

lemma unmarshal_marshal_task_msg:
  assumes "task_encodable t"
  shows "\<exists>s. marshal_task_msg t = Some s \<and>
    unmarshal_task_msg s = Some \<lparr>tg_Type = msgTypeTask, tg_Task = t\<rparr>"
proof -
  obtain v where v: "task_json t = Some v" using task_json_total [OF assms] ..
  then obtain kvs where kvs: "v = JObj kvs" using task_json_object by blast
  from task_of_task_json [OF assms v] kvs have mem: "members task_member kvs zero_task = Some t"
    by (simp add: task_of_json_def)
  let ?m = "JObj [(''type'', JStr msgTypeTask), (''task'', v)]"
  have "valid_utf8 ''type''" "valid_utf8 ''task''" "valid_utf8 msgTypeTask"
    by (simp_all add: msgTypeTask_def)
  then have wf: "jwf ?m" using task_json_wf(1) [OF assms v] by simp
  have "10000 = Suc 9999" by simp
  then have "jdepth_le 10000 ?m" using jdepth_task(1) [OF assms v] by simp
  with wf have "parse_json (jtext ?m) = Some ?m" by (rule parse_json_jtext)
  with v kvs mem show ?thesis
    by (simp add: marshal_task_msg_def unmarshal_task_msg_def task_msg_member_def
        task_msg_field_index set_string_def)
qed

section \<open>Round robin\<close>

text \<open>The reference: the first idle position, looking round from \<^verbatim>\<open>nextIdx\<close>.\<close>

definition ws_pick :: "ws_dispatcher \<Rightarrow> nat option" where
  "ws_pick d =
     (let n = length (wd_workers d)
      in List.find (\<lambda>idx. \<not> wc_busy (wd_heap d (wd_workers d ! idx)))
           (map (\<lambda>i. (wd_nextIdx d + i) mod n) [0..<n]))"

lemma ws_dispatch_loop_pick:
  assumes "k \<le> length (wd_workers d)"
  shows "ws_dispatch_loop t d k =
    (case List.find (\<lambda>idx. \<not> wc_busy (wd_heap d (wd_workers d ! idx)))
        (map (\<lambda>i. (wd_nextIdx d + i) mod length (wd_workers d))
          [length (wd_workers d) - k..<length (wd_workers d)]) of
       None \<Rightarrow> Ret (Some ErrNoWorkers, d) | Some idx \<Rightarrow> ws_hand_over t idx d)"
  using assms
proof (induction k)
  case 0
  then show ?case by simp
next
  case (Suc k)
  let ?n = "length (wd_workers d)"
  have "?n - Suc k < ?n" "Suc (?n - Suc k) = ?n - k" using Suc.prems by auto
  then have "[?n - Suc k..<?n] = (?n - Suc k) # [?n - k..<?n]"
    by (metis upt_conv_Cons)
  with Suc show ?case by (simp add: Let_def)
qed

lemma ws_dispatch_pick:
  "ws_dispatch c t d =
     (case ws_pick d of None \<Rightarrow> Ret (Some ErrNoWorkers, d) | Some idx \<Rightarrow> ws_hand_over t idx d)"
  using ws_dispatch_loop_pick [of "length (wd_workers d)" d t]
  by (auto simp: ws_dispatch_def ws_pick_def Let_def)

lemma find_map_eq: "map_option f (List.find (\<lambda>x. P (f x)) xs) = List.find P (map f xs)"
  by (induction xs) auto

text \<open>The worker at the picked position is the first idle one of the rotated list.\<close>

lemma ws_pick_rotate:
  "map_option ((!) (wd_workers d)) (ws_pick d) =
     List.find (\<lambda>w. \<not> wc_busy (wd_heap d w)) (rotate (wd_nextIdx d) (wd_workers d))"
proof -
  let ?n = "length (wd_workers d)"
  have "map (\<lambda>i. wd_workers d ! ((wd_nextIdx d + i) mod ?n)) [0..<?n] = rotate (wd_nextIdx d) (wd_workers d)"
    by (rule nth_equalityI) (simp_all add: nth_rotate)
  then show ?thesis
    using find_map_eq [of "(!) (wd_workers d)" "\<lambda>w. \<not> wc_busy (wd_heap d w)"
        "map (\<lambda>i. (wd_nextIdx d + i) mod ?n) [0..<?n]"]
    by (simp add: ws_pick_def Let_def comp_def)
qed

lemma ws_pick_range:
  assumes "ws_pick d = Some idx"
  shows "idx < length (wd_workers d)" "\<not> wc_busy (wd_heap d (wd_workers d ! idx))"
proof -
  from assms obtain i where "i < length (wd_workers d)" "idx = (wd_nextIdx d + i) mod length (wd_workers d)"
    and idle: "\<not> wc_busy (wd_heap d (wd_workers d ! idx))"
    by (auto simp: ws_pick_def Let_def find_Some_iff)
  moreover then have "0 < length (wd_workers d)" by linarith
  ultimately show "idx < length (wd_workers d)" by simp
  show "\<not> wc_busy (wd_heap d (wd_workers d ! idx))" by (fact idle)
qed

lemma ws_pick_first:
  assumes "wd_workers d \<noteq> []"
    and "\<not> wc_busy (wd_heap d (wd_workers d ! (wd_nextIdx d mod length (wd_workers d))))"
  shows "ws_pick d = Some (wd_nextIdx d mod length (wd_workers d))"
proof -
  have "[0..<length (wd_workers d)] = 0 # [1..<length (wd_workers d)]"
    using assms(1) by (simp add: upt_conv_Cons)
  with assms(2) show ?thesis by (simp add: ws_pick_def Let_def)
qed

section \<open>Invariant and contract\<close>

definition conn_ok :: "worker_conn \<Rightarrow> bool" where
  "conn_ok wc \<longleftrightarrow> \<not> ch_closed (wc_send wc) \<and> ch_cap (wc_send wc) = 64 \<and> chan_ok (wc_send wc)"

definition ws_inv :: "ws_dispatcher \<Rightarrow> bool" where
  "ws_inv d \<longleftrightarrow> distinct (wd_workers d) \<and> \<not> ch_closed (wd_events d) \<and> chan_ok (wd_events d) \<and>
     (\<forall>w \<in> set (wd_workers d). w < wd_fresh d \<and> conn_ok (wd_heap d w))"

definition msg_task :: "string \<Rightarrow> task" where
  "msg_task raw = (case unmarshal_task_msg raw of Some g \<Rightarrow> tg_Task g | None \<Rightarrow> zero_task)"

definition conn_tasks :: "worker_conn \<Rightarrow> task multiset" where
  "conn_tasks wc = mset (map msg_task (ch_buf (wc_send wc)))"

definition ws_queued :: "ws_dispatcher \<Rightarrow> task multiset" where
  "ws_queued d = (\<Sum>w \<leftarrow> wd_workers d. conn_tasks (wd_heap d w))"

definition ws_inbox :: "ws_dispatcher \<Rightarrow> task_event list" where
  "ws_inbox d = ch_buf (wd_events d)"

lemma ws_ops_simps [simp]:
  "td_start ws_dispatcher_ops = ws_start" "td_dispatch ws_dispatcher_ops = ws_dispatch"
  "td_receive_event ws_dispatcher_ops = ws_receive_event"
  "tc_connect ws_consumer_ops = ws_connect" "tc_receive ws_consumer_ops = ws_receive"
  "tc_emit ws_consumer_ops = ws_emit"
  by (simp_all add: ws_dispatcher_ops_def ws_consumer_ops_def)

lemma set_busy_simps [simp]:
  "wd_workers (set_busy b w d) = wd_workers d" "wd_fresh (set_busy b w d) = wd_fresh d"
  "wd_nextIdx (set_busy b w d) = wd_nextIdx d" "wd_events (set_busy b w d) = wd_events d"
  "wd_heap (set_busy b w d) = (wd_heap d)(w := (wd_heap d w)\<lparr>wc_busy := b\<rparr>)"
  by (simp_all add: set_busy_def)

lemma set_send_simps [simp]:
  "wd_workers (set_send ch w d) = wd_workers d" "wd_fresh (set_send ch w d) = wd_fresh d"
  "wd_nextIdx (set_send ch w d) = wd_nextIdx d" "wd_events (set_send ch w d) = wd_events d"
  "wd_heap (set_send ch w d) = (wd_heap d)(w := (wd_heap d w)\<lparr>wc_send := ch\<rparr>)"
  by (simp_all add: set_send_def)

lemma conn_simps [simp]:
  "conn_ok (wc\<lparr>wc_busy := b\<rparr>) = conn_ok wc" "conn_tasks (wc\<lparr>wc_busy := b\<rparr>) = conn_tasks wc"
  by (simp_all add: conn_ok_def conn_tasks_def)

text \<open>Handing a task over: refused with nothing queued, or one message more for the worker.\<close>

lemma ws_hand_over_cases:
  assumes "ws_inv d" and idx: "idx < length (wd_workers d)"
  defines "w \<equiv> wd_workers d ! idx"
  shows "\<exists>e d'. ws_hand_over t idx d = Ret (e, d') \<and> wd_workers d' = wd_workers d \<and>
    wd_fresh d' = wd_fresh d \<and> wd_events d' = wd_events d \<and>
    wd_nextIdx d' = (idx + 1) mod length (wd_workers d) \<and>
    (case e of
       Some _ \<Rightarrow> wd_heap d' = (wd_heap d)(w := (wd_heap d w)\<lparr>wc_busy := False\<rparr>)
     | None \<Rightarrow> (\<exists>data. marshal_task_msg t = Some data \<and> chan_room (wc_send (wd_heap d w)) \<and>
         wd_heap d' = (wd_heap d)(w := (wd_heap d w)\<lparr>wc_busy := True,
           wc_send := chan_push data (wc_send (wd_heap d w))\<rparr>)))"
proof -
  have "\<not> ch_closed (wc_send (wd_heap d w))"
    using assms by (simp add: ws_inv_def conn_ok_def w_def)
  then show ?thesis
    by (cases "marshal_task_msg t"; cases "chan_room (wc_send (wd_heap d w))")
      (simp_all add: ws_hand_over_def Let_def chan_try_send_open flip: w_def)
qed

lemma sum_list_update_one:
  fixes f g :: "nat \<Rightarrow> 'a multiset"
  assumes "distinct ws" and "w \<in> set ws" and "\<forall>v \<in> set ws. v \<noteq> w \<longrightarrow> g v = f v"
    and "g w = add_mset t (f w)"
  shows "(\<Sum>v \<leftarrow> ws. g v) = add_mset t (\<Sum>v \<leftarrow> ws. f v)"
  using assms(1-3)
proof (induction ws)
  case (Cons v ws)
  show ?case
  proof (cases "v = w")
    case True
    with Cons.prems have "map g ws = map f ws" by auto
    then have "(\<Sum>v \<leftarrow> ws. g v) = (\<Sum>v \<leftarrow> ws. f v)" by (simp only:)
    with True assms(4) show ?thesis by simp
  next
    case False
    with Cons show ?thesis by auto
  qed
qed simp

lemma ws_hand_over_contract:
  assumes inv: "ws_inv d" and idx: "idx < length (wd_workers d)"
    and ret: "ws_hand_over t idx d = Ret (e, d')"
  shows "ws_inv d'" and "ws_inbox d' = ws_inbox d"
    and "e = Some x \<Longrightarrow> ws_queued d' = ws_queued d"
    and "e = None \<Longrightarrow> task_encodable t \<Longrightarrow> ws_queued d' = add_mset t (ws_queued d)"
proof -
  let ?w = "wd_workers d ! idx"
  from ws_hand_over_cases [OF inv idx, of t] ret
  have fields: "wd_workers d' = wd_workers d" "wd_fresh d' = wd_fresh d" "wd_events d' = wd_events d"
    and heap: "case e of
       Some _ \<Rightarrow> wd_heap d' = (wd_heap d)(?w := (wd_heap d ?w)\<lparr>wc_busy := False\<rparr>)
     | None \<Rightarrow> (\<exists>data. marshal_task_msg t = Some data \<and> chan_room (wc_send (wd_heap d ?w)) \<and>
         wd_heap d' = (wd_heap d)(?w := (wd_heap d ?w)\<lparr>wc_busy := True,
           wc_send := chan_push data (wc_send (wd_heap d ?w))\<rparr>))"
    by auto
  have ok: "conn_ok (wd_heap d' v)" if "v \<in> set (wd_workers d)" for v
    using heap inv that
    by (cases e; cases "v = ?w") (auto simp: ws_inv_def conn_ok_def chan_ok_push)
  show "ws_inv d'" using inv fields ok by (simp add: ws_inv_def)
  show "ws_inbox d' = ws_inbox d" using fields by (simp add: ws_inbox_def)
  show "ws_queued d' = ws_queued d" if "e = Some x"
  proof -
    have "conn_tasks (wd_heap d' v) = conn_tasks (wd_heap d v)" for v using heap that by simp
    then show ?thesis using fields by (simp add: ws_queued_def)
  qed
  show "ws_queued d' = add_mset t (ws_queued d)" if "e = None" "task_encodable t"
  proof -
    from heap that(1) obtain data where data: "marshal_task_msg t = Some data"
      "wd_heap d' = (wd_heap d)(?w := (wd_heap d ?w)\<lparr>wc_busy := True,
         wc_send := chan_push data (wc_send (wd_heap d ?w))\<rparr>)" by auto
    have "msg_task data = t"
      using unmarshal_marshal_task_msg [OF that(2)] data(1) by (auto simp: msg_task_def)
    then show ?thesis
      unfolding ws_queued_def fields using inv idx data(2)
      by (intro sum_list_update_one [where w = ?w]) (auto simp: ws_inv_def conn_tasks_def)
  qed
qed

lemma ws_receive_event_cases:
  assumes "ws_inv d"
  shows "ws_receive_event c d = select (ctx_pick c) (on_done c (Inl (ctx_err c), d) @
    (case ws_inbox d of [] \<Rightarrow> []
     | ev # evs \<Rightarrow> [(Inr ev, d\<lparr>wd_events := (wd_events d)\<lparr>ch_buf := evs\<rparr>\<rparr>)]))"
  using assms by (simp add: ws_receive_event_def ws_inv_def on_recv_open ws_inbox_def)

lemma ws_inv_pop_event:
  "ws_inv d \<Longrightarrow> ch_buf (wd_events d) = ev # evs \<Longrightarrow>
     ws_inv (d\<lparr>wd_events := (wd_events d)\<lparr>ch_buf := evs\<rparr>\<rparr>)"
  by (simp add: ws_inv_def chan_ok_def)

interpretation ws_disp: dispatcher_contract ws_dispatcher_ops ws_inv ws_queued ws_inbox task_encodable
proof unfold_locales
  fix d c t e d' x
  assume inv: "ws_inv d"
  show "\<exists>r. td_dispatch ws_dispatcher_ops c t d = Ret r"
    using ws_hand_over_cases [OF inv] ws_pick_range(1) [of d]
    by (fastforce simp: ws_dispatch_pick split: option.split)
  show "td_dispatch ws_dispatcher_ops c t d = Ret (Some x, d') \<Longrightarrow> ws_queued d' = ws_queued d"
    using ws_hand_over_contract(3) [OF inv] ws_pick_range(1) [of d]
    by (auto simp: ws_dispatch_pick split: option.splits)
  show "task_encodable t \<Longrightarrow> td_dispatch ws_dispatcher_ops c t d = Ret (None, d') \<Longrightarrow>
      ws_queued d' = add_mset t (ws_queued d)"
    using ws_hand_over_contract(4) [OF inv] ws_pick_range(1) [of d]
    by (auto simp: ws_dispatch_pick split: option.splits)
  assume "td_dispatch ws_dispatcher_ops c t d = Ret (e, d')"
  then show "ws_inv d'" "ws_inbox d' = ws_inbox d"
    using ws_hand_over_contract(1,2) [OF inv] ws_pick_range(1) [of d] inv
    by (auto simp: ws_dispatch_pick split: option.splits)
next
  fix d c d' ev and x
  assume inv: "ws_inv d"
  show "td_receive_event ws_dispatcher_ops c d = Ret (Inr ev, d') \<Longrightarrow>
      ws_inbox d = ev # ws_inbox d' \<and> ws_queued d' = ws_queued d \<and> ws_inv d'"
    using inv by (auto simp: ws_receive_event_cases ws_inbox_def ws_queued_def on_done_def
        ws_inv_pop_event dest!: select_in split: list.splits if_splits)
  show "td_receive_event ws_dispatcher_ops c d = Ret (Inl x, d') \<Longrightarrow>
      ctx_done c \<and> x = ctx_err c \<and> d' = d"
    using inv by (auto simp: ws_receive_event_cases on_done_def dest!: select_in
        split: list.splits if_splits)
  show "(td_receive_event ws_dispatcher_ops c d = Block) = (\<not> ctx_done c \<and> ws_inbox d = [])"
    using inv by (simp add: ws_receive_event_cases select_Block on_done_def split: list.split)
  show "td_receive_event ws_dispatcher_ops c d \<noteq> Panic"
    using inv by (simp add: ws_receive_event_cases)
qed

section \<open>Successive tasks go to successive workers\<close>

fun ws_dispatch_all :: "ctx \<Rightarrow> task list \<Rightarrow> ws_dispatcher \<Rightarrow> (go_error option list \<times> ws_dispatcher) outcome" where
  "ws_dispatch_all c [] d = Ret ([], d)"
| "ws_dispatch_all c (t # ts) d =
     obind (ws_dispatch c t d) (\<lambda>(e, d1).
       omap (\<lambda>(es, d2). (e # es, d2)) (ws_dispatch_all c ts d1))"

definition ws_ready :: "ws_dispatcher \<Rightarrow> nat \<Rightarrow> bool" where
  "ws_ready d w \<longleftrightarrow> \<not> wc_busy (wd_heap d w) \<and> chan_room (wc_send (wd_heap d w))"

text \<open>The worker \<open>j\<close> places after \<^verbatim>\<open>nextIdx\<close>.\<close>

definition ws_nth :: "ws_dispatcher \<Rightarrow> nat \<Rightarrow> nat" where
  "ws_nth d j = wd_workers d ! ((wd_nextIdx d + j) mod length (wd_workers d))"

lemma ws_dispatch_first:
  assumes inv: "ws_inv d" and ne: "wd_workers d \<noteq> []" and ready: "ws_ready d (ws_nth d 0)"
    and data: "marshal_task_msg t = Some data"
  shows "ws_dispatch c t d = Ret (None, d\<lparr>
    wd_heap := (wd_heap d)(ws_nth d 0 := (wd_heap d (ws_nth d 0))\<lparr>wc_busy := True,
      wc_send := chan_push data (wc_send (wd_heap d (ws_nth d 0)))\<rparr>),
    wd_nextIdx := (wd_nextIdx d + 1) mod length (wd_workers d)\<rparr>)"
proof -
  let ?idx = "wd_nextIdx d mod length (wd_workers d)"
  have "?idx < length (wd_workers d)" using ne by simp
  then have "\<not> ch_closed (wc_send (wd_heap d (ws_nth d 0)))"
    using inv by (simp add: ws_inv_def conn_ok_def ws_nth_def)
  moreover have "ws_pick d = Some ?idx"
    using ready by (intro ws_pick_first [OF ne]) (simp add: ws_ready_def ws_nth_def)
  ultimately show ?thesis
    using ready data
    by (simp add: ws_dispatch_pick ws_hand_over_def Let_def chan_try_send_open ws_ready_def ws_nth_def
        set_busy_def set_send_def mod_simps)
qed

lemma mod_shift_ne:
  fixes n j :: nat
  assumes "Suc j < n"
  shows "(m + Suc j) mod n \<noteq> m mod n"
proof
  assume "(m + Suc j) mod n = m mod n"
  then have "n dvd (m + Suc j) - m" by (subst (asm) mod_eq_dvd_iff_nat) auto
  then have "n dvd Suc j" by simp
  with assms show False by (auto dest: dvd_imp_le)
qed

lemma ws_dispatch_round:
  assumes "ws_inv d" and "length ts \<le> length (wd_workers d)" and "list_all task_encodable ts"
    and "\<forall>j < length ts. ws_ready d (ws_nth d j)"
  shows "\<exists>d'. ws_dispatch_all c ts d = Ret (replicate (length ts) None, d') \<and>
    wd_workers d' = wd_workers d \<and>
    (\<forall>j < length ts. \<exists>data. marshal_task_msg (ts ! j) = Some data \<and>
       wc_busy (wd_heap d' (ws_nth d j)) \<and>
       ch_buf (wc_send (wd_heap d' (ws_nth d j))) = ch_buf (wc_send (wd_heap d (ws_nth d j))) @ [data]) \<and>
    (\<forall>w. w \<notin> ws_nth d ` {..<length ts} \<longrightarrow> wd_heap d' w = wd_heap d w)"
  using assms
proof (induction ts arbitrary: d)
  case Nil
  then show ?case by simp
next
  case (Cons t ts)
  let ?n = "length (wd_workers d)" and ?w = "ws_nth d 0"
  from Cons.prems have ne: "wd_workers d \<noteq> []" and ready: "ws_ready d ?w" by auto
  obtain data where data: "marshal_task_msg t = Some data"
    using unmarshal_marshal_task_msg [of t] Cons.prems(3) by auto
  define d1 where "d1 = d\<lparr>wd_heap := (wd_heap d)(?w := (wd_heap d ?w)\<lparr>wc_busy := True,
      wc_send := chan_push data (wc_send (wd_heap d ?w))\<rparr>),
    wd_nextIdx := (wd_nextIdx d + 1) mod ?n\<rparr>"
  have step: "ws_dispatch c t d = Ret (None, d1)"
    unfolding d1_def by (rule ws_dispatch_first [OF Cons.prems(1) ne ready data])
  from ws_disp.dispatch_inv [OF Cons.prems(1), of c t None d1] step have inv1: "ws_inv d1" by simp
  have nth1: "ws_nth d1 j = ws_nth d (Suc j)" for j
    by (simp add: ws_nth_def d1_def mod_simps)
  have other: "ws_nth d (Suc j) \<noteq> ?w" if "j < length ts" for j
  proof -
    have "(wd_nextIdx d + Suc j) mod ?n \<noteq> wd_nextIdx d mod ?n"
      using Cons.prems(2) that by (intro mod_shift_ne) simp
    then show ?thesis
      using Cons.prems(1) ne by (simp add: ws_nth_def ws_inv_def nth_eq_iff_index_eq)
  qed
  have same: "wd_heap d1 w = wd_heap d w" if "w \<noteq> ?w" for w using that by (simp add: d1_def)
  have ready1: "\<forall>j < length ts. ws_ready d1 (ws_nth d1 j)"
    using Cons.prems(4) other by (auto simp: nth1 ws_ready_def same)
  from Cons.IH [OF inv1 _ _ ready1] Cons.prems(2,3) obtain d' where
    d': "ws_dispatch_all c ts d1 = Ret (replicate (length ts) None, d')" "wd_workers d' = wd_workers d1"
    and each: "\<forall>j < length ts. \<exists>data. marshal_task_msg (ts ! j) = Some data \<and>
       wc_busy (wd_heap d' (ws_nth d1 j)) \<and>
       ch_buf (wc_send (wd_heap d' (ws_nth d1 j))) = ch_buf (wc_send (wd_heap d1 (ws_nth d1 j))) @ [data]"
    and rest: "\<forall>w. w \<notin> ws_nth d1 ` {..<length ts} \<longrightarrow> wd_heap d' w = wd_heap d1 w"
    by (auto simp: d1_def)
  have "?w \<notin> ws_nth d1 ` {..<length ts}" by (metis imageE lessThan_iff nth1 other)
  with rest have first: "wd_heap d' ?w = wd_heap d1 ?w" by blast
  have "\<exists>data. marshal_task_msg ((t # ts) ! j) = Some data \<and> wc_busy (wd_heap d' (ws_nth d j)) \<and>
      ch_buf (wc_send (wd_heap d' (ws_nth d j))) = ch_buf (wc_send (wd_heap d (ws_nth d j))) @ [data]"
    if "j < length (t # ts)" for j
    using that each data first other by (cases j) (auto simp: nth1 same, simp_all add: d1_def)
  moreover have "wd_heap d' w = wd_heap d w" if w: "w \<notin> ws_nth d ` {..<length (t # ts)}" for w
  proof -
    have "w \<noteq> ?w" "w \<notin> ws_nth d1 ` {..<length ts}" using w by (auto simp: nth1)
    with rest same show ?thesis by simp
  qed
  ultimately show ?case using step d' by (simp add: d1_def)
qed

section \<open>Every interleaving\<close>

definition ws_world_inv :: "ws_world \<Rightarrow> bool" where
  "ws_world_inv s \<longleftrightarrow> ws_inv (ww_disp s) \<and>
     (\<forall>w < wd_fresh (ww_disp s).
        (ww_pump s w = Leaving \<longrightarrow> \<not> ch_closed (wc_send (wd_heap (ww_disp s) w))) \<and>
        (w \<in> set (wd_workers (ww_disp s)) \<longleftrightarrow> ww_pump s w = Reading \<or> ww_pump s w = Freeing))"

lemma ws_world_inv_start: "ws_world_inv ws_world_start"
  by (simp add: ws_world_inv_def ws_world_start_def NewWebSocketDispatcher_def ws_inv_def)

lemma ws_dispatch_keeps:
  assumes "ws_inv d" and "ws_dispatch c t d = Ret (e, d')"
  shows "wd_workers d' = wd_workers d" "wd_fresh d' = wd_fresh d"
    "ch_closed (wc_send (wd_heap d' w)) = ch_closed (wc_send (wd_heap d w))"
proof -
  have "wd_workers d' = wd_workers d \<and> wd_fresh d' = wd_fresh d \<and>
      ch_closed (wc_send (wd_heap d' w)) = ch_closed (wc_send (wd_heap d w))"
  proof (cases "ws_pick d")
    case None
    with assms show ?thesis by (auto simp: ws_dispatch_pick)
  next
    case (Some idx)
    from ws_hand_over_cases [OF assms(1) ws_pick_range(1) [OF Some], of t] assms(2) Some
    show ?thesis by (cases e; cases "w = wd_workers d ! idx") (auto simp: ws_dispatch_pick)
  qed
  then show "wd_workers d' = wd_workers d" "wd_fresh d' = wd_fresh d"
    "ch_closed (wc_send (wd_heap d' w)) = ch_closed (wc_send (wd_heap d w))" by simp_all
qed

lemma ws_read_message_eq:
  assumes "ws_inv d" and "ws_read_message raw d = Ret (pc, d')"
  shows "(pc = Reading \<or> pc = Freeing) \<and>
    (\<exists>ev. d' = d \<or> chan_room (wd_events d) \<and> d' = d\<lparr>wd_events := chan_push ev (wd_events d)\<rparr>)"
  using assms
  by (auto simp: ws_read_message_def ws_inv_def chan_send_def chan_try_send_open
      split: option.splits if_splits)

lemma pump_turn_keeps:
  assumes "pump_turn e c = Ret (r, c')"
  shows "ch_closed c' = ch_closed c" "ch_cap c' = ch_cap c" "chan_ok c \<Longrightarrow> chan_ok c'"
  using assms
  by (auto simp: pump_turn_def chan_recv_def chan_ok_def dest!: select_in
      split: list.splits if_splits)

lemma conn_ok_pump:
  "conn_ok wc \<Longrightarrow> pump_turn e (wc_send wc) = Ret (r, ch) \<Longrightarrow> conn_ok (wc\<lparr>wc_send := ch\<rparr>)"
  using pump_turn_keeps [of e "wc_send wc" r ch] by (auto simp: conn_ok_def)

lemma ws_step_inv:
  assumes "ws_step s s'" and inv: "ws_world_inv s"
  shows "ws_world_inv s'"
  using assms(1)
proof cases
  case (step_register u w d)
  from step_register(2) have w: "w = wd_fresh (ww_disp s)" and d: "wd_workers d = wd_workers (ww_disp s) @ [w]"
    "wd_fresh d = Suc w" "wd_events d = wd_events (ww_disp s)"
    "\<And>v. v \<noteq> w \<Longrightarrow> wd_heap d v = wd_heap (ww_disp s) v" and ok: "conn_ok (wd_heap d w)"
    by (auto simp: ws_register_def Let_def conn_ok_def)
  have "w \<notin> set (wd_workers (ww_disp s))" using inv w by (auto simp: ws_world_inv_def ws_inv_def)
  then have "ws_inv d" using inv w d ok
    by (fastforce simp: ws_world_inv_def ws_inv_def)
  with step_register(1) inv w d show ?thesis by (auto simp: ws_world_inv_def less_Suc_eq)
next
  case (step_dispatch c t e d)
  have wi: "ws_inv (ww_disp s)" using inv by (simp add: ws_world_inv_def)
  from ws_disp.dispatch_inv [OF wi, of c t e d] step_dispatch have "ws_inv d" by simp
  with step_dispatch inv ws_dispatch_keeps [OF wi step_dispatch(2)] show ?thesis
    by (simp add: ws_world_inv_def)
next
  case (step_receive c r d)
  then have "\<exists>ch. d = (ww_disp s)\<lparr>wd_events := ch\<rparr> \<and> ch_closed ch = ch_closed (wd_events (ww_disp s)) \<and>
      (chan_ok (wd_events (ww_disp s)) \<longrightarrow> chan_ok ch) \<or> d = ww_disp s"
    by (fastforce simp: ws_receive_event_def on_done_def on_recv_def chan_recv_def chan_ok_def
        dest!: select_in split: list.splits if_splits)
  with step_receive inv show ?thesis by (auto simp: ws_world_inv_def ws_inv_def)
next
  case (step_write w e r d)
  then obtain ch where ch: "pump_turn e (wc_send (wd_heap (ww_disp s) w)) = Ret (r, ch)"
    "d = set_send ch w (ww_disp s)" by (auto simp: ws_write_turn_def)
  with step_write inv pump_turn_keeps(1) [OF ch(1)] conn_ok_pump [OF _ ch(1)] show ?thesis
    by (auto simp: ws_world_inv_def ws_inv_def)
next
  case (step_message w raw pc d)
  have wi: "ws_inv (ww_disp s)" using inv by (simp add: ws_world_inv_def)
  from ws_read_message_eq [OF wi step_message(4)] step_message inv show ?thesis
    by (auto simp: ws_world_inv_def ws_inv_def chan_ok_push)
next
  case (step_free w)
  with inv show ?thesis by (auto simp: ws_world_inv_def ws_inv_def)
next
  case (step_disconnect w)
  with inv show ?thesis
    by (auto simp: ws_world_inv_def ws_inv_def ws_remove_def conn_ok_def)
next
  case (step_close w d)
  then have "w \<notin> set (wd_workers (ww_disp s))" using inv by (auto simp: ws_world_inv_def)
  with step_close inv show ?thesis
    by (auto simp: ws_world_inv_def ws_inv_def ws_close_send_def chan_close_def split: if_splits)
qed

lemma ws_steps_inv: "ws_step\<^sup>*\<^sup>* s s' \<Longrightarrow> ws_world_inv s \<Longrightarrow> ws_world_inv s'"
  by (induction rule: rtranclp_induct) (auto dest: ws_step_inv)

section \<open>A connected consumer\<close>

definition ws_connected :: "ws_consumer \<Rightarrow> bool" where
  "ws_connected k \<longleftrightarrow> (\<exists>i. wk_current k = Some i \<and> \<not> ch_closed (wk_heap k i) \<and> chan_ok (wk_heap k i))"

definition ws_outbox :: "ws_consumer \<Rightarrow> string list" where
  "ws_outbox k = (case wk_current k of Some i \<Rightarrow> ch_buf (wk_heap k i) | None \<Rightarrow> [])"

lemma ws_emit_connected:
  assumes "wk_current k = Some i" and "\<not> ch_closed (wk_heap k i)"
  shows "ws_emit c ev k =
    (if chan_room (wk_heap k i)
     then Ret (None, k\<lparr>wk_heap := (wk_heap k)(i := chan_push (marshal_event ev) (wk_heap k i))\<rparr>)
     else if is_terminal ev then Block else Ret (None, k))"
  using assms by (auto simp: ws_emit_def Let_def is_terminal_def chan_send_def chan_try_send_open)

interpretation ws_emitter: reliable_emitter ws_consumer_ops ws_connected ws_outbox marshal_event
  "\<lambda>_. True" "\<lambda>_. True"
proof unfold_locales
  fix c x ev e c'
  assume "ws_connected c"
  then obtain i where i: "wk_current c = Some i" "\<not> ch_closed (wk_heap c i)" "chan_ok (wk_heap c i)"
    by (auto simp: ws_connected_def)
  note emit = ws_emit_connected [OF i(1,2), of x ev]
  show "tc_emit ws_consumer_ops x ev c = Ret (e, c') \<Longrightarrow> ws_connected c'"
    using i emit by (auto simp: ws_connected_def chan_ok_push split: if_splits)
  show "tc_emit ws_consumer_ops x ev c \<noteq> Panic" using emit by simp
  show "is_terminal ev \<Longrightarrow> tc_emit ws_consumer_ops x ev c = Ret (e, c') \<Longrightarrow>
      ws_outbox c' = ws_outbox c @ [marshal_event ev]"
    using i emit by (auto simp: ws_outbox_def split: if_splits)
  show "\<not> is_terminal ev \<Longrightarrow> \<exists>e c'. tc_emit ws_consumer_ops x ev c = Ret (e, c') \<and>
      (ws_outbox c' = ws_outbox c \<or> ws_outbox c' = ws_outbox c @ [marshal_event ev])"
    using i emit by (auto simp: ws_outbox_def)
qed

text \<open>The connection's read loop turns the dispatcher's message back into the task.\<close>

lemma ws_conn_message_task:
  assumes "task_encodable t" and "marshal_task_msg t = Some raw" and "\<not> ctx_done x"
    and "chan_room (wk_tasks k)"
  shows "ws_conn_message x i raw k = Ret (True, k\<lparr>wk_tasks := chan_push t (wk_tasks k)\<rparr>)"
proof -
  have "unmarshal_task_msg raw = Some \<lparr>tg_Type = msgTypeTask, tg_Task = t\<rparr>"
    using unmarshal_marshal_task_msg [OF assms(1)] assms(2) by auto
  with assms(3,4) show ?thesis by (simp add: ws_conn_message_def)
qed

section \<open>A session of the worker\<close>

lemma ws_conn_check_cases:
  assumes "ws_conn_check t i k = Ret (go, k')"
  shows "wk_tasks k' = wk_tasks k \<and> wk_current k' = wk_current k \<and> (go \<longrightarrow> k' = k \<and> \<not> ctx_done (ct_ctx t))"
  using assms
  by (auto simp: ws_conn_check_def on_done_def select_def chan_close_def split: if_splits bool.splits)

lemma ws_conn_message_keeps:
  assumes "ws_conn_message x i raw k = Ret (go, k')"
  shows "wk_current k' = wk_current k \<and> (go \<longrightarrow> wk_heap k' = wk_heap k) \<and>
    (\<exists>ts. ch_buf (wk_tasks k') = ch_buf (wk_tasks k) @ ts)"
proof (cases "unmarshal_task_msg raw")
  case (Some g)
  show ?thesis
  proof (cases "tg_Type g = msgTypeTask")
    case True
    from assms Some True obtain r where
      "select (ctx_pick x) (on_send (tg_Task g) (wk_tasks k) Some @ on_done x None) = Ret r"
      and r: "(case r of Some ch \<Rightarrow> Ret (True, k\<lparr>wk_tasks := ch\<rparr>)
         | None \<Rightarrow> omap (\<lambda>c. (False, k\<lparr>wk_heap := (wk_heap k)(i := c)\<rparr>)) (chan_close (wk_heap k i))) = Ret (go, k')"
      by (auto simp: ws_conn_message_def)
    then have "r = None \<or> r = Some (chan_push (tg_Task g) (wk_tasks k))"
      by (auto simp: on_send_def on_done_def dest!: select_in split: if_splits)
    with r show ?thesis by (auto simp: chan_push_def)
  qed (use assms Some in \<open>simp add: ws_conn_message_def\<close>)
qed (use assms in \<open>simp add: ws_conn_message_def\<close>)

text \<open>Without cancellation the read loop does not panic.\<close>

lemma ws_run_conn_quiet:
  assumes "\<forall>t \<in> set ts. \<not> ctx_done (ct_ctx t)"
  shows "ws_run_conn i ts k \<noteq> Panic"
  using assms
proof (induction ts arbitrary: k)
  case (Cons t ts)
  then have nd: "\<not> ctx_done (ct_ctx t)" by simp
  have "ws_conn_message (ct_ctx t) i raw k \<noteq> Panic" for raw
  proof (cases "unmarshal_task_msg raw")
    case (Some g)
    with nd show ?thesis
      by (auto simp: ws_conn_message_def on_done_def on_send_def select_def)
  qed (simp add: ws_conn_message_def)
  with nd Cons show ?case
    by (auto simp: ws_conn_check_def on_done_def select_def split: sum.splits if_splits)
qed simp

lemma ws_run_conn_keeps:
  "ws_run_conn i ts k = Ret (go, k') \<Longrightarrow>
    wk_current k' = wk_current k \<and> (\<exists>new. ch_buf (wk_tasks k') = ch_buf (wk_tasks k) @ new)"
proof (induction ts arbitrary: k)
  case (Cons t ts)
  from Cons.prems obtain g k1 where g: "ws_conn_check t i k = Ret (g, k1)" by auto
  note k1 = ws_conn_check_cases [OF this]
  show ?case
  proof (cases "g \<and> (\<exists>raw. ct_read t = Inr raw)")
    case True
    then obtain raw where raw: "g" "ct_read t = Inr raw" by blast
    with Cons.prems g obtain g2 k2 where k2: "ws_conn_message (ct_ctx t) i raw k1 = Ret (g2, k2)"
      "if g2 then ws_run_conn i ts k2 = Ret (go, k') else k' = k2"
      by (auto split: if_splits)
    from ws_conn_message_keeps [OF k2(1)] k2(2) Cons.IH [of k2] k1 show ?thesis
      by (auto split: if_splits)
  qed (use Cons.prems g k1 in \<open>auto split: sum.splits if_splits\<close>)
qed simp

text \<open>After the end of a session every event is dropped without an error, a terminal one too.\<close>

lemma ws_session_over:
  assumes "ws_session ts k = Ret (False, k')"
  shows "wk_current k' = None" "ws_emit x ev k' = Ret (None, k')"
    "\<exists>new. ch_buf (wk_tasks k') = ch_buf (wk_tasks k) @ new"
proof -
  obtain i k1 where d: "ws_dialed k = (i, k1)" by (cases "ws_dialed k")
  with assms obtain k2 k3 where k2: "ws_send_ready i k1 = Ret k2" "ws_run_conn i ts k2 = Ret (False, k3)"
    and k': "k' = ws_connection_over k3"
    by (auto simp: ws_session_def split: if_splits)
  have "wk_tasks k2 = wk_tasks k" using d k2(1) by (auto simp: ws_dialed_def ws_send_ready_def Let_def)
  with ws_run_conn_keeps [OF k2(2)] k' show "\<exists>new. ch_buf (wk_tasks k') = ch_buf (wk_tasks k) @ new"
    by (simp add: ws_connection_over_def)
  from k' show "wk_current k' = None" by (simp add: ws_connection_over_def)
  then show "ws_emit x ev k' = Ret (None, k')" by (simp add: ws_emit_def Let_def)
qed

section \<open>Reconnection delays\<close>

lemma ws_backoff_bounds: "0 < n \<Longrightarrow> 500 * Millisecond \<le> ws_backoff n \<and> ws_backoff n \<le> 10 * Second"
  by (simp add: ws_backoff_def)

lemma ws_reconnect_failures:
  assumes "\<forall>a \<in> set as. \<not> di_stop a \<and> \<not> ctx_done (di_wait a) \<and> \<not> di_ok a" and "0 < n"
  shows "ws_reconnect n as = map (\<lambda>i. ws_backoff (n + i)) [0..<length as]"
  using assms
proof (induction as arbitrary: n)
  case (Cons a as)
  have IH: "ws_reconnect (Suc n) as = map (\<lambda>i. ws_backoff (Suc n + i)) [0..<length as]"
    by (rule Cons.IH) (use Cons.prems in auto)
  have a: "\<not> di_stop a" "\<not> ctx_done (di_wait a)" "\<not> di_ok a" using Cons.prems(1) by auto
  then have "ws_reconnect n (a # as) = ws_backoff n # ws_reconnect (Suc n) as"
    using Cons.prems(2) by simp
  also have "\<dots> = map (\<lambda>i. ws_backoff (n + i)) [0..<Suc (length as)]"
    by (simp only: IH map_upt_Suc add_0_right add_Suc_right add_Suc)
  finally show ?case by simp
qed simp

end
