(* ===== verification/GrpcConvert.thy ===== *)
theory GrpcConvert
  imports Contracts "HOL-Library.Word"
begin

text \<open>
  Pattern 4, \<^verbatim>\<open>patterns/p04/internal/grpc/converter.go\<close>: conversion between the model types
  and the protobuf messages of \<^verbatim>\<open>proto/work.proto\<close>. A message is a record of the fields the
  converters set or read; an \<^verbatim>\<open>optional\<close> field is an option. Times travel as whole seconds,
  progress as an \<^verbatim>\<open>int32\<close> (the conversion wraps, \<^const>\<open>signed_take_bit\<close>).

  \<open>event_proto_round\<close>: events survive when their progress fits 32 bits.
  \<open>task_proto_view\<close> is what a task becomes on the other side.
\<close>

section \<open>Messages\<close>

record pb_task =
  pt_Id :: string
  pt_Title :: string
  pt_Status :: string
  pt_Stages :: "string list"
  pt_CreatedAt :: int
  pt_UpdatedAt :: int
  pt_UserId :: string

record pb_event =
  pe_TaskId :: string
  pe_EventType :: string
  pe_Status :: string
  pe_StageName :: "string option"
  pe_Progress :: "int option"
  pe_Timestamp :: int
  pe_UserId :: string

section \<open>Conversions\<close>

text \<open>\<^verbatim>\<open>Time.Unix\<close> and \<^verbatim>\<open>time.Unix(s, 0)\<close>.\<close>

definition unix :: "instant \<Rightarrow> int" where
  "unix i = i div Second"

definition from_unix :: "int \<Rightarrow> instant" where
  "from_unix s = s * Second"

definition TaskToProto :: "task \<Rightarrow> pb_task" where
  "TaskToProto t =
     (let createdAt = unix (task_SubmittedAt t);
          updatedAt = (case task_CompletedAt t of
              Some c \<Rightarrow> unix c
            | None \<Rightarrow> (case task_DispatchedAt t of Some d \<Rightarrow> unix d | None \<Rightarrow> unix (task_SubmittedAt t)))
      in \<lparr>pt_Id = task_ID t, pt_Title = task_Name t, pt_Status = task_Status t,
          pt_Stages = map stage_Name (task_Stages t), pt_CreatedAt = createdAt,
          pt_UpdatedAt = updatedAt, pt_UserId = task_UserID t\<rparr>)"

definition ProtoToTask :: "pb_task \<Rightarrow> task" where
  "ProtoToTask p =
     (let stages = map (\<lambda>(i, nm). \<lparr>stage_Index = int i, stage_Name = nm\<rparr>) (enumerate 0 (pt_Stages p));
          t = from_unix (pt_UpdatedAt p);
          done = pt_Status p = TaskCompleted \<or> pt_Status p = TaskFailed;
          completedAt = (if pt_UpdatedAt p \<noteq> pt_CreatedAt p \<and> done then Some t else None);
          dispatchedAt = (if pt_UpdatedAt p \<noteq> pt_CreatedAt p \<and> \<not> done \<and> pt_Status p = TaskRunning
                          then Some t else None)
      in \<lparr>task_ID = pt_Id p, task_Name = pt_Title p, task_Status = pt_Status p,
          task_UserID = pt_UserId p, task_SubmittedAt = from_unix (pt_CreatedAt p),
          task_DispatchedAt = dispatchedAt, task_CompletedAt = completedAt, task_Stages = stages\<rparr>)"

text \<open>\<open>now\<close> is the value of \<^verbatim>\<open>time.Now()\<close>.\<close>

definition EventToProto :: "instant \<Rightarrow> task_event \<Rightarrow> pb_event" where
  "EventToProto now e =
     \<lparr>pe_TaskId = ev_TaskID e, pe_EventType = ev_Type e,
      pe_Status = (if ev_Status e \<noteq> [] then ev_Status e else []),
      pe_StageName = (if ev_StageName e \<noteq> [] then Some (ev_StageName e) else None),
      pe_Progress = (if ev_Progress e \<noteq> 0 then Some (signed_take_bit 31 (ev_Progress e)) else None),
      pe_Timestamp = unix now, pe_UserId = ev_UserID e\<rparr>"

definition ProtoToEvent :: "pb_event \<Rightarrow> task_event" where
  "ProtoToEvent p =
     \<lparr>ev_Type = pe_EventType p, ev_TaskID = pe_TaskId p, ev_UserID = pe_UserId p,
      ev_StageName = (case pe_StageName p of Some s \<Rightarrow> s | None \<Rightarrow> []),
      ev_Progress = (case pe_Progress p of Some n \<Rightarrow> n | None \<Rightarrow> 0),
      ev_Status = (if pe_Status p \<noteq> [] then pe_Status p else [])\<rparr>"

section \<open>Round trips\<close>

lemma event_proto_progress:
  "ProtoToEvent (EventToProto now ev) = ev\<lparr>ev_Progress := signed_take_bit 31 (ev_Progress ev)\<rparr>"
  by (simp add: ProtoToEvent_def EventToProto_def)

lemma event_proto_round:
  assumes "- (2 ^ 31) \<le> ev_Progress ev" and "ev_Progress ev < 2 ^ 31"
  shows "ProtoToEvent (EventToProto now ev) = ev"
  using assms by (simp add: event_proto_progress signed_take_bit_int_eq_self)

text \<open>What a task looks like after the trip.\<close>

definition whole_second :: "instant \<Rightarrow> instant" where
  "whole_second i = from_unix (unix i)"

definition renumber :: "stage list \<Rightarrow> stage list" where
  "renumber ss = map (\<lambda>(i, s). s\<lparr>stage_Index := int i\<rparr>) (enumerate 0 ss)"

definition task_proto_view :: "task \<Rightarrow> task" where
  "task_proto_view t =
     (let updated = (case task_CompletedAt t of Some c \<Rightarrow> Some c | None \<Rightarrow> task_DispatchedAt t);
          seen = (case updated of
              Some i \<Rightarrow> if unix i \<noteq> unix (task_SubmittedAt t) then Some (whole_second i) else None
            | None \<Rightarrow> None)
      in t\<lparr>task_SubmittedAt := whole_second (task_SubmittedAt t),
           task_DispatchedAt := (if task_Status t = TaskRunning then seen else None),
           task_CompletedAt := (if terminal_status (task_Status t) then seen else None),
           task_Stages := renumber (task_Stages t)\<rparr>)"

lemma renumber_names:
  "map (\<lambda>(i, nm). \<lparr>stage_Index = int i, stage_Name = nm\<rparr>) (enumerate k (map stage_Name ss)) =
     map (\<lambda>(i, s). s\<lparr>stage_Index := int i\<rparr>) (enumerate k ss)"
  by (induction ss arbitrary: k) auto

lemma task_proto_round: "ProtoToTask (TaskToProto t) = task_proto_view t"
  by (auto simp: ProtoToTask_def TaskToProto_def task_proto_view_def Let_def renumber_def
      renumber_names whole_second_def terminal_status_def split: option.split)

text \<open>A stage list made by \<^verbatim>\<open>NewTask\<close> already has its positions as indices.\<close>

lemma renumber_new_task: "renumber (task_Stages (new_task u now nm n)) = task_Stages (new_task u now nm n)"
proof -
  have "map (\<lambda>(i, s). s\<lparr>stage_Index := int i\<rparr>)
      (enumerate k (map (\<lambda>i. \<lparr>stage_Index = int i, stage_Name = f i\<rparr>) [k..<m])) =
    map (\<lambda>i. \<lparr>stage_Index = int i, stage_Name = f i\<rparr>) [k..<m]" for k m and f :: "nat \<Rightarrow> string"
    by (induction "m - k" arbitrary: k) (auto simp: upt_conv_Cons)
  then show ?thesis unfolding renumber_def new_task_stages .
qed

lemma new_task_proto_round:
  "ProtoToTask (TaskToProto ((new_task u now nm n)\<lparr>task_UserID := uid\<rparr>)) =
     (new_task u now nm n)\<lparr>task_UserID := uid, task_SubmittedAt := whole_second now\<rparr>"
  by (simp add: task_proto_round task_proto_view_def Let_def renumber_new_task)

lemma whole_second_bounds: "whole_second i \<le> i \<and> i < whole_second i + Second"
proof -
  have "i = 1000000000 * (i div 1000000000) + i mod 1000000000" by simp
  moreover have "0 \<le> i mod 1000000000" "i mod 1000000000 < 1000000000" by simp_all
  ultimately show ?thesis by (simp add: whole_second_def from_unix_def unix_def) linarith
qed

end
