(* ===== verification/Store.thy ===== *)
theory Store
  imports Contracts
begin

text \<open>
  \<^verbatim>\<open>shared/store/memory.go\<close>: the in-memory task store of patterns 1 to 4. The map holds
  pointers to tasks the store owns (\<^verbatim>\<open>Create\<close> copies its argument, \<^verbatim>\<open>Get\<close> and \<^verbatim>\<open>List\<close>
  return copies), so a map of values is the same thing; each method holds the mutex for
  its whole body, so each is one atomic step.

  The theory interprets \<open>task_store_contract\<close> for the store and shows that a run of any
  sequence of operations is observed like a plain map (\<open>memory_store_refines_map\<close>).
\<close>

section \<open>MemoryStore\<close>

record memory_store =
  ms_tasks :: "(string, task) gomap"

definition NewMemoryStore :: memory_store where
  "NewMemoryStore = \<lparr>ms_tasks = []\<rparr>"

definition mem_create :: "task \<Rightarrow> memory_store \<Rightarrow> go_error option \<times> memory_store" where
  "mem_create t s =
     (if map_of (ms_tasks s) (task_ID t) \<noteq> None
      then (Some (Errorf (''task '' @ task_ID t @ '' already exists'')), s)
      else (None, s\<lparr>ms_tasks := AList.update (task_ID t) t (ms_tasks s)\<rparr>))"

definition mem_get :: "string \<Rightarrow> memory_store \<Rightarrow> task option" where
  "mem_get i s = map_of (ms_tasks s) i"

definition mem_list :: "nat \<Rightarrow> memory_store \<Rightarrow> task list" where
  "mem_list p s = map snd (range_order p (ms_tasks s))"

definition mem_set_status ::
    "instant \<Rightarrow> string \<Rightarrow> string \<Rightarrow> memory_store \<Rightarrow> go_error option \<times> memory_store" where
  "mem_set_status now i st s =
     (case map_of (ms_tasks s) i of
        None \<Rightarrow> (Some (Errorf (''task '' @ i @ '' not found'')), s)
      | Some t \<Rightarrow>
          let t1 = t\<lparr>task_Status := st\<rparr>;
              t2 = (if st = TaskCompleted \<or> st = TaskFailed
                    then t1\<lparr>task_CompletedAt := Some now\<rparr> else t1)
          in (None, s\<lparr>ms_tasks := AList.update i t2 (ms_tasks s)\<rparr>))"

definition mem_set_dispatched_at ::
    "string \<Rightarrow> instant \<Rightarrow> memory_store \<Rightarrow> go_error option \<times> memory_store" where
  "mem_set_dispatched_at i at s =
     (case map_of (ms_tasks s) i of
        None \<Rightarrow> (Some (Errorf (''task '' @ i @ '' not found'')), s)
      | Some t \<Rightarrow>
          (None, s\<lparr>ms_tasks := AList.update i (t\<lparr>task_DispatchedAt := Some at\<rparr>) (ms_tasks s)\<rparr>))"

definition memory_store_ops :: "memory_store task_store" where
  "memory_store_ops = \<lparr>ts_create = mem_create, ts_get = mem_get, ts_list = mem_list,
     ts_set_status = mem_set_status, ts_set_dispatched_at = mem_set_dispatched_at\<rparr>"

section \<open>Invariant and abstraction\<close>

definition mem_inv :: "memory_store \<Rightarrow> bool" where
  "mem_inv s \<longleftrightarrow> distinct (map fst (ms_tasks s)) \<and>
     list_all (\<lambda>(k, t). task_ID t = k) (ms_tasks s)"

definition mem_tasks :: "memory_store \<Rightarrow> task_map" where
  "mem_tasks s = map_of (ms_tasks s)"

section \<open>Operation sequences\<close>

datatype store_op =
    OpCreate task
  | OpGet string
  | OpList nat
  | OpSetStatus instant string string
  | OpSetDispatchedAt string instant

text \<open>What a caller observes of one operation; a listing is observed up to its order.\<close>

datatype store_obs = ObsFailed bool | ObsTask "task option" | ObsTasks "task set" nat

fun mem_op :: "store_op \<Rightarrow> memory_store \<Rightarrow> store_obs \<times> memory_store" where
  "mem_op (OpCreate t) s = (let (e, s') = mem_create t s in (ObsFailed (e \<noteq> None), s'))"
| "mem_op (OpGet i) s = (ObsTask (mem_get i s), s)"
| "mem_op (OpList p) s = (ObsTasks (set (mem_list p s)) (length (mem_list p s)), s)"
| "mem_op (OpSetStatus now i st) s =
     (let (e, s') = mem_set_status now i st s in (ObsFailed (e \<noteq> None), s'))"
| "mem_op (OpSetDispatchedAt i at) s =
     (let (e, s') = mem_set_dispatched_at i at s in (ObsFailed (e \<noteq> None), s'))"

fun mem_run :: "store_op list \<Rightarrow> memory_store \<Rightarrow> store_obs list \<times> memory_store" where
  "mem_run [] s = ([], s)"
| "mem_run (x # xs) s =
     (let (b, s1) = mem_op x s; (bs, s2) = mem_run xs s1 in (b # bs, s2))"

text \<open>The same operations on a plain map.\<close>

fun map_op :: "store_op \<Rightarrow> task_map \<Rightarrow> store_obs \<times> task_map" where
  "map_op (OpCreate t) m = (ObsFailed (m (task_ID t) \<noteq> None), spec_create t m)"
| "map_op (OpGet i) m = (ObsTask (m i), m)"
| "map_op (OpList p) m = (ObsTasks (ran m) (card (dom m)), m)"
| "map_op (OpSetStatus now i st) m =
     (ObsFailed (m i = None),
      case m i of None \<Rightarrow> m
      | Some t \<Rightarrow> m(i \<mapsto> (if terminal_status st then with_status now st t
                          else t\<lparr>task_Status := st\<rparr>)))"
| "map_op (OpSetDispatchedAt i at) m = (ObsFailed (m i = None), spec_dispatched i at m)"

fun map_run :: "store_op list \<Rightarrow> task_map \<Rightarrow> store_obs list \<times> task_map" where
  "map_run [] m = ([], m)"
| "map_run (x # xs) m =
     (let (b, m1) = map_op x m; (bs, m2) = map_run xs m1 in (b # bs, m2))"

section \<open>Lemmas\<close>

lemma memory_store_ops_simps [simp]:
  "ts_create memory_store_ops = mem_create"
  "ts_get memory_store_ops = mem_get"
  "ts_list memory_store_ops = mem_list"
  "ts_set_status memory_store_ops = mem_set_status"
  "ts_set_dispatched_at memory_store_ops = mem_set_dispatched_at"
  by (simp_all add: memory_store_ops_def)

lemma mem_inv_new [simp]: "mem_inv NewMemoryStore"
  by (simp add: mem_inv_def NewMemoryStore_def)

lemma mem_tasks_new [simp]: "mem_tasks NewMemoryStore = Map.empty"
  by (simp add: mem_tasks_def NewMemoryStore_def)

lemma list_all_update_key:
  assumes "list_all (\<lambda>(k, t). task_ID t = k) m" and "task_ID v = k"
  shows "list_all (\<lambda>(k, t). task_ID t = k) (AList.update k v m)"
  using assms by (induction m) auto

lemma mem_inv_update:
  "mem_inv s \<Longrightarrow> task_ID v = k \<Longrightarrow> mem_inv (s\<lparr>ms_tasks := AList.update k v (ms_tasks s)\<rparr>)"
  by (simp add: mem_inv_def list_all_update_key)

lemma mem_tasks_update [simp]:
  "mem_tasks (s\<lparr>ms_tasks := AList.update k v (ms_tasks s)\<rparr>) = (mem_tasks s)(k \<mapsto> v)"
  by (simp add: mem_tasks_def)

lemma mem_keys: "mem_inv s \<Longrightarrow> mem_tasks s i = Some t \<Longrightarrow> task_ID t = i"
  by (auto simp: mem_inv_def mem_tasks_def list_all_iff dest: map_of_SomeD)

lemma mem_list_set: "mem_inv s \<Longrightarrow> set (mem_list p s) = ran (mem_tasks s)"
  by (simp add: mem_list_def mem_tasks_def mem_inv_def ran_distinct)

lemma mem_list_length:
  assumes "mem_inv s"
  shows "length (mem_list p s) = card (dom (mem_tasks s))"
proof -
  have "card (dom (mem_tasks s)) = card (set (map fst (ms_tasks s)))"
    by (simp add: mem_tasks_def dom_map_of_conv_image_fst)
  also have "\<dots> = length (map fst (ms_tasks s))"
    using assms by (intro distinct_card) (simp add: mem_inv_def)
  finally show ?thesis by (simp add: mem_list_def)
qed

lemma mem_list_distinct:
  assumes "mem_inv s"
  shows "distinct (map task_ID (mem_list p s))"
proof -
  have "map (\<lambda>x. task_ID (snd x)) (ms_tasks s) = map fst (ms_tasks s)"
    using assms by (auto simp: mem_inv_def list_all_iff)
  with assms have "distinct (map (\<lambda>x. task_ID (snd x)) (ms_tasks s))"
    by (simp only: mem_inv_def)
  then show ?thesis
    by (simp add: mem_list_def comp_def)
qed

lemma mem_create_eq:
  "mem_create t s = (if mem_tasks s (task_ID t) \<noteq> None
     then (Some (Errorf (''task '' @ task_ID t @ '' already exists'')), s)
     else (None, s\<lparr>ms_tasks := AList.update (task_ID t) t (ms_tasks s)\<rparr>))"
  by (simp add: mem_create_def mem_tasks_def)

interpretation mem: task_store_contract memory_store_ops mem_inv mem_tasks
proof unfold_locales
  fix s i t and p :: nat
  assume inv: "mem_inv s"
  show "ts_get memory_store_ops i s = mem_tasks s i"
    by (simp add: mem_get_def mem_tasks_def)
  show "mem_tasks s i = Some t \<Longrightarrow> task_ID t = i"
    using inv by (rule mem_keys)
  show "distinct (map task_ID (ts_list memory_store_ops p s))"
    using inv by (simp add: mem_list_distinct)
  show "set (ts_list memory_store_ops p s) = ran (mem_tasks s)"
    using inv by (simp add: mem_list_set)
next
  fix s t
  assume inv: "mem_inv s"
  show "(fst (ts_create memory_store_ops t s) = None) = (mem_tasks s (task_ID t) = None)"
    by (simp add: mem_create_eq)
  show "mem_tasks (snd (ts_create memory_store_ops t s)) = spec_create t (mem_tasks s)"
    by (simp add: mem_create_eq spec_create_def)
  show "mem_inv (snd (ts_create memory_store_ops t s))"
    using inv by (simp add: mem_create_eq mem_inv_update)
next
  fix s st now i at
  assume inv: "mem_inv s"
  show "terminal_status st \<Longrightarrow> mem_tasks (snd (ts_set_status memory_store_ops now i st s)) =
      spec_finish now i st (mem_tasks s)"
    by (auto simp: mem_set_status_def mem_tasks_def terminal_status_def spec_finish_def
        with_status_def split: option.split)
  show "mem_inv (snd (ts_set_status memory_store_ops now i st s))"
    using inv mem_keys [OF inv, of i]
    by (cases "map_of (ms_tasks s) i")
      (simp_all add: mem_set_status_def mem_tasks_def mem_inv_update Let_def)
  show "mem_tasks (snd (ts_set_dispatched_at memory_store_ops i at s)) =
      spec_dispatched i at (mem_tasks s)"
    by (simp add: mem_set_dispatched_at_def mem_tasks_def spec_dispatched_def split: option.split)
  show "mem_inv (snd (ts_set_dispatched_at memory_store_ops i at s))"
    using inv mem_keys [OF inv, of i]
    by (auto simp: mem_set_dispatched_at_def mem_tasks_def mem_inv_update split: option.split)
qed

lemma mem_op_refines:
  assumes "mem_inv s" and "mem_op x s = (b, s')"
  shows "mem_inv s' \<and> map_op x (mem_tasks s) = (b, mem_tasks s')"
proof (cases x)
  case (OpCreate t)
  with assms show ?thesis
    using mem.create_inv [of s t]
    by (auto simp: mem_create_eq split: if_splits)
next
  case (OpGet i)
  with assms show ?thesis by (auto simp: mem_get_def mem_tasks_def)
next
  case (OpList p)
  with assms show ?thesis by (auto simp: mem_list_set mem_list_length)
next
  case (OpSetStatus now i st)
  with assms show ?thesis
    using mem.finish_inv [of s now i st]
    by (auto simp: mem_set_status_def mem_tasks_def terminal_status_def with_status_def Let_def
        split: option.splits if_splits)
next
  case (OpSetDispatchedAt i at)
  with assms show ?thesis
    using mem.dispatched_inv [of s i at]
    by (auto simp: mem_set_dispatched_at_def mem_tasks_def spec_dispatched_def
        split: option.splits)
qed

lemma mem_run_refines:
  "mem_inv s \<Longrightarrow> mem_run xs s = (bs, s') \<Longrightarrow>
     mem_inv s' \<and> map_run xs (mem_tasks s) = (bs, mem_tasks s')"
proof (induction xs arbitrary: s bs s')
  case Nil
  then show ?case by simp
next
  case (Cons x xs)
  obtain b s1 where x: "mem_op x s = (b, s1)" by (cases "mem_op x s")
  obtain bs2 s2 where xs: "mem_run xs s1 = (bs2, s2)" by (cases "mem_run xs s1")
  from mem_op_refines [OF Cons.prems(1) x] have s1: "mem_inv s1"
    and m: "map_op x (mem_tasks s) = (b, mem_tasks s1)" by auto
  from Cons.IH [OF s1 xs] x xs m Cons.prems(2) show ?case by auto
qed

end
