(* ===== verification/GrpcServer.thy ===== *)
theory GrpcServer
  imports GrpcConvert Bridge Manager Store Json
begin

text \<open>
  Pattern 4, \<^verbatim>\<open>patterns/p04/internal/grpc/server.go\<close>: the gRPC server of the manager
  process, which keeps the connected workers, the queue of pending tasks, the queue of
  available worker IDs and the event subscribers, and its view as a \<^verbatim>\<open>TaskDispatcher\<close>.

  Worker streams and subscriber channels are references (numbers). What the gRPC library
  contributes is whether a \<^verbatim>\<open>Send\<close> succeeds and which messages arrive. \<open>grpc_step\<close>
  interleaves the dispatch loop with everything else; \<open>loop_pc\<close> is where that loop stands.

  \<^item> \<open>grpc_disp\<close>: the dispatcher keeps \<open>dispatcher_contract\<close>.
  \<^item> \<open>grpc_steps_conserved\<close>: every accepted task is pending, held by the loop, or was sent
    to exactly one worker.
  \<^item> \<open>grpc_steps_stuck\<close>: once the loop waits to put a task back into a full queue, nothing
    moves the queue again; \<open>grpc_stuck_reachable\<close>: the server gets there.
  \<^item> \<open>worker_id_reused\<close>: after a worker has left, a new one is given an ID in use.
\<close>

section \<open>Server\<close>

record grpc_server =
  gs_streams :: "(string, nat) gomap"
  gs_available :: "string chan"
  gs_pending :: "task chan"
  gs_subscribers :: "(string, nat) gomap"
  gs_nextSubID :: nat
  gs_subHeap :: "nat \<Rightarrow> task_event chan"
  gs_workerEvents :: "task_event chan"

definition NewServer :: grpc_server where
  "NewServer = \<lparr>gs_streams = [], gs_available = make_chan 100, gs_pending = make_chan 100,
     gs_subscribers = [], gs_nextSubID = 0, gs_subHeap = (\<lambda>_. make_chan 0),
     gs_workerEvents = make_chan 100\<rparr>"

section \<open>The dispatch loop\<close>

text \<open>
  Between two channel operations the loop waits for a task, holds one while it waits for a
  worker, puts one back (and then removes the worker, if one is named), or has returned,
  with a task in hand or without.
\<close>

datatype loop_pc = Waiting | Holding task | Requeue task "string option" | Returned "task option"

definition removeWorker :: "string \<Rightarrow> grpc_server \<Rightarrow> grpc_server" where
  "removeWorker wid s = s\<lparr>gs_streams := AList.delete wid (gs_streams s)\<rparr>"

definition loop_wait :: "ctx \<Rightarrow> grpc_server \<Rightarrow> (loop_pc \<times> grpc_server) outcome" where
  "loop_wait x s =
     select (ctx_pick x)
       (on_done x (Returned None, s) @
        on_recv zero_task (gs_pending s) (\<lambda>t ch. (Holding t, s\<lparr>gs_pending := ch\<rparr>)))"

text \<open>
  With a task in hand: \<open>ok\<close> says whether \<^verbatim>\<open>stream.Send\<close> succeeds. The middle component is
  what was sent and to which stream.
\<close>

definition loop_assign :: "ctx \<Rightarrow> bool \<Rightarrow> task \<Rightarrow> grpc_server \<Rightarrow>
    (loop_pc \<times> (nat \<times> pb_task) option \<times> grpc_server) outcome" where
  "loop_assign x ok t s =
     select (ctx_pick x)
       (on_done x (Returned (Some t), None, s) @
        on_recv [] (gs_available s) (\<lambda>wid ch.
          let s1 = s\<lparr>gs_available := ch\<rparr>
          in case map_of (gs_streams s1) wid of
               None \<Rightarrow> (Requeue t None, None, s1)
             | Some stream \<Rightarrow>
                 if ok then (Waiting, Some (stream, TaskToProto t), s1)
                 else (Requeue t (Some wid), None, s1)))"

definition loop_requeue :: "task \<Rightarrow> string option \<Rightarrow> grpc_server \<Rightarrow> (loop_pc \<times> grpc_server) outcome" where
  "loop_requeue t wid s =
     omap (\<lambda>ch. let s1 = s\<lparr>gs_pending := ch\<rparr>
                in (Waiting, case wid of Some w \<Rightarrow> removeWorker w s1 | None \<Rightarrow> s1))
       (chan_send t (gs_pending s))"

section \<open>Workers\<close>

text \<open>\<^verbatim>\<open>Connect\<close>: the ID, the registration, and the blocking announcement.\<close>

definition worker_id :: "grpc_server \<Rightarrow> string" where
  "worker_id s = ''worker-'' @ itoa (length (gs_streams s) + 1)"

definition connect_register :: "string \<Rightarrow> nat \<Rightarrow> grpc_server \<Rightarrow> grpc_server" where
  "connect_register wid stream s = s\<lparr>gs_streams := AList.update wid stream (gs_streams s)\<rparr>"

definition connect_announce :: "string \<Rightarrow> grpc_server \<Rightarrow> grpc_server outcome" where
  "connect_announce wid s =
     omap (\<lambda>ch. s\<lparr>gs_available := ch\<rparr>) (chan_send wid (gs_available s))"

text \<open>The body of the receive loop for one event of the worker.\<close>

definition connect_event :: "string \<Rightarrow> pb_event \<Rightarrow> grpc_server \<Rightarrow> grpc_server outcome" where
  "connect_event wid pe s =
     (let ev = ProtoToEvent pe
      in obind (chan_try_send ev (gs_workerEvents s)) (\<lambda>(_, ch).
           let s1 = s\<lparr>gs_workerEvents := ch\<rparr>
           in if ev_Type ev = EventTaskStatus \<and> (ev_Status ev = TaskCompleted \<or> ev_Status ev = TaskFailed)
              then omap (\<lambda>(_, av). s1\<lparr>gs_available := av\<rparr>) (chan_try_send wid (gs_available s1))
              else Ret s1))"

section \<open>The TaskManager service\<close>

datatype grpc_error = InvalidArgument string | Internal string | ResourceExhausted string | Unavailable string

definition grpc_submit :: "'s task_store \<Rightarrow> pb_task option \<Rightarrow> grpc_server \<Rightarrow> 's \<Rightarrow>
    (grpc_error option \<times> grpc_server \<times> 's) outcome" where
  "grpc_submit TS req s st =
     (case req of
        None \<Rightarrow> Ret (Some (InvalidArgument ''task is required''), s, st)
      | Some p \<Rightarrow>
          let t = ProtoToTask p; (cerr, st1) = ts_create TS t st
          in case cerr of
               Some e \<Rightarrow> Ret (Some (Internal (''failed to store task: '' @ error_text e)), s, st1)
             | None \<Rightarrow>
                 omap (\<lambda>(sent, ch). if sent then (None, s\<lparr>gs_pending := ch\<rparr>, st1)
                         else (Some (ResourceExhausted ''dispatch queue full''), s, st1))
                   (chan_try_send t (gs_pending s)))"

definition grpc_get :: "'s task_store \<Rightarrow> string \<Rightarrow> 's \<Rightarrow> pb_task option" where
  "grpc_get TS i st = (case ts_get TS i st of None \<Rightarrow> None | Some t \<Rightarrow> Some (TaskToProto t))"

definition grpc_list :: "'s task_store \<Rightarrow> nat \<Rightarrow> 's \<Rightarrow> pb_task list" where
  "grpc_list TS p st = map TaskToProto (ts_list TS p st)"

section \<open>Event subscriptions\<close>

text \<open>One event of the bus offered to every subscriber, in some order of the map.\<close>

definition broadcast_event :: "nat \<Rightarrow> task_event \<Rightarrow> grpc_server \<Rightarrow> grpc_server outcome" where
  "broadcast_event p ev s =
     omap (\<lambda>h. s\<lparr>gs_subHeap := h\<rparr>)
       (offer_all ev (map snd (range_order p (gs_subscribers s))) (gs_subHeap s))"

text \<open>
  A turn of \<^verbatim>\<open>eventBroadcastLoop\<close> on its bus subscription \<open>i\<close>; a closed bus channel yields
  zero events, which the loop does not tell from real ones.
\<close>

definition broadcast_turn :: "ctx \<Rightarrow> nat \<Rightarrow> nat \<Rightarrow> grpc_server \<Rightarrow> memory_bridge \<Rightarrow>
    (bool \<times> grpc_server \<times> memory_bridge) outcome" where
  "broadcast_turn x p i s b =
     obind (select (ctx_pick x)
         (on_done x None @
          on_recv zero_event (mb_heap b i)
            (\<lambda>ev ch. Some (ev, b\<lparr>mb_heap := (mb_heap b)(i := ch)\<rparr>))))
       (\<lambda>r. case r of
          None \<Rightarrow> Ret (False, s, b)
        | Some (ev, b1) \<Rightarrow> omap (\<lambda>s1. (True, s1, b1)) (broadcast_event p ev s))"

text \<open>\<^verbatim>\<open>Subscribe\<close>: the number of a subscription serves as its channel reference too.\<close>

definition sub_id :: "nat \<Rightarrow> string" where
  "sub_id n = ''sub-'' @ itoa n"

definition grpc_subscribe :: "grpc_server \<Rightarrow> nat \<times> grpc_server" where
  "grpc_subscribe s =
     (let n = gs_nextSubID s
      in (n, s\<lparr>gs_nextSubID := Suc n, gs_subHeap := (gs_subHeap s)(n := make_chan 100),
               gs_subscribers := AList.update (sub_id n) n (gs_subscribers s)\<rparr>))"

definition grpc_unsubscribe :: "nat \<Rightarrow> grpc_server \<Rightarrow> grpc_server outcome" where
  "grpc_unsubscribe n s =
     omap (\<lambda>ch. s\<lparr>gs_subscribers := AList.delete (sub_id n) (gs_subscribers s),
                  gs_subHeap := (gs_subHeap s)(n := ch)\<rparr>)
       (chan_close (gs_subHeap s n))"

text \<open>
  A turn of the stream: the message sent, if any, and whether the stream goes on; \<open>taskID\<close>
  is the filter, empty for all tasks.
\<close>

definition subscribe_turn :: "string \<Rightarrow> instant \<Rightarrow> bool \<Rightarrow> nat \<Rightarrow> grpc_server \<Rightarrow>
    (bool \<times> pb_event option \<times> grpc_server) outcome" where
  "subscribe_turn taskID now ok n s =
     obind (chan_recv (gs_subHeap s n)) (\<lambda>(r, ch).
       let s1 = s\<lparr>gs_subHeap := (gs_subHeap s)(n := ch)\<rparr>
       in case r of
            None \<Rightarrow> Ret (False, None, s1)
          | Some ev \<Rightarrow>
              if taskID \<noteq> [] \<and> ev_TaskID ev \<noteq> taskID then Ret (True, None, s1)
              else if ok then Ret (True, Some (EventToProto now ev), s1)
              else Ret (False, None, s1))"

section \<open>GRPCDispatcher\<close>

text \<open>Starting the dispatcher starts the server's two loops; the state does not change.\<close>

definition grpc_start :: "ctx \<Rightarrow> grpc_server \<Rightarrow> go_error option \<times> grpc_server" where
  "grpc_start c s = (None, s)"

definition grpc_dispatch :: "ctx \<Rightarrow> task \<Rightarrow> grpc_server \<Rightarrow> (go_error option \<times> grpc_server) outcome" where
  "grpc_dispatch c t s =
     (if ch_closed (gs_pending s) then Panic
      else
        let alts = on_send t (gs_pending s) (\<lambda>ch. (None, s\<lparr>gs_pending := ch\<rparr>)) @
                   on_done c (Some (ctx_err c), s)
        in if alts = [] then Ret (Some ErrDispatchFull, s) else select (ctx_pick c) alts)"

definition grpc_receive_event ::
    "ctx \<Rightarrow> grpc_server \<Rightarrow> ((go_error + task_event) \<times> grpc_server) outcome" where
  "grpc_receive_event c s =
     select (ctx_pick c)
       (on_done c (Inl (ctx_err c), s) @
        on_recv zero_event (gs_workerEvents s) (\<lambda>ev ch. (Inr ev, s\<lparr>gs_workerEvents := ch\<rparr>)))"

definition grpc_dispatcher_ops :: "grpc_server task_dispatcher" where
  "grpc_dispatcher_ops = \<lparr>td_start = grpc_start, td_dispatch = grpc_dispatch,
     td_receive_event = grpc_receive_event\<rparr>"

section \<open>The concurrent server\<close>

text \<open>
  \<open>gw_accepted\<close> and \<open>gw_delivered\<close> log the tasks a \<^verbatim>\<open>Dispatch\<close> accepted and those a
  \<^verbatim>\<open>Send\<close> took.
\<close>

record grpc_world =
  gw_server :: grpc_server
  gw_loop :: loop_pc
  gw_accepted :: "task multiset"
  gw_delivered :: "task multiset"

fun submit_log :: "pb_task option \<Rightarrow> grpc_error option \<Rightarrow> task multiset \<Rightarrow> task multiset" where
  "submit_log (Some p) None A = add_mset (ProtoToTask p) A"
| "submit_log req err A = A"

inductive grpc_step :: "grpc_world \<Rightarrow> grpc_world \<Rightarrow> bool" where
  step_dispatch:
    "grpc_dispatch c t (gw_server w) = Ret (e, s) \<Longrightarrow>
     grpc_step w (w\<lparr>gw_server := s,
       gw_accepted := (if e = None then add_mset t (gw_accepted w) else gw_accepted w)\<rparr>)"
| step_submit:
    "grpc_submit memory_store_ops req (gw_server w) st = Ret (err, s, st') \<Longrightarrow>
     grpc_step w (w\<lparr>gw_server := s, gw_accepted := submit_log req err (gw_accepted w)\<rparr>)"
| step_wait:
    "gw_loop w = Waiting \<Longrightarrow> loop_wait x (gw_server w) = Ret (pc, s) \<Longrightarrow>
     grpc_step w (w\<lparr>gw_server := s, gw_loop := pc\<rparr>)"
| step_assign:
    "gw_loop w = Holding t \<Longrightarrow> loop_assign x ok t (gw_server w) = Ret (pc, msg, s) \<Longrightarrow>
     grpc_step w (w\<lparr>gw_server := s, gw_loop := pc,
       gw_delivered := (if msg \<noteq> None then add_mset t (gw_delivered w) else gw_delivered w)\<rparr>)"
| step_requeue:
    "gw_loop w = Requeue t wid \<Longrightarrow> loop_requeue t wid (gw_server w) = Ret (pc, s) \<Longrightarrow>
     grpc_step w (w\<lparr>gw_server := s, gw_loop := pc\<rparr>)"
| step_connect:
    "grpc_step w (w\<lparr>gw_server := connect_register wid stream (gw_server w)\<rparr>)"
| step_announce:
    "connect_announce wid (gw_server w) = Ret s \<Longrightarrow> grpc_step w (w\<lparr>gw_server := s\<rparr>)"
| step_event:
    "connect_event wid pe (gw_server w) = Ret s \<Longrightarrow> grpc_step w (w\<lparr>gw_server := s\<rparr>)"
| step_remove:
    "grpc_step w (w\<lparr>gw_server := removeWorker wid (gw_server w)\<rparr>)"
| step_receive:
    "grpc_receive_event c (gw_server w) = Ret (r, s) \<Longrightarrow> grpc_step w (w\<lparr>gw_server := s\<rparr>)"
| step_broadcast:
    "broadcast_event p ev (gw_server w) = Ret s \<Longrightarrow> grpc_step w (w\<lparr>gw_server := s\<rparr>)"
| step_subscribe:
    "grpc_subscribe (gw_server w) = (n, s) \<Longrightarrow> grpc_step w (w\<lparr>gw_server := s\<rparr>)"
| step_unsubscribe:
    "grpc_unsubscribe n (gw_server w) = Ret s \<Longrightarrow> grpc_step w (w\<lparr>gw_server := s\<rparr>)"
| step_stream:
    "subscribe_turn taskID now ok n (gw_server w) = Ret (goes, msg, s) \<Longrightarrow>
     grpc_step w (w\<lparr>gw_server := s\<rparr>)"

definition grpc_world_start :: grpc_world where
  "grpc_world_start = \<lparr>gw_server = NewServer, gw_loop = Waiting, gw_accepted = {#}, gw_delivered = {#}\<rparr>"

section \<open>Invariant and contract\<close>

definition sub_open :: "grpc_server \<Rightarrow> string \<times> nat \<Rightarrow> bool" where
  "sub_open s = (\<lambda>(k, n). k = sub_id n \<and> n < gs_nextSubID s \<and> \<not> ch_closed (gs_subHeap s n))"

definition gs_inv :: "grpc_server \<Rightarrow> bool" where
  "gs_inv s \<longleftrightarrow> \<not> ch_closed (gs_pending s) \<and> chan_ok (gs_pending s) \<and>
     \<not> ch_closed (gs_available s) \<and> \<not> ch_closed (gs_workerEvents s) \<and>
     distinct (map fst (gs_subscribers s)) \<and> (\<forall>e \<in> set (gs_subscribers s). sub_open s e)"

definition grpc_queued :: "grpc_server \<Rightarrow> task multiset" where
  "grpc_queued s = mset (ch_buf (gs_pending s))"

definition grpc_inbox :: "grpc_server \<Rightarrow> task_event list" where
  "grpc_inbox s = ch_buf (gs_workerEvents s)"

lemma grpc_ops_simps [simp]:
  "td_start grpc_dispatcher_ops = grpc_start" "td_dispatch grpc_dispatcher_ops = grpc_dispatch"
  "td_receive_event grpc_dispatcher_ops = grpc_receive_event"
  by (simp_all add: grpc_dispatcher_ops_def)

lemma gs_inv_new [simp]: "gs_inv NewServer"
  by (simp add: gs_inv_def NewServer_def)

text \<open>The invariant speaks of five fields; updates of the others keep it.\<close>

lemma gs_inv_updates [simp]:
  "gs_inv (s\<lparr>gs_streams := x\<rparr>) = gs_inv s"
  "gs_inv s \<Longrightarrow> gs_inv (s\<lparr>gs_pending := ch\<rparr>) = (\<not> ch_closed ch \<and> chan_ok ch)"
  "gs_inv s \<Longrightarrow> gs_inv (s\<lparr>gs_available := av\<rparr>) = (\<not> ch_closed av)"
  "gs_inv s \<Longrightarrow> gs_inv (s\<lparr>gs_workerEvents := we\<rparr>) = (\<not> ch_closed we)"
  by (auto simp: gs_inv_def sub_open_def)

lemma gs_inv_open:
  "gs_inv s \<Longrightarrow> \<not> ch_closed (gs_pending s)" "gs_inv s \<Longrightarrow> \<not> ch_closed (gs_available s)"
  "gs_inv s \<Longrightarrow> \<not> ch_closed (gs_workerEvents s)" "gs_inv s \<Longrightarrow> chan_ok (gs_pending s)"
  by (simp_all add: gs_inv_def)

lemma grpc_dispatch_cases:
  assumes "gs_inv s" and "grpc_dispatch c t s = Ret (e, s')"
  shows "(e = None \<and> chan_room (gs_pending s) \<and> s' = s\<lparr>gs_pending := chan_push t (gs_pending s)\<rparr>) \<or>
    (s' = s \<and> (e = Some ErrDispatchFull \<and> \<not> chan_room (gs_pending s) \<or> ctx_done c \<and> e = Some (ctx_err c)))"
  using assms
  by (auto simp: grpc_dispatch_def gs_inv_def on_send_def on_done_def Let_def
      dest!: select_in split: if_splits)

lemma grpc_receive_event_cases:
  assumes "gs_inv s"
  shows "grpc_receive_event c s = select (ctx_pick c) (on_done c (Inl (ctx_err c), s) @
    (case grpc_inbox s of [] \<Rightarrow> []
     | ev # evs \<Rightarrow> [(Inr ev, s\<lparr>gs_workerEvents := (gs_workerEvents s)\<lparr>ch_buf := evs\<rparr>\<rparr>)]))"
  using assms by (simp add: grpc_receive_event_def gs_inv_def on_recv_open grpc_inbox_def)

lemma grpc_submit_cases:
  assumes "gs_inv s" and "grpc_submit TS req s st = Ret (err, s', st')"
  shows "(\<exists>p. req = Some p \<and> err = None \<and> chan_room (gs_pending s) \<and>
      s' = s\<lparr>gs_pending := chan_push (ProtoToTask p) (gs_pending s)\<rparr>) \<or> (err \<noteq> None \<and> s' = s)"
  using assms
  by (auto simp: grpc_submit_def gs_inv_def Let_def chan_try_send_Ret
      split: option.splits prod.splits if_splits)

interpretation grpc_disp:
  dispatcher_contract grpc_dispatcher_ops gs_inv grpc_queued grpc_inbox "\<lambda>_. True"
proof unfold_locales
  fix d c t e d' x
  assume inv: "gs_inv d"
  show "\<exists>r. td_dispatch grpc_dispatcher_ops c t d = Ret r"
    using inv by (auto simp: grpc_dispatch_def gs_inv_def Let_def select_def)
  show "td_dispatch grpc_dispatcher_ops c t d = Ret (None, d') \<Longrightarrow> grpc_queued d' = add_mset t (grpc_queued d)"
    "td_dispatch grpc_dispatcher_ops c t d = Ret (Some x, d') \<Longrightarrow> grpc_queued d' = grpc_queued d"
    using grpc_dispatch_cases [OF inv, of c t] by (fastforce simp: grpc_queued_def)+
  assume "td_dispatch grpc_dispatcher_ops c t d = Ret (e, d')"
  with grpc_dispatch_cases [OF inv, of c t e d'] inv show "gs_inv d'" "grpc_inbox d' = grpc_inbox d"
    by (auto simp: grpc_inbox_def gs_inv_open chan_ok_push)
next
  fix d c d' ev and x
  assume inv: "gs_inv d"
  show "td_receive_event grpc_dispatcher_ops c d = Ret (Inr ev, d') \<Longrightarrow>
      grpc_inbox d = ev # grpc_inbox d' \<and> grpc_queued d' = grpc_queued d \<and> gs_inv d'"
    using inv by (auto simp: grpc_receive_event_cases grpc_inbox_def grpc_queued_def on_done_def
        gs_inv_open dest!: select_in split: list.splits if_splits)
  show "td_receive_event grpc_dispatcher_ops c d = Ret (Inl x, d') \<Longrightarrow>
      ctx_done c \<and> x = ctx_err c \<and> d' = d"
    using inv by (auto simp: grpc_receive_event_cases on_done_def dest!: select_in
        split: list.splits if_splits)
  show "(td_receive_event grpc_dispatcher_ops c d = Block) = (\<not> ctx_done c \<and> grpc_inbox d = [])"
    using inv by (simp add: grpc_receive_event_cases select_Block on_done_def split: list.split)
  show "td_receive_event grpc_dispatcher_ops c d \<noteq> Panic"
    using inv by (simp add: grpc_receive_event_cases)
qed

section \<open>Subscribers\<close>

lemma subscribers_distinct:
  assumes "gs_inv s"
  shows "distinct (map snd (gs_subscribers s))"
proof -
  have "\<forall>e \<in> set (gs_subscribers s). fst e = sub_id (snd e)"
    using assms by (auto simp: gs_inv_def sub_open_def)
  then have keys: "map fst (gs_subscribers s) = map sub_id (map snd (gs_subscribers s))" by simp
  have "distinct (map sub_id (map snd (gs_subscribers s)))"
    unfolding keys [symmetric] using assms by (simp add: gs_inv_def)
  then show ?thesis unfolding distinct_map by simp
qed

lemma broadcast_event_eq:
  assumes "gs_inv s"
  shows "broadcast_event p ev s = Ret (s\<lparr>gs_subHeap := \<lambda>n.
    if n \<in> snd ` set (gs_subscribers s) then offer ev (gs_subHeap s n) else gs_subHeap s n\<rparr>)"
proof -
  have "\<forall>n \<in> snd ` set (gs_subscribers s). \<not> ch_closed (gs_subHeap s n)"
    using assms by (auto simp: gs_inv_def sub_open_def)
  with subscribers_distinct [OF assms] show ?thesis
    by (simp add: broadcast_event_def offer_all_eq)
qed

lemma gs_inv_broadcast: "gs_inv s \<Longrightarrow> broadcast_event p ev s = Ret s' \<Longrightarrow> gs_inv s'"
  by (auto simp: broadcast_event_eq) (auto simp: gs_inv_def sub_open_def)

lemma gs_inv_subscribe: "gs_inv s \<Longrightarrow> gs_inv (snd (grpc_subscribe s))"
proof -
  assume inv: "gs_inv s"
  have "e \<in> set (AList.update (sub_id n) n xs) \<Longrightarrow> e = (sub_id n, n) \<or> e \<in> set xs" for e n and xs :: "(string \<times> nat) list"
    by (induction xs) (auto split: if_splits)
  with inv show ?thesis
    by (fastforce simp: gs_inv_def grpc_subscribe_def Let_def sub_open_def)
qed

lemma gs_inv_unsubscribe: "gs_inv s \<Longrightarrow> grpc_unsubscribe n s = Ret s' \<Longrightarrow> gs_inv s'"
proof -
  assume inv: "gs_inv s" and ret: "grpc_unsubscribe n s = Ret s'"
  from ret obtain ch where s': "s' = s\<lparr>gs_subscribers := AList.delete (sub_id n) (gs_subscribers s),
      gs_subHeap := (gs_subHeap s)(n := ch)\<rparr>" by (auto simp: grpc_unsubscribe_def)
  have "set (AList.delete (sub_id n) (gs_subscribers s)) \<subseteq> {e \<in> set (gs_subscribers s). fst e \<noteq> sub_id n}"
    by (auto simp: AList.delete_eq)
  with inv show "gs_inv s'" unfolding s' by (fastforce simp: gs_inv_def sub_open_def)
qed

lemma gs_inv_stream:
  "gs_inv s \<Longrightarrow> subscribe_turn taskID now ok n s = Ret (goes, msg, s') \<Longrightarrow> gs_inv s' \<and> gs_pending s' = gs_pending s"
  by (auto simp: subscribe_turn_def Let_def gs_inv_def sub_open_def chan_recv_def
      split: list.splits if_splits option.splits)

section \<open>Every interleaving\<close>

lemma loop_wait_cases:
  assumes "gs_inv s" and "loop_wait x s = Ret (pc, s')"
  shows "(pc = Returned None \<and> s' = s) \<or>
    (\<exists>t ts. ch_buf (gs_pending s) = t # ts \<and> pc = Holding t \<and>
       s' = s\<lparr>gs_pending := (gs_pending s)\<lparr>ch_buf := ts\<rparr>\<rparr>)"
  using assms by (auto simp: loop_wait_def gs_inv_open on_recv_open on_done_def
      dest!: select_in split: list.splits if_splits)

lemma loop_assign_cases:
  assumes "gs_inv s" and "loop_assign x ok t s = Ret (pc, msg, s')"
  shows "gs_pending s' = gs_pending s \<and> gs_inv s' \<and>
    (if msg = None then pc = Returned (Some t) \<or> (\<exists>wid. pc = Requeue t wid) else pc = Waiting)"
  using assms by (auto simp: loop_assign_def gs_inv_open on_recv_open on_done_def Let_def
      dest!: select_in split: list.splits if_splits option.splits)

lemma loop_requeue_cases:
  assumes "gs_inv s" and "loop_requeue t wid s = Ret (pc, s')"
  shows "chan_room (gs_pending s) \<and> pc = Waiting \<and> gs_inv s' \<and> gs_pending s' = chan_push t (gs_pending s)"
  using assms by (cases wid) (auto simp: loop_requeue_def Let_def chan_send_Ret removeWorker_def
      gs_inv_open chan_ok_push)

lemma connect_event_cases:
  assumes "gs_inv s" and "connect_event wid pe s = Ret s'"
  shows "gs_pending s' = gs_pending s \<and> gs_inv s'"
  using assms by (auto simp: connect_event_def Let_def chan_try_send_Ret gs_inv_open split: if_splits)

text \<open>The task the loop has in hand.\<close>

fun held :: "loop_pc \<Rightarrow> task multiset" where
  "held Waiting = {#}"
| "held (Holding t) = {#t#}"
| "held (Requeue t wid) = {#t#}"
| "held (Returned (Some t)) = {#t#}"
| "held (Returned None) = {#}"

definition grpc_conserved :: "grpc_world \<Rightarrow> bool" where
  "grpc_conserved w \<longleftrightarrow> gs_inv (gw_server w) \<and>
     gw_accepted w = grpc_queued (gw_server w) + held (gw_loop w) + gw_delivered w"

lemma grpc_step_conserved:
  assumes "grpc_step w w'" and con: "grpc_conserved w"
  shows "grpc_conserved w'"
  using assms(1)
proof cases
  case (step_dispatch c t e s)
  with grpc_dispatch_cases [of "gw_server w" c t e s] con show ?thesis
    by (auto simp: grpc_conserved_def grpc_queued_def gs_inv_open chan_ok_push)
next
  case (step_submit req st err s st')
  with grpc_submit_cases [of "gw_server w" memory_store_ops req st err s st'] con show ?thesis
    by (cases err) (auto simp: grpc_conserved_def grpc_queued_def gs_inv_open chan_ok_push)
next
  case (step_wait x pc s)
  have inv: "gs_inv (gw_server w)" using con by (simp add: grpc_conserved_def)
  from loop_wait_cases [OF inv step_wait(3)] step_wait con inv gs_inv_open(4) [OF inv] show ?thesis
    by (auto simp: grpc_conserved_def grpc_queued_def gs_inv_open chan_ok_def)
next
  case (step_assign t x ok pc msg s)
  with loop_assign_cases [of "gw_server w" x ok t pc msg s] con show ?thesis
    by (auto simp: grpc_conserved_def grpc_queued_def split: if_splits)
next
  case (step_requeue t wid pc s)
  with loop_requeue_cases [of "gw_server w" t wid pc s] con show ?thesis
    by (auto simp: grpc_conserved_def grpc_queued_def)
next
  case (step_connect wid stream)
  with con show ?thesis by (simp add: grpc_conserved_def grpc_queued_def connect_register_def)
next
  case (step_announce wid s)
  with con show ?thesis
    by (auto simp: grpc_conserved_def grpc_queued_def connect_announce_def chan_send_Ret)
next
  case (step_event wid pe s)
  with connect_event_cases [of "gw_server w" wid pe s] con show ?thesis
    by (simp add: grpc_conserved_def grpc_queued_def)
next
  case (step_remove wid)
  with con show ?thesis by (simp add: grpc_conserved_def grpc_queued_def removeWorker_def)
next
  case (step_receive c r s)
  with con show ?thesis
    by (auto simp: grpc_conserved_def grpc_queued_def grpc_receive_event_cases on_done_def gs_inv_open
        dest!: select_in split: list.splits if_splits)
next
  case (step_broadcast p ev s)
  with con gs_inv_broadcast [of "gw_server w" p ev s] show ?thesis
    by (auto simp: grpc_conserved_def grpc_queued_def broadcast_event_eq)
next
  case (step_subscribe n s)
  with con gs_inv_subscribe [of "gw_server w"] show ?thesis
    by (auto simp: grpc_conserved_def grpc_queued_def grpc_subscribe_def Let_def)
next
  case (step_unsubscribe n s)
  with con gs_inv_unsubscribe [of "gw_server w" n s] show ?thesis
    by (auto simp: grpc_conserved_def grpc_queued_def grpc_unsubscribe_def)
next
  case (step_stream taskID now ok n goes msg s)
  with con gs_inv_stream [of "gw_server w" taskID now ok n goes msg s] show ?thesis
    by (simp add: grpc_conserved_def grpc_queued_def)
qed

lemma grpc_steps_conserved: "grpc_step\<^sup>*\<^sup>* w w' \<Longrightarrow> grpc_conserved w \<Longrightarrow> grpc_conserved w'"
  by (induction rule: rtranclp_induct) (auto dest: grpc_step_conserved)

lemma grpc_conserved_start: "grpc_conserved grpc_world_start"
  by (simp add: grpc_conserved_def grpc_world_start_def grpc_queued_def NewServer_def gs_inv_def)

section \<open>The dispatch loop can block itself for good\<close>

text \<open>
  The loop is the only reader of the pending queue, and it puts a task back with a blocking
  send.
\<close>

definition grpc_stuck :: "grpc_world \<Rightarrow> bool" where
  "grpc_stuck w \<longleftrightarrow> gs_inv (gw_server w) \<and> (\<exists>t wid. gw_loop w = Requeue t wid) \<and>
     \<not> chan_room (gs_pending (gw_server w))"

definition grpc_frozen :: "grpc_world \<Rightarrow> grpc_world \<Rightarrow> bool" where
  "grpc_frozen w w' \<longleftrightarrow> gw_loop w' = gw_loop w \<and> gw_delivered w' = gw_delivered w \<and>
     gs_pending (gw_server w') = gs_pending (gw_server w)"

lemma grpc_step_stuck:
  assumes "grpc_step w w'" and stuck: "grpc_stuck w"
  shows "grpc_stuck w' \<and> grpc_frozen w w'"
proof -
  have inv: "gs_inv (gw_server w)" using stuck by (simp add: grpc_stuck_def)
  have "grpc_frozen w w' \<and> gs_inv (gw_server w')"
    using assms(1)
  proof cases
    case (step_dispatch c t e s)
    with grpc_dispatch_cases [OF inv, of c t e s] stuck show ?thesis
      by (auto simp: grpc_stuck_def grpc_frozen_def)
  next
    case (step_submit req st err s st')
    with grpc_submit_cases [OF inv, of memory_store_ops req st err s st'] stuck show ?thesis
      by (auto simp: grpc_stuck_def grpc_frozen_def)
  next
    case (step_requeue t wid pc s)
    with loop_requeue_cases [OF inv, of t wid pc s] stuck show ?thesis
      by (simp add: grpc_stuck_def)
  next
    case (step_connect wid stream)
    with inv show ?thesis by (simp add: grpc_frozen_def connect_register_def)
  next
    case (step_announce wid s)
    with inv show ?thesis by (auto simp: grpc_frozen_def connect_announce_def chan_send_Ret)
  next
    case (step_event wid pe s)
    with connect_event_cases [OF inv, of wid pe s] show ?thesis by (simp add: grpc_frozen_def)
  next
    case (step_remove wid)
    with inv show ?thesis by (simp add: grpc_frozen_def removeWorker_def)
  next
    case (step_receive c r s)
    with inv show ?thesis
      by (auto simp: grpc_frozen_def grpc_receive_event_cases on_done_def gs_inv_open
          dest!: select_in split: list.splits if_splits)
  next
    case (step_broadcast p ev s)
    with inv gs_inv_broadcast [OF inv, of p ev s] show ?thesis
      by (auto simp: grpc_frozen_def broadcast_event_eq)
  next
    case (step_subscribe n s)
    with gs_inv_subscribe [OF inv] show ?thesis
      by (auto simp: grpc_frozen_def grpc_subscribe_def Let_def)
  next
    case (step_unsubscribe n s)
    with gs_inv_unsubscribe [OF inv, of n s] show ?thesis
      by (auto simp: grpc_frozen_def grpc_unsubscribe_def)
  next
    case (step_stream taskID now ok n goes msg s)
    with gs_inv_stream [OF inv, of taskID now ok n goes msg s] show ?thesis
      by (simp add: grpc_frozen_def)
  qed (use stuck in \<open>auto simp: grpc_stuck_def\<close>)
  with stuck show ?thesis by (auto simp: grpc_stuck_def grpc_frozen_def)
qed

lemma grpc_steps_stuck: "grpc_step\<^sup>*\<^sup>* w w' \<Longrightarrow> grpc_stuck w \<Longrightarrow> grpc_stuck w' \<and> grpc_frozen w w'"
proof (induction rule: rtranclp_induct)
  case base
  then show ?case by (simp add: grpc_frozen_def)
next
  case (step y z)
  then show ?case using grpc_step_stuck [of y z] by (auto simp: grpc_frozen_def)
qed

text \<open>Filling the pending queue by dispatching.\<close>

definition fill_pending :: "nat \<Rightarrow> task \<Rightarrow> grpc_world \<Rightarrow> grpc_world" where
  "fill_pending n t w =
     (let ch = gs_pending (gw_server w)
      in w\<lparr>gw_server := (gw_server w)\<lparr>gs_pending := ch\<lparr>ch_buf := ch_buf ch @ replicate n t\<rparr>\<rparr>,
           gw_accepted := gw_accepted w + replicate_mset n t\<rparr>)"

lemma grpc_fill:
  assumes "\<not> ch_closed (gs_pending (gw_server w))"
    and "length (ch_buf (gs_pending (gw_server w))) + n \<le> ch_cap (gs_pending (gw_server w))"
  shows "grpc_step\<^sup>*\<^sup>* w (fill_pending n t w)"
  using assms(2)
proof (induction n)
  case 0
  then show ?case by (simp add: fill_pending_def Let_def)
next
  case (Suc n)
  let ?v = "fill_pending n t w"
  have room: "chan_room (gs_pending (gw_server ?v))"
    using Suc.prems by (simp add: fill_pending_def Let_def chan_room_def)
  have "grpc_dispatch Background t (gw_server ?v) =
      Ret (None, (gw_server ?v)\<lparr>gs_pending := chan_push t (gs_pending (gw_server ?v))\<rparr>)"
    using room assms(1) by (simp add: grpc_dispatch_def fill_pending_def Let_def)
  from step_dispatch [OF this] have "grpc_step ?v (fill_pending (Suc n) t w)"
    by (simp add: fill_pending_def Let_def chan_push_def replicate_append_same [symmetric])
  with Suc show ?case by (auto intro: rtranclp.rtrancl_into_rtrancl)
qed

text \<open>
  One worker that connected and left is enough: its ID stays in the queue of available
  workers, the loop takes a task and that ID, and finds the pending queue refilled.
\<close>

definition left_behind :: "task \<Rightarrow> grpc_world" where
  "left_behind t = grpc_world_start\<lparr>gw_server := NewServer\<lparr>
       gs_available := (make_chan 100)\<lparr>ch_buf := [''worker-1'']\<rparr>\<rparr>,
     gw_loop := Holding t, gw_accepted := {#t#}\<rparr>"

lemma left_behind_reachable: "grpc_step\<^sup>*\<^sup>* grpc_world_start (left_behind t)"
proof -
  let ?w = "\<lambda>streams av pend pc acc. grpc_world_start\<lparr>gw_server := NewServer\<lparr>gs_streams := streams,
      gs_available := (make_chan 100)\<lparr>ch_buf := av\<rparr>, gs_pending := (make_chan 100)\<lparr>ch_buf := pend\<rparr>\<rparr>,
      gw_loop := pc, gw_accepted := acc\<rparr>"
  note start = grpc_world_start_def NewServer_def make_chan_def
  have 1: "grpc_step grpc_world_start (?w [(''worker-1'', 0)] [] [] Waiting {#})"
    using step_connect [of grpc_world_start "''worker-1''" 0] by (simp add: start connect_register_def)
  have 2: "grpc_step (?w [(''worker-1'', 0)] [] [] Waiting {#}) (?w [(''worker-1'', 0)] [''worker-1''] [] Waiting {#})"
    using step_announce [of "''worker-1''" "?w [(''worker-1'', 0)] [] [] Waiting {#}"]
    by (simp add: start connect_announce_def chan_send_def chan_room_def chan_push_def)
  have 3: "grpc_step (?w [(''worker-1'', 0)] [''worker-1''] [] Waiting {#}) (?w [] [''worker-1''] [] Waiting {#})"
    using step_remove [of "?w [(''worker-1'', 0)] [''worker-1''] [] Waiting {#}" "''worker-1''"]
    by (simp add: start removeWorker_def)
  have 4: "grpc_step (?w [] [''worker-1''] [] Waiting {#}) (?w [] [''worker-1''] [t] Waiting {#t#})"
    using step_dispatch [of Background t "?w [] [''worker-1''] [] Waiting {#}" None]
    by (simp add: start grpc_dispatch_def chan_room_def chan_push_def)
  have 5: "grpc_step (?w [] [''worker-1''] [t] Waiting {#t#}) (left_behind t)"
    using step_wait [of "?w [] [''worker-1''] [t] Waiting {#t#}" Background "Holding t"]
    by (simp add: start left_behind_def loop_wait_def on_recv_open)
  from 1 2 3 4 5 show ?thesis by (meson rtranclp.rtrancl_into_rtrancl rtranclp.rtrancl_refl)
qed

lemma grpc_stuck_reachable:
  "\<exists>w. grpc_step\<^sup>*\<^sup>* grpc_world_start w \<and> grpc_stuck w \<and> gw_delivered w = {#} \<and>
     size (gw_accepted w) = 101"
proof -
  let ?w = "fill_pending 100 t (left_behind t)"
  let ?s = "(gw_server ?w)\<lparr>gs_available := make_chan 100\<rparr>"
  have "grpc_step\<^sup>*\<^sup>* (left_behind t) ?w"
    by (rule grpc_fill) (simp_all add: left_behind_def NewServer_def)
  moreover have "grpc_step ?w (?w\<lparr>gw_server := ?s, gw_loop := Requeue t None\<rparr>)"
    using step_assign [of ?w t Background True "Requeue t None" None ?s]
    by (simp add: fill_pending_def left_behind_def NewServer_def grpc_world_start_def Let_def
        loop_assign_def on_recv_open make_chan_def)
  ultimately have "grpc_step\<^sup>*\<^sup>* grpc_world_start (?w\<lparr>gw_server := ?s, gw_loop := Requeue t None\<rparr>)"
    using left_behind_reachable [of t] by (meson rtranclp.rtrancl_into_rtrancl rtranclp_trans)
  then show ?thesis
    by (intro exI [of _ "?w\<lparr>gw_server := ?s, gw_loop := Requeue t None\<rparr>"])
      (simp add: grpc_stuck_def fill_pending_def left_behind_def NewServer_def grpc_world_start_def
        gs_inv_def chan_ok_def chan_room_def)
qed

section \<open>Worker IDs are reused while in use\<close>

text \<open>\<open>n\<close> workers connect one after the other; the stream of the \<open>i\<close>-th is \<open>i\<close>.\<close>

primrec workers_connect :: "nat \<Rightarrow> grpc_server \<Rightarrow> grpc_server" where
  "workers_connect 0 s = s"
| "workers_connect (Suc n) s =
     (let s1 = workers_connect n s in connect_register (worker_id s1) (Suc n) s1)"

lemma itoa_eq_iff [simp]: "itoa m = itoa n \<longleftrightarrow> m = n"
  using digits_value_itoa by (metis of_nat_eq_iff)

lemma workers_connect_streams:
  "gs_streams (workers_connect n NewServer) = map (\<lambda>i. (''worker-'' @ itoa i, i)) [1..<Suc n]"
proof (induction n)
  case 0
  then show ?case by (simp add: NewServer_def)
next
  case (Suc n)
  have "AList.update k v m = m @ [(k, v)]" if "k \<notin> fst ` set m" for k :: string and v :: nat and m
    using that by (induction m) auto
  with Suc show ?case
    by (simp add: connect_register_def worker_id_def Let_def image_iff del: upt_Suc) (simp add: image_def)
qed

lemma worker_id_reused:
  assumes "1 \<le> k" and "k < n"
  shows "worker_id (removeWorker (''worker-'' @ itoa k) (workers_connect n NewServer)) = ''worker-'' @ itoa n"
proof -
  let ?xs = "[1..<Suc n]"
  have "AList.delete (''worker-'' @ itoa k) (map (\<lambda>i. (''worker-'' @ itoa i, i)) is) =
      map (\<lambda>i. (''worker-'' @ itoa i, i)) (removeAll k is)" for "is"
    by (induction "is") auto
  moreover have "length (removeAll k ?xs) = n - 1"
    using assms distinct_remove1_removeAll [of ?xs k] length_remove1 [of k ?xs] by simp
  ultimately show ?thesis
    using assms by (simp add: worker_id_def removeWorker_def workers_connect_streams del: upt_Suc)
qed

end
