(* ===== verification/GrpcClient.thy ===== *)
theory GrpcClient
  imports GrpcServer Executor
begin

text \<open>
  Pattern 4, the other ends of the gRPC connections:
  \<^verbatim>\<open>patterns/p04/internal/grpc/client.go\<close>, the API's view of the manager, and
  \<^verbatim>\<open>patterns/p04/internal/grpc/consumer.go\<close>, the worker's transport.

  The gRPC library is not part of the repository. A call is a function of \<open>manager_stub\<close>;
  what dialling, \<^verbatim>\<open>Recv\<close> and \<^verbatim>\<open>Send\<close> give is an argument of the operation that uses it.
  \<open>server_stub\<close> is the stub that reaches the server of \<open>GrpcServer\<close> without loss.

  \<^item> \<open>client_submit_spec\<close>, \<open>client_get_spec\<close>, \<open>client_list_spec\<close>: what the API sees of the store.
  \<^item> \<open>grpc_emitter\<close>: a connected consumer keeps \<open>reliable_emitter\<close>.
  \<^item> \<open>reconnects_add_loops\<close>: every reconnection leaves one more receive loop running.
\<close>

section \<open>Client\<close>

record 'm manager_stub =
  sb_submit :: "ctx \<Rightarrow> pb_task option \<Rightarrow> 'm \<Rightarrow> (go_error option \<times> 'm) outcome"
  sb_get :: "ctx \<Rightarrow> string \<Rightarrow> 'm \<Rightarrow> ((go_error + pb_task option) \<times> 'm) outcome"
  sb_list :: "ctx \<Rightarrow> nat \<Rightarrow> 'm \<Rightarrow> ((go_error + pb_task list) \<times> 'm) outcome"

definition client_submit :: "'m manager_stub \<Rightarrow> ctx \<Rightarrow> instant \<Rightarrow> task \<Rightarrow> 'm \<Rightarrow>
    (api_error option \<times> 'm) outcome" where
  "client_submit sb x now t m =
     omap (\<lambda>(err, m1). (map_option OtherError err, m1)) (sb_submit sb x (Some (TaskToProto t)) m)"

definition client_get :: "'m manager_stub \<Rightarrow> ctx \<Rightarrow> string \<Rightarrow> 'm \<Rightarrow> (task option \<times> 'm) outcome" where
  "client_get sb x i m =
     omap (\<lambda>(r, m1). case r of
         Inl err \<Rightarrow> (None, m1)
       | Inr resp \<Rightarrow> (case resp of None \<Rightarrow> None | Some p \<Rightarrow> Some (ProtoToTask p), m1))
       (sb_get sb x i m)"

definition client_list :: "'m manager_stub \<Rightarrow> ctx \<Rightarrow> nat \<Rightarrow> 'm \<Rightarrow> (task list \<times> 'm) outcome" where
  "client_list sb x p m =
     omap (\<lambda>(r, m1). (case r of Inl err \<Rightarrow> [] | Inr ps \<Rightarrow> map ProtoToTask ps, m1)) (sb_list sb x p m)"

definition client_ops :: "'m manager_stub \<Rightarrow> 'm task_manager" where
  "client_ops sb = \<lparr>tm_submit = client_submit sb, tm_get = client_get sb, tm_list = client_list sb\<rparr>"

text \<open>
  \<^verbatim>\<open>Subscribe\<close> fills a channel of 100 from the stream: \<open>msgs\<close> are what the successive
  \<^verbatim>\<open>Recv\<close> calls give, each with the context at the send that follows. The flag says whether
  the goroutine has returned, which closes the channel.
\<close>

definition client_channel :: "task_event chan" where
  "client_channel = make_chan 100"

fun client_stream :: "((go_error + pb_event) \<times> ctx) list \<Rightarrow> task_event chan \<Rightarrow>
    (bool \<times> task_event chan) outcome" where
  "client_stream [] out = Ret (False, out)"
| "client_stream ((Inl err, x) # msgs) out = omap (\<lambda>c. (True, c)) (chan_close out)"
| "client_stream ((Inr pe, x) # msgs) out =
     (if ch_closed out then Panic
      else obind (select (ctx_pick x) (on_send (ProtoToEvent pe) out Some @ on_done x None))
        (\<lambda>r. case r of
           None \<Rightarrow> omap (\<lambda>c. (True, c)) (chan_close out)
         | Some out1 \<Rightarrow> client_stream msgs out1))"

section \<open>Consumer\<close>

text \<open>
  Streams are references; \<open>gc_loops\<close> counts the running \<^verbatim>\<open>receiveLoop\<close> goroutines and
  \<open>gc_sent\<close> lists what \<^verbatim>\<open>Send\<close> took.
\<close>

record grpc_consumer =
  gc_conn :: bool
  gc_stream :: "nat option"
  gc_taskQueue :: "task chan"
  gc_connected :: bool
  gc_loops :: nat
  gc_sent :: "pb_event list"

abbreviation errNotConnected :: go_error where
  "errNotConnected \<equiv> Errorf ''not connected to manager''"

definition NewConsumer :: grpc_consumer where
  "NewConsumer = \<lparr>gc_conn = False, gc_stream = None, gc_taskQueue = make_chan 10,
     gc_connected = False, gc_loops = 0, gc_sent = []\<rparr>"

text \<open>What the library makes of one attempt: no client, a client and no stream, or a stream.\<close>

datatype dial_result = ClientError go_error | StreamError go_error | Dialed nat

fun connect_once :: "dial_result \<Rightarrow> grpc_consumer \<Rightarrow> go_error option \<times> grpc_consumer" where
  "connect_once (ClientError err) c = (Some err, c)"
| "connect_once (StreamError err) c = (Some err, c\<lparr>gc_conn := True\<rparr>)"
| "connect_once (Dialed s) c = (None, c\<lparr>gc_conn := True, gc_stream := Some s, gc_connected := True\<rparr>)"

text \<open>
  \<^verbatim>\<open>Connect\<close> over its attempts, each with the context at the wait after it; the durations
  waited come with the result. With no attempt left it is still trying.
\<close>

fun consumer_connect :: "(dial_result \<times> ctx) list \<Rightarrow> grpc_consumer \<Rightarrow>
    ((duration list \<times> go_error option) \<times> grpc_consumer) outcome" where
  "consumer_connect [] c = Block"
| "consumer_connect ((d, x) # ds) c =
     (case connect_once d c of
        (None, c1) \<Rightarrow> Ret (([], None), c1\<lparr>gc_loops := Suc (gc_loops c1)\<rparr>)
      | (Some err, c1) \<Rightarrow>
          obind (select (ctx_pick x) (on_done x True @ [False])) (\<lambda>stop.
            if stop then Ret (([], Some (ctx_err x)), c1)
            else omap (\<lambda>((ws, r), c2). ((2 * Second # ws, r), c2)) (consumer_connect ds c1)))"

text \<open>
  One turn of \<^verbatim>\<open>receiveLoop\<close>: \<open>r\<close> is what \<^verbatim>\<open>Recv\<close> gives (the end of the stream is an error
  here, it is handled alike), \<open>ds\<close> the attempts of a reconnection, \<open>x\<close> the context at the send.
  The flag says whether the loop goes on.
\<close>

definition loop_reconnect :: "(dial_result \<times> ctx) list \<Rightarrow> grpc_consumer \<Rightarrow> (bool \<times> grpc_consumer) outcome" where
  "loop_reconnect ds c =
     omap (\<lambda>((ws, err), c1). case err of
         Some e \<Rightarrow> (False, c1\<lparr>gc_loops := gc_loops c1 - 1\<rparr>)
       | None \<Rightarrow> (True, c1))
       (consumer_connect ds c)"

definition receive_turn :: "ctx \<Rightarrow> (go_error + pb_task) \<Rightarrow> (dial_result \<times> ctx) list \<Rightarrow> grpc_consumer \<Rightarrow>
    (bool \<times> grpc_consumer) outcome" where
  "receive_turn x r ds c =
     (case gc_stream c of
        None \<Rightarrow> loop_reconnect ds c
      | Some s \<Rightarrow>
          (case r of
             Inl err \<Rightarrow> loop_reconnect ds (c\<lparr>gc_connected := False\<rparr>)
           | Inr p \<Rightarrow>
               select (ctx_pick x)
                 (on_send (ProtoToTask p) (gc_taskQueue c) (\<lambda>ch. (True, c\<lparr>gc_taskQueue := ch\<rparr>)) @
                  on_done x (False, c\<lparr>gc_loops := gc_loops c - 1\<rparr>))))"

definition consumer_receive :: "ctx \<Rightarrow> grpc_consumer \<Rightarrow> ((go_error + task) \<times> grpc_consumer) outcome" where
  "consumer_receive x c =
     select (ctx_pick x)
       (on_done x (Inl (ctx_err x), c) @
        on_recv zero_task (gc_taskQueue c) (\<lambda>t ch. (Inr t, c\<lparr>gc_taskQueue := ch\<rparr>)))"

text \<open>\<open>send\<close> is the result of \<^verbatim>\<open>stream.Send\<close>, \<open>now\<close> the time stamped on the event.\<close>

definition consumer_emit :: "(nat \<Rightarrow> pb_event \<Rightarrow> go_error option) \<Rightarrow> instant \<Rightarrow> ctx \<Rightarrow> task_event \<Rightarrow>
    grpc_consumer \<Rightarrow> (go_error option \<times> grpc_consumer) outcome" where
  "consumer_emit send now x ev c =
     (case gc_stream c of
        None \<Rightarrow> Ret (Some errNotConnected, c)
      | Some s \<Rightarrow>
          if \<not> gc_connected c then Ret (Some errNotConnected, c)
          else let pe = EventToProto now ev
               in case send s pe of
                    Some err \<Rightarrow> Ret (Some err, c\<lparr>gc_connected := False\<rparr>)
                  | None \<Rightarrow> Ret (None, c\<lparr>gc_sent := gc_sent c @ [pe]\<rparr>))"

text \<open>\<^verbatim>\<open>Close\<close>: \<open>cerr\<close> is what closing the connection gives.\<close>

definition consumer_close :: "go_error option \<Rightarrow> grpc_consumer \<Rightarrow> go_error option" where
  "consumer_close cerr c = (if gc_conn c then cerr else None)"

definition consumer_ops :: "(dial_result \<times> ctx) list \<Rightarrow> (nat \<Rightarrow> pb_event \<Rightarrow> go_error option) \<Rightarrow> instant \<Rightarrow>
    grpc_consumer task_consumer" where
  "consumer_ops ds send now = \<lparr>
     tc_connect = (\<lambda>x c. omap (\<lambda>((_, err), c1). (err, c1)) (consumer_connect ds c)),
     tc_receive = consumer_receive, tc_emit = consumer_emit send now\<rparr>"

section \<open>The client over a network without loss\<close>

text \<open>\<open>st\<close> is how the library renders a status as an error of the client.\<close>

definition server_stub :: "(grpc_error \<Rightarrow> go_error) \<Rightarrow> 's task_store \<Rightarrow> (grpc_server \<times> 's) manager_stub" where
  "server_stub st TS = \<lparr>
     sb_submit = (\<lambda>x req (s, m). omap (\<lambda>(err, s1, m1). (map_option st err, s1, m1)) (grpc_submit TS req s m)),
     sb_get = (\<lambda>x i (s, m). Ret (Inr (grpc_get TS i m), s, m)),
     sb_list = (\<lambda>x p (s, m). Ret (Inr (grpc_list TS p m), s, m))\<rparr>"

lemma client_ops_simps [simp]:
  "tm_submit (client_ops sb) = client_submit sb" "tm_get (client_ops sb) = client_get sb"
  "tm_list (client_ops sb) = client_list sb"
  by (simp_all add: client_ops_def)

lemma client_get_spec:
  "client_get (server_stub st TS) x i (s, m) =
     Ret (map_option task_proto_view (ts_get TS i m), s, m)"
  by (simp add: client_get_def server_stub_def grpc_get_def task_proto_round split: option.split)

lemma client_list_spec:
  "client_list (server_stub st TS) x p (s, m) = Ret (map task_proto_view (ts_list TS p m), s, m)"
  by (simp add: client_list_def server_stub_def grpc_list_def task_proto_round)

text \<open>
  Submission stores what arrives, and queues it if the queue has room. A full queue is
  reported, with the task left in the store as it came.
\<close>

lemma client_submit_spec:
  assumes "gs_inv s" and "mem_tasks m (task_ID t) = None"
  shows "client_submit (server_stub st memory_store_ops) x now t (s, m) =
    (let m1 = snd (mem_create (task_proto_view t) m)
     in if chan_room (gs_pending s)
        then Ret (None, s\<lparr>gs_pending := chan_push (task_proto_view t) (gs_pending s)\<rparr>, m1)
        else Ret (Some (OtherError (st (ResourceExhausted ''dispatch queue full''))), s, m1))"
proof -
  have id: "task_ID (task_proto_view t) = task_ID t" by (simp add: task_proto_view_def Let_def)
  with assms obtain m1 where "mem_create (task_proto_view t) m = (None, m1)"
    by (simp add: mem_create_eq)
  then show ?thesis
    using gs_inv_open(1) [OF assms(1)]
    by (simp add: client_submit_def server_stub_def grpc_submit_def task_proto_round
        chan_try_send_open Let_def)
qed

section \<open>The consumer as an emitter\<close>

definition grpc_live :: "grpc_consumer \<Rightarrow> bool" where
  "grpc_live c \<longleftrightarrow> gc_connected c \<and> gc_stream c \<noteq> None"

abbreviation send_ok :: "nat \<Rightarrow> pb_event \<Rightarrow> go_error option" where
  "send_ok \<equiv> \<lambda>s pe. None"

lemma consumer_ops_simps [simp]:
  "tc_receive (consumer_ops ds send now) = consumer_receive"
  "tc_emit (consumer_ops ds send now) = consumer_emit send now"
  by (simp_all add: consumer_ops_def)

interpretation grpc_emitter: reliable_emitter "consumer_ops ds send_ok now" grpc_live gc_sent
    "EventToProto now" "\<lambda>_. True" "\<lambda>_. True" for ds now
  by unfold_locales (auto simp: consumer_emit_def grpc_live_def Let_def)

text \<open>The percentages of a run fit 32 bits, so its events survive the conversion.\<close>

lemma run_script_proto:
  assumes "ev \<in> set (run_script cancel t)"
  shows "ProtoToEvent (EventToProto now ev) = ev"
proof (rule event_proto_round)
  have "ev_Progress ev \<in> set (percentages (run_script cancel t)) \<or> ev_Progress ev = 0"
  proof (cases "ev_Type ev = EventProgress")
    case True
    with assms show ?thesis by (auto simp: percentages_def)
  next
    case False
    have "ev_Progress ev = 0" if "ev \<in> set (stage_script cancel t tot i ss)" for tot i ss
      using that False
      by (induction ss arbitrary: i) (auto simp: status_event_def zero_event_def split: if_splits)
    with assms show ?thesis by (auto simp: run_script_def status_event_def zero_event_def)
  qed
  then have "0 \<le> ev_Progress ev \<and> ev_Progress ev \<le> 100"
    using run_script_percentages [of cancel t] by auto
  then show "- (2 ^ 31) \<le> ev_Progress ev" "ev_Progress ev < 2 ^ 31" by simp_all
qed

section \<open>Reconnections\<close>

text \<open>The loop that lost its stream goes on, and \<^verbatim>\<open>Connect\<close> has started another one.\<close>

lemma connect_adds_loop:
  "consumer_connect ds c = Ret ((ws, None), c1) \<Longrightarrow>
     gc_loops c1 = Suc (gc_loops c) \<and> grpc_live c1"
proof (induction ds c arbitrary: ws rule: consumer_connect.induct)
  case (1 c)
  then show ?case by simp
next
  case (2 d x ds c)
  have loops: "gc_loops (snd (connect_once d c)) = gc_loops c" by (cases d) auto
  show ?case
  proof (cases "fst (connect_once d c)")
    case None
    with 2 loops show ?thesis by (cases d) (auto simp: grpc_live_def)
  next
    case (Some err)
    with 2 loops show ?thesis
      by (cases "connect_once d c") (auto split: if_splits)
  qed
qed

text \<open>Turns in which the stream breaks and the reconnection succeeds.\<close>

primrec reconnects :: "(dial_result \<times> ctx) list list \<Rightarrow> grpc_consumer \<Rightarrow> grpc_consumer outcome" where
  "reconnects [] c = Ret c"
| "reconnects (ds # dss) c =
     obind (receive_turn Background (Inl (Errorf ''EOF'')) ds c) (\<lambda>(go, c1).
       if go then reconnects dss c1 else Block)"

lemma reconnects_add_loops:
  "reconnects dss c = Ret c' \<Longrightarrow> gc_loops c' = gc_loops c + length dss"
proof (induction dss arbitrary: c)
  case Nil
  then show ?case by simp
next
  case (Cons ds dss)
  from Cons.prems obtain c1 where c1: "receive_turn Background (Inl (Errorf ''EOF'')) ds c = Ret (True, c1)"
    and rest: "reconnects dss c1 = Ret c'" by (auto split: if_splits)
  have "gc_loops c1 = Suc (gc_loops c)"
    using c1 by (auto simp: receive_turn_def loop_reconnect_def dest!: connect_adds_loop
        split: option.splits)
  with Cons.IH [OF rest] show ?case by simp
qed

end
