(* ===== verification/Systems.thy ===== *)
theory Systems
  imports Api Client Channel Rest WebSocket GrpcClient Store
begin

text \<open>
  The processes of patterns 1 to 4 (\<^verbatim>\<open>patterns/p0x/internal/app\<close>): how each wires the shared
  components together, and what follows for the composed system.

  \<open>p1\<close> to \<open>p4\<close> interpret \<open>broadcasting\<close> for the manager each pattern builds: the in-memory
  store, the pattern's dispatcher and the in-memory bridge. The template file is embedded in
  the binary; \<open>tplerr\<close> is the error of parsing it. \<open>link_env\<close>, \<open>rest_env\<close>, \<open>ws_env\<close> and
  \<open>grpc_env\<close> are the worker sides, as steps between those of the concurrent manager.
\<close>

section \<open>Managers\<close>

interpretation p1: broadcasting memory_store_ops mem_inv mem_tasks
    channel_dispatcher_ops link_inv link_queued link_inbox "\<lambda>_. True"
    memory_bridge_ops bridge_inv bridge_subs bridge_feed bridge_free
  by unfold_locales

interpretation p2: broadcasting memory_store_ops mem_inv mem_tasks
    rest_dispatcher_ops rest_inv rest_queued rest_inbox "\<lambda>_. True"
    memory_bridge_ops bridge_inv bridge_subs bridge_feed bridge_free
  by unfold_locales

interpretation p3: broadcasting memory_store_ops mem_inv mem_tasks
    ws_dispatcher_ops ws_inv ws_queued ws_inbox task_encodable
    memory_bridge_ops bridge_inv bridge_subs bridge_feed bridge_free
  by unfold_locales

interpretation p4: broadcasting memory_store_ops mem_inv mem_tasks
    grpc_dispatcher_ops gs_inv grpc_queued grpc_inbox "\<lambda>_. True"
    memory_bridge_ops bridge_inv bridge_subs bridge_feed bridge_free
  by unfold_locales

type_synonym 'd memory_manager = "(memory_store, 'd, memory_bridge) manager"

text \<open>\<^verbatim>\<open>time.Duration(ms) * time.Millisecond\<close>, an \<^verbatim>\<open>int64\<close> product.\<close>

definition ms_executor :: "int \<Rightarrow> executor" where
  "ms_executor ms = \<lparr>MaxStageDuration = signed_take_bit 63 (ms * Millisecond)\<rparr>"

section \<open>The relay from an event channel to the hub\<close>

text \<open>\<^verbatim>\<open>for ev := range ch { hub.Publish(ev) }\<close>: one turn, and the turns given.\<close>

definition relay_turn :: "nat \<Rightarrow> task_event chan \<Rightarrow> hub \<Rightarrow> (bool \<times> task_event chan \<times> hub) outcome" where
  "relay_turn p ch h =
     obind (chan_recv ch) (\<lambda>(r, ch1).
       case r of
         None \<Rightarrow> Ret (False, ch1, h)
       | Some ev \<Rightarrow> omap (\<lambda>h1. (True, ch1, h1)) (hub_publish p ev h))"

fun relay :: "nat list \<Rightarrow> task_event chan \<Rightarrow> hub \<Rightarrow> (task_event chan \<times> hub) outcome" where
  "relay [] ch h = Ret (ch, h)"
| "relay (p # ps) ch h =
     obind (relay_turn p ch h) (\<lambda>(goes, ch1, h1). if goes then relay ps ch1 h1 else Ret (ch1, h1))"

section \<open>Pattern 1\<close>

record p01_config =
  Workers :: int
  QueueSize :: int
  cfg_MaxStageDuration :: int

text \<open>\<open>a1_sub\<close> is the bridge channel the relay reads, \<open>a1_pool\<close> the executors of the workers.\<close>

record p01_app =
  a1_mgr :: "channel_link memory_manager"
  a1_hub :: hub
  a1_sub :: nat
  a1_pool :: "executor list"

definition p01_New :: "ctx \<Rightarrow> go_error option \<Rightarrow> p01_config \<Rightarrow> (go_error + p01_app) outcome" where
  "p01_New x tplerr cfg =
     (let exec = ms_executor (cfg_MaxStageDuration cfg)
      in obind (goroutine_New (QueueSize cfg)) (\<lambda>link.
           let (_, mgr) = manager_start channel_dispatcher_ops x
                            (NewManager NewMemoryStore link NewMemoryBridge 0);
               (i, bus) = bridge_subscribe (mg_events mgr);
               pool = replicate (nat (Workers cfg)) exec
           in Ret (case tplerr of
                     Some err \<Rightarrow> Inl err
                   | None \<Rightarrow> Inr \<lparr>a1_mgr = mgr\<lparr>mg_events := bus\<rparr>, a1_hub = NewHub, a1_sub = i,
                                   a1_pool = pool\<rparr>)))"

section \<open>Pattern 2\<close>

definition p02_NewManager :: "ctx \<Rightarrow> go_error option \<Rightarrow> int \<Rightarrow>
    (go_error + rest_dispatcher memory_manager) outcome" where
  "p02_NewManager x tplerr queueSize =
     obind (NewRESTDispatcher queueSize) (\<lambda>d.
       let (_, mgr) = manager_start rest_dispatcher_ops x (NewManager NewMemoryStore d NewMemoryBridge 0)
       in Ret (case tplerr of Some err \<Rightarrow> Inl err | None \<Rightarrow> Inr mgr))"

text \<open>
  The manager's router: the task routes over the manager, the worker routes over its
  dispatcher. \<open>u\<close> is the identity minted on the index page.
\<close>

definition p02_routes :: "echo \<Rightarrow> string \<Rightarrow> rest_dispatcher memory_manager network" where
  "p02_routes E u x now p r body m =
     (let TM = manager_ops memory_store_ops rest_dispatcher_ops
      in case r of
           WorkNext \<Rightarrow>
             (let (resp, d1) = HandleNext E (mg_dispatcher m)
              in Ret (Inr (serve E resp), m\<lparr>mg_dispatcher := d1\<rparr>))
         | WorkEvents \<Rightarrow>
             omap (\<lambda>(resp, d1). (Inr (serve E resp), m\<lparr>mg_dispatcher := d1\<rparr>))
               (HandleEvent E x body (mg_dispatcher m))
         | IndexRoute \<Rightarrow>
             omap (\<lambda>(resp, m1). (Inr (serve E resp), m1)) (Index E TM x u p (plain_request body) m)
         | _ \<Rightarrow> manager_net E TM x now p r body m)"

text \<open>The API processes of patterns 2 and 3: the channel of the SSE client and the hub.\<close>

record api_app =
  aa_events :: "task_event chan"
  aa_hub :: hub

definition p02_NewAPI :: "go_error option \<Rightarrow> go_error + api_app" where
  "p02_NewAPI tplerr =
     (case tplerr of Some err \<Rightarrow> Inl err
      | None \<Rightarrow> Inr \<lparr>aa_events = sse_channel, aa_hub = NewHub\<rparr>)"

text \<open>
  \<^verbatim>\<open>RunWorker\<close> of patterns 2, 3 and 4: each received task is run in a goroutine of its own, so
  the loop collects the tasks it has started. The flag says whether it goes on.
\<close>

fun worker_loop :: "'c task_consumer \<Rightarrow> ctx list \<Rightarrow> 'c \<Rightarrow> (bool \<times> task list \<times> 'c) outcome" where
  "worker_loop TC [] c = Ret (True, [], c)"
| "worker_loop TC (x # xs) c =
     obind (tc_receive TC x c) (\<lambda>(r, c1).
       case r of
         Inl _ \<Rightarrow> Ret (False, [], c1)
       | Inr t \<Rightarrow> omap (\<lambda>(goes, ts, c2). (goes, t # ts, c2)) (worker_loop TC xs c1))"

definition p02_RunWorker :: "rest_consumer \<Rightarrow> 'm network \<Rightarrow> nat \<Rightarrow> ctx \<Rightarrow> ctx list \<Rightarrow> 'm \<Rightarrow>
    (bool \<times> task list \<times> 'm) outcome" where
  "p02_RunWorker rc net polls x xs m =
     (let TC = rest_consumer_ops rc net polls
      in obind (tc_connect TC x m) (\<lambda>(err, m1).
           if err \<noteq> None then Ret (False, [], m1) else worker_loop TC xs m1))"

section \<open>Pattern 3\<close>

definition p03_NewManager :: "ctx \<Rightarrow> go_error option \<Rightarrow> go_error + ws_dispatcher memory_manager" where
  "p03_NewManager x tplerr =
     (let (_, mgr) = manager_start ws_dispatcher_ops x
                       (NewManager NewMemoryStore NewWebSocketDispatcher NewMemoryBridge 0)
      in case tplerr of Some err \<Rightarrow> Inl err | None \<Rightarrow> Inr mgr)"

text \<open>\<^verbatim>\<open>GET /ws/register\<close>: \<open>up\<close> is the result of the upgrade, \<open>wid\<close> the identifier minted.\<close>

definition p03_register :: "go_error option \<Rightarrow> string \<Rightarrow> ws_dispatcher memory_manager \<Rightarrow>
    go_error option \<times> ws_dispatcher memory_manager" where
  "p03_register up wid m =
     (case up of
        Some err \<Rightarrow> (Some err, m)
      | None \<Rightarrow> (None, m\<lparr>mg_dispatcher := snd (ws_register wid (mg_dispatcher m))\<rparr>))"

definition p03_NewAPI :: "go_error option \<Rightarrow> go_error + api_app" where
  "p03_NewAPI tplerr =
     (case tplerr of Some err \<Rightarrow> Inl err
      | None \<Rightarrow> Inr \<lparr>aa_events = sse_channel, aa_hub = NewHub\<rparr>)"

definition p03_RunWorker :: "ctx \<Rightarrow> ctx list \<Rightarrow> ws_consumer \<Rightarrow> (bool \<times> task list \<times> ws_consumer) outcome" where
  "p03_RunWorker x xs c =
     obind (tc_connect ws_consumer_ops x c) (\<lambda>(err, c1).
       if err \<noteq> None then Ret (False, [], c1) else worker_loop ws_consumer_ops xs c1)"

section \<open>Pattern 4\<close>

text \<open>
  The server's state is the dispatcher of the manager; the manager process runs a hub of its
  own, fed from a bridge subscription, beside the one of the server's broadcast loop.
\<close>

record p04_app =
  a4_mgr :: "grpc_server memory_manager"
  a4_hub :: hub
  a4_sub :: nat

definition p04_NewManager :: "ctx \<Rightarrow> go_error option \<Rightarrow> go_error + p04_app" where
  "p04_NewManager x tplerr =
     (let (_, mgr) = manager_start grpc_dispatcher_ops x
                       (NewManager NewMemoryStore NewServer NewMemoryBridge 0);
          (i, bus) = bridge_subscribe (mg_events mgr)
      in case tplerr of
           Some err \<Rightarrow> Inl err
         | None \<Rightarrow> Inr \<lparr>a4_mgr = mgr\<lparr>mg_events := bus\<rparr>, a4_hub = NewHub, a4_sub = i\<rparr>)"

text \<open>\<open>cerr\<close> and \<open>serr\<close> are the errors of making the client and of opening the event stream.\<close>

definition p04_NewAPI :: "go_error option \<Rightarrow> go_error option \<Rightarrow> go_error option \<Rightarrow> go_error + api_app" where
  "p04_NewAPI cerr serr tplerr =
     (case cerr of Some err \<Rightarrow> Inl err
      | None \<Rightarrow> (case serr of Some err \<Rightarrow> Inl err
        | None \<Rightarrow> (case tplerr of Some err \<Rightarrow> Inl err
          | None \<Rightarrow> Inr \<lparr>aa_events = client_channel, aa_hub = NewHub\<rparr>)))"

definition p04_RunWorker :: "(dial_result \<times> ctx) list \<Rightarrow> (nat \<Rightarrow> pb_event \<Rightarrow> go_error option) \<Rightarrow> instant \<Rightarrow>
    ctx \<Rightarrow> ctx list \<Rightarrow> grpc_consumer \<Rightarrow> (bool \<times> task list \<times> grpc_consumer) outcome" where
  "p04_RunWorker ds send now x xs c =
     (let TC = consumer_ops ds send now
      in obind (tc_connect TC x c) (\<lambda>(err, c1).
           if err \<noteq> None then Ret (False, [], c1) else worker_loop TC xs c1))"

section \<open>What the workers do to a dispatcher\<close>

text \<open>
  The steps of the worker side, seen from the manager's dispatcher: they run between any two
  steps of the manager.
\<close>

inductive link_env :: "channel_link \<Rightarrow> channel_link \<Rightarrow> bool" where
  link_take: "channel_receive x l = Ret (r, l') \<Longrightarrow> link_env l l'"
| link_emit: "channel_emit x ev l = Ret (e, l') \<Longrightarrow> link_env l l'"

inductive rest_env :: "echo \<Rightarrow> rest_dispatcher \<Rightarrow> rest_dispatcher \<Rightarrow> bool" for E where
  rest_next: "HandleNext E d = (r, d') \<Longrightarrow> rest_env E d d'"
| rest_post: "HandleEvent E x body d = Ret (r, d') \<Longrightarrow> rest_env E d d'"

inductive grpc_env :: "grpc_server \<Rightarrow> grpc_server \<Rightarrow> bool" where
  grpc_register: "grpc_env s (connect_register wid stream s)"
| grpc_announce: "connect_announce wid s = Ret s' \<Longrightarrow> grpc_env s s'"
| grpc_event: "connect_event wid pe s = Ret s' \<Longrightarrow> grpc_env s s'"
| grpc_remove: "grpc_env s (removeWorker wid s)"
| grpc_wait: "loop_wait x s = Ret (pc, s') \<Longrightarrow> grpc_env s s'"
| grpc_assign: "loop_assign x ok t s = Ret (pc, msg, s') \<Longrightarrow> grpc_env s s'"
| grpc_requeue: "loop_requeue t wid s = Ret (pc, s') \<Longrightarrow> grpc_env s s'"

text \<open>
  Pattern 3: a step of \<^const>\<open>ws_step\<close>, the pumps of the connections standing anywhere the
  dispatcher allows.
\<close>

definition ws_env :: "ws_dispatcher \<Rightarrow> ws_dispatcher \<Rightarrow> bool" where
  "ws_env d d' \<longleftrightarrow> (\<exists>s s'. ws_world_inv s \<and> ww_disp s = d \<and> ws_step s s' \<and> ww_disp s' = d')"

lemma ws_env_inv: "ws_env d d' \<Longrightarrow> ws_inv d'"
  by (auto simp: ws_env_def ws_world_inv_def dest: ws_step_inv)

lemma link_env_inv: "link_inv l \<Longrightarrow> link_env l l' \<Longrightarrow> link_inv l'"
  by (auto elim!: link_env.cases simp: channel_receive_cases channel_emit_open on_done_def
      link_inv_pop_task link_inv_push_event dest!: select_in split: list.splits if_splits)

lemma rest_env_inv:
  assumes "rest_inv d" and "rest_env E d d'"
  shows "rest_inv d'"
  using assms(2)
proof cases
  case (rest_next r)
  with assms(1) show ?thesis
    by (auto simp: HandleNext_def rest_take_eq rest_inv_updates split: list.splits)
next
  case (rest_post x body r)
  with assms(1) show ?thesis
    by (auto simp: HandleEvent_def rest_inv_def on_send_def on_done_def chan_try_send_open chan_ok_push
        dest!: select_in split: option.splits if_splits)
qed

lemma grpc_env_inv:
  assumes inv: "gs_inv s" and "grpc_env s s'"
  shows "gs_inv s'"
  using assms(2)
proof cases
  case (grpc_register wid stream)
  with inv show ?thesis by (simp add: connect_register_def)
next
  case (grpc_announce wid)
  with inv show ?thesis by (auto simp: connect_announce_def chan_send_Ret gs_inv_open)
next
  case (grpc_event wid pe)
  with connect_event_cases [OF inv] show ?thesis by blast
next
  case (grpc_remove wid)
  with inv show ?thesis by (simp add: removeWorker_def)
next
  case (grpc_wait x pc)
  with loop_wait_cases [OF inv, of x pc s'] inv gs_inv_open(4) [OF inv] show ?thesis
    by (auto simp: gs_inv_open chan_ok_def)
next
  case (grpc_assign x ok t pc msg)
  with loop_assign_cases [OF inv] show ?thesis by blast
next
  case (grpc_requeue t wid pc)
  with loop_requeue_cases [OF inv] show ?thesis by blast
qed

definition mgr_start :: "('s, 'd, 'e) manager \<Rightarrow> ('s, 'd, 'e) mgr_world" where
  "mgr_start m = \<lparr>mw_mgr = m, mw_submits = [], mw_scan = (0, [])\<rparr>"

text \<open>A submission that is accepted, as steps: stored, handed over, recorded.\<close>

lemma submission_steps:
  assumes "submitted_task t" and "ts_create TS t (mg_store m) = (None, s1)"
    and "td_dispatch TD c t (mg_dispatcher m) = Ret (None, d1)"
    and "ts_set_dispatched_at TS (task_ID t) now s1 = (x, s2)"
  shows "(mgr_step TS TD EP env)\<^sup>*\<^sup>* (mgr_start m) (mgr_start (m\<lparr>mg_store := s2, mg_dispatcher := d1\<rparr>))"
proof -
  let ?w = "mgr_start m"
  let ?w1 = "?w\<lparr>mw_mgr := m\<lparr>mg_store := s1\<rparr>, mw_submits := [Created t]\<rparr>"
  let ?w2 = "?w\<lparr>mw_mgr := m\<lparr>mg_store := s1, mg_dispatcher := d1\<rparr>, mw_submits := [Dispatched t None]\<rparr>"
  have "mgr_step TS TD EP env ?w ?w1"
    using mgr_step.step_create [OF assms(1), where w = ?w and TS = TS and TD = TD and EP = EP and env = env] assms(2)
    by (simp add: mgr_start_def)
  moreover have "mgr_step TS TD EP env ?w1 ?w2"
    using mgr_step.step_dispatch [where w = ?w1 and us = "[]" and t = t and vs = "[]" and TS = TS and TD = TD
        and EP = EP and env = env and c = c and e = None and ?d1.0 = d1] assms(3) by (simp add: mgr_start_def)
  moreover have "mgr_step TS TD EP env ?w2 (mgr_start (m\<lparr>mg_store := s2, mg_dispatcher := d1\<rparr>))"
    using mgr_step.step_record_dispatched [where w = ?w2 and us = "[]" and t = t and vs = "[]" and TS = TS and TD = TD
        and EP = EP and env = env and now = now] assms(4) by (cases m) (simp add: mgr_start_def)
  ultimately show ?thesis by (meson converse_rtranclp_into_rtranclp rtranclp.rtrancl_refl)
qed

section \<open>Submission, pattern by pattern\<close>

lemma p01_submit_cases:
  assumes inv: "mem_inv (mg_store m)" "link_inv (mg_dispatcher m)"
  shows "\<exists>e m'. submit memory_store_ops channel_dispatcher_ops c now t m = Ret (e, m') \<and>
    (if mem_tasks (mg_store m) (task_ID t) \<noteq> None
     then (\<exists>msg. e = Some (HTTPError 500 msg None)) \<and> mem_tasks (mg_store m') = mem_tasks (mg_store m) \<and>
       mg_dispatcher m' = mg_dispatcher m
     else if chan_room (cl_tasks (mg_dispatcher m))
     then e = None \<and>
       mem_tasks (mg_store m') = (mem_tasks (mg_store m))(task_ID t \<mapsto> t\<lparr>task_DispatchedAt := Some now\<rparr>) \<and>
       mg_dispatcher m' = (mg_dispatcher m)\<lparr>cl_tasks := chan_push t (cl_tasks (mg_dispatcher m))\<rparr>
     else e = Some (HTTPError 429 queue_full_message (Some ErrDispatchFull)) \<and>
       mem_tasks (mg_store m') = (mem_tasks (mg_store m))(task_ID t \<mapsto> with_status now TaskFailed t) \<and>
       mg_dispatcher m' = mg_dispatcher m)"
proof (cases "mem_tasks (mg_store m) (task_ID t)")
  case None
  obtain derr d1 s2 where s: "td_dispatch channel_dispatcher_ops c t (mg_dispatcher m) = Ret (derr, d1)"
    "submit memory_store_ops channel_dispatcher_ops c now t m =
       Ret (map_option dispatch_http_error derr, m\<lparr>mg_store := s2, mg_dispatcher := d1\<rparr>)"
    "mem_inv s2" "link_inv d1" "mem_tasks s2 = (mem_tasks (mg_store m))(task_ID t \<mapsto>
       (if derr = None then t\<lparr>task_DispatchedAt := Some now\<rparr> else with_status now TaskFailed t))"
    using inv None by (rule p1.submit_new [where c = c and now = now])
  with None inv(2) show ?thesis
    by (cases "chan_room (cl_tasks (mg_dispatcher m))")
      (auto simp: channel_dispatch_open dispatch_http_error_def)
next
  case (Some u)
  with p1.submit_duplicate [OF inv(1), of t c now] show ?thesis by auto
qed

lemma ws_pick_None: "ws_pick d = None \<longleftrightarrow> (\<forall>w \<in> set (wd_workers d). wc_busy (wd_heap d w))"
proof -
  have "ws_pick d = None \<longleftrightarrow>
      List.find (\<lambda>w. \<not> wc_busy (wd_heap d w)) (rotate (wd_nextIdx d) (wd_workers d)) = None"
    unfolding ws_pick_rotate [symmetric] by simp
  then show ?thesis by (auto simp: find_None_iff)
qed

text \<open>With every worker busy a pattern 3 submission is refused with status 503.\<close>

lemma p03_submit_no_workers:
  assumes inv: "mem_inv (mg_store m)" "ws_inv (mg_dispatcher m)"
    and new: "mem_tasks (mg_store m) (task_ID t) = None"
    and busy: "\<forall>w \<in> set (wd_workers (mg_dispatcher m)). wc_busy (wd_heap (mg_dispatcher m) w)"
  shows "\<exists>s. submit memory_store_ops ws_dispatcher_ops c now t m =
      Ret (Some (HTTPError 503 no_workers_message (Some ErrNoWorkers)), m\<lparr>mg_store := s\<rparr>) \<and>
    mem_tasks s = (mem_tasks (mg_store m))(task_ID t \<mapsto> with_status now TaskFailed t)"
proof -
  obtain derr d1 s2 where "td_dispatch ws_dispatcher_ops c t (mg_dispatcher m) = Ret (derr, d1)"
    "submit memory_store_ops ws_dispatcher_ops c now t m =
       Ret (map_option dispatch_http_error derr, m\<lparr>mg_store := s2, mg_dispatcher := d1\<rparr>)"
    "mem_inv s2" "ws_inv d1" "mem_tasks s2 = (mem_tasks (mg_store m))(task_ID t \<mapsto>
       (if derr = None then t\<lparr>task_DispatchedAt := Some now\<rparr> else with_status now TaskFailed t))"
    using inv new by (rule p3.submit_new [where c = c and now = now])
  moreover have "ws_dispatch c t (mg_dispatcher m) = Ret (Some ErrNoWorkers, mg_dispatcher m)"
    using busy by (simp add: ws_dispatch_pick ws_pick_None [THEN iffD2])
  ultimately show ?thesis by (auto simp: dispatch_http_error_def)
qed

end
