(* ===== verification/EndToEnd.thy ===== *)
theory EndToEnd
  imports Systems
begin

text \<open>
  The life of one task through all components of pattern 1: a browser subscribes, submits a
  task, a worker of the pool runs it, the manager's event loop handles what the worker
  reported, and the relay hands it to the hub. \<open>p01_life_delivers\<close> gives the outcome.
\<close>

section \<open>The scenario\<close>

definition p01_life :: "echo \<Rightarrow> ctx \<Rightarrow> string \<Rightarrow> instant \<Rightarrow> instant \<Rightarrow> http_request \<Rightarrow> run_env \<Rightarrow>
    (ctx \<times> instant \<times> nat) list \<Rightarrow> nat list \<Rightarrow> p01_app \<Rightarrow> (http_response \<times> nat \<times> p01_app) outcome" where
  "p01_life E x u t0 now rq w es ps a =
     (let (k, h0) = hub_subscribe (getUserID rq) (a1_hub a);
          TM = manager_ops memory_store_ops channel_dispatcher_ops
      in obind (NewRouter E TM x u t0 now 0 PostTasks rq (a1_mgr a)) (\<lambda>(resp, m1).
         obind (run_worker_turn channel_consumer_ops (hd (a1_pool a)) x w (mg_dispatcher m1)) (\<lambda>(_, l).
         obind (event_loop memory_store_ops channel_dispatcher_ops memory_bridge_ops es
                  (m1\<lparr>mg_dispatcher := l\<rparr>)) (\<lambda>m2.
         obind (relay ps (mb_heap (mg_events m2) (a1_sub a)) h0) (\<lambda>(ch, h1).
           let b = (mg_events m2)\<lparr>mb_heap := (mb_heap (mg_events m2))(a1_sub a := ch)\<rparr>
           in Ret (resp, k, a\<lparr>a1_mgr := m2\<lparr>mg_events := b\<rparr>, a1_hub := h1\<rparr>))))))"

section \<open>Its parts\<close>

lemma emit_all_channel:
  assumes "link_inv l" and "length (link_inbox l) + length evs \<le> ch_cap (cl_events l)"
  shows "emit_all channel_consumer_ops cx k evs l =
    Ret (l\<lparr>cl_events := (cl_events l)\<lparr>ch_buf := link_inbox l @ evs\<rparr>\<rparr>)"
  using assms
proof (induction evs arbitrary: l k)
  case Nil
  then show ?case by (simp add: link_inbox_def)
next
  case (Cons ev evs)
  let ?l = "l\<lparr>cl_events := chan_push ev (cl_events l)\<rparr>"
  have room: "chan_room (cl_events l)" using Cons.prems(2) by (simp add: chan_room_def link_inbox_def)
  have "emit_all channel_consumer_ops cx (Suc k) evs ?l =
      Ret (?l\<lparr>cl_events := (cl_events ?l)\<lparr>ch_buf := link_inbox ?l @ evs\<rparr>\<rparr>)"
    by (rule Cons.IH) (use Cons.prems room in \<open>simp_all add: link_inv_push_event link_inbox_def\<close>)
  with room Cons.prems(1) show ?case
    by (simp add: emit_ignored_def channel_emit_open link_inbox_def chan_push_def)
qed

text \<open>The relay empties a channel into the feed of a subscriber whose user the events name.\<close>

lemma relay_turn_Cons:
  assumes "hub_inv h" and "ch_buf ch = ev # evs"
  obtains h1 where "relay_turn p ch h = Ret (True, ch\<lparr>ch_buf := evs\<rparr>, h1)" "hub_inv h1"
    "user_subs h1 = user_subs h"
    "\<forall>k \<in> set (user_subs h (ev_UserID ev)). hb_heap h1 k = offer (marshal_event ev) (hb_heap h k)"
proof -
  obtain h1 where h1: "hub_publish p ev h = Ret h1" "user_subs h1 = user_subs h"
    "\<forall>k \<in> set (user_subs h (ev_UserID ev)). hb_heap h1 k = offer (marshal_event ev) (hb_heap h k)"
    using assms(1) by (simp add: hub_publish_eq fun_eq_iff)
  have "relay_turn p ch h = Ret (True, ch\<lparr>ch_buf := evs\<rparr>, h1)"
    using assms(2) h1(1) by (simp add: relay_turn_def chan_recv_def)
  then show thesis using hub_inv_publish [OF assms(1) h1(1)] h1(2,3) that by blast
qed

lemma relay_delivers:
  assumes "hub_inv h" and "k \<in> set (user_subs h u)" and "\<forall>ev \<in> set (ch_buf ch). ev_UserID ev = u"
    and "length ps = length (ch_buf ch)"
    and "length (ch_buf (hb_heap h k)) + length (ch_buf ch) \<le> ch_cap (hb_heap h k)"
  shows "\<exists>h'. relay ps ch h = Ret (ch\<lparr>ch_buf := []\<rparr>, h') \<and>
    ch_buf (hb_heap h' k) = ch_buf (hb_heap h k) @ map marshal_event (ch_buf ch)"
  using assms
proof (induction ps arbitrary: ch h)
  case Nil
  then show ?case by simp
next
  case (Cons p ps)
  from Cons.prems(4) obtain ev evs where buf: "ch_buf ch = ev # evs" by (cases "ch_buf ch") auto
  obtain h1 where h1: "relay_turn p ch h = Ret (True, ch\<lparr>ch_buf := evs\<rparr>, h1)" "hub_inv h1"
    "user_subs h1 = user_subs h"
    "\<forall>k \<in> set (user_subs h (ev_UserID ev)). hb_heap h1 k = offer (marshal_event ev) (hb_heap h k)"
    using Cons.prems(1) buf by (rule relay_turn_Cons [where p = p])
  have "hb_heap h1 k = offer (marshal_event ev) (hb_heap h k)" using h1(4) Cons.prems(2,3) buf by simp
  moreover have "chan_room (hb_heap h k)" using Cons.prems(5) buf by (simp add: chan_room_def)
  ultimately have k: "ch_buf (hb_heap h1 k) = ch_buf (hb_heap h k) @ [marshal_event ev]"
    "ch_cap (hb_heap h1 k) = ch_cap (hb_heap h k)" by simp_all
  have "\<exists>h'. relay ps (ch\<lparr>ch_buf := evs\<rparr>) h1 = Ret ((ch\<lparr>ch_buf := evs\<rparr>)\<lparr>ch_buf := []\<rparr>, h') \<and>
      ch_buf (hb_heap h' k) = ch_buf (hb_heap h1 k) @ map marshal_event (ch_buf (ch\<lparr>ch_buf := evs\<rparr>))"
    by (rule Cons.IH) (use Cons.prems h1(2,3) buf k in auto)
  with h1(1) k(1) buf show ?case by simp
qed

text \<open>Of a run's events only the last changes the store.\<close>

lemma apply_events_run:
  assumes "length ts = length (run_script cancel t)"
  shows "\<exists>st. terminal_status st \<and> (st = TaskFailed \<longleftrightarrow> (\<exists>j < length (task_Stages t). cancel j)) \<and>
    apply_events (zip ts (run_script cancel t)) m = spec_finish (last ts) (task_ID t) st m"
proof -
  obtain evs st where script: "run_script cancel t = evs @ [status_event t st]"
    and evs: "list_all (\<lambda>ev. \<not> is_terminal ev) evs" and st: "terminal_status st"
      "st = TaskFailed \<longleftrightarrow> (\<exists>j < length (task_Stages t). cancel j)"
    using run_script_terminal by blast
  have skip: "apply_events (zip us xs @ ys) m = apply_events ys m"
    if "list_all (\<lambda>ev. \<not> is_terminal ev) xs" for us xs ys
    using that by (induction us xs rule: list_induct2') auto
  from assms(1) script obtain us now where ts: "ts = us @ [now]" "length us = length evs"
    by (cases ts rule: rev_exhaust) auto
  from skip [OF evs, of us "[(now, status_event t st)]"] st script ts show ?thesis
    by (intro exI [of _ st]) simp
qed

section \<open>The whole life\<close>

lemma p01_New_app:
  assumes "p01_New y None cfg = Ret (Inr a)"
  shows "a1_mgr a = \<lparr>mg_store = NewMemoryStore,
      mg_dispatcher = \<lparr>cl_tasks = make_chan (nat (QueueSize cfg)), cl_events = make_chan 256\<rparr>,
      mg_events = snd (bridge_subscribe NewMemoryBridge), mg_deadline = 0\<rparr>"
    "a1_hub a = NewHub" "a1_sub a = 0"
    "a1_pool a = replicate (nat (Workers cfg)) (ms_executor (cfg_MaxStageDuration cfg))"
  using assms
  by (auto simp: p01_New_def goroutine_New_def Let_def manager_start_def channel_start_def
      NewManager_def bridge_subscribe_def NewMemoryBridge_def split: if_splits)

lemma p01_New_total: "0 \<le> QueueSize cfg \<Longrightarrow> \<exists>a. p01_New y None cfg = Ret (Inr a)"
  by (simp add: p01_New_def goroutine_New_def Let_def manager_start_def bridge_subscribe_def channel_start_def)

text \<open>The first three stops: accepted, stored and run, with everything the run reports in the event channel.\<close>

lemma p01_accepted:
  assumes E: "echo_ok E" and a: "p01_New y None cfg = Ret (Inr a)" and q: "0 < QueueSize cfg"
    and req: "unmarshal_submit (rq_Body rq) = Some \<lparr>sr_Name = name, sr_StageCount = n\<rparr>" "name \<noteq> []" "rq_HXRequest rq \<noteq> ''true''"
    and t: "t = (new_task u t0 name (if n < 1 then 3 else n))\<lparr>task_UserID := getUserID rq\<rparr>"
  obtains m1 where
    "NewRouter E (manager_ops memory_store_ops channel_dispatcher_ops) x u t0 now 0 PostTasks rq (a1_mgr a) =
       Ret (response 202 (id_body u @ [newline]), m1)"
    "mem_tasks (mg_store m1) = [u \<mapsto> t\<lparr>task_DispatchedAt := Some now\<rparr>]" "mem_inv (mg_store m1)"
    "mg_dispatcher m1 = \<lparr>cl_tasks = (make_chan (nat (QueueSize cfg)))\<lparr>ch_buf := [t]\<rparr>, cl_events = make_chan 256\<rparr>"
    "mg_events m1 = snd (bridge_subscribe NewMemoryBridge)"
proof -
  let ?m = "a1_mgr a"
  have inv: "mem_inv (mg_store ?m)" "link_inv (mg_dispatcher ?m)" and empty: "mem_tasks (mg_store ?m) = Map.empty"
    by (simp_all add: p01_New_app(1) [OF a] NewMemoryStore_def mem_inv_def mem_tasks_def link_inv_def)
  have d: "channel_dispatch x t (mg_dispatcher ?m) = Ret (None, \<lparr>cl_tasks = (make_chan (nat (QueueSize cfg)))\<lparr>ch_buf := [t]\<rparr>,
      cl_events = make_chan 256\<rparr>)"
    using q by (simp add: p01_New_app(1) [OF a] channel_dispatch_def chan_try_send_def chan_room_def chan_push_def)
  obtain derr d1 s2 where s: "td_dispatch channel_dispatcher_ops x t (mg_dispatcher ?m) = Ret (derr, d1)"
    "submit memory_store_ops channel_dispatcher_ops x now t ?m =
       Ret (map_option dispatch_http_error derr, ?m\<lparr>mg_store := s2, mg_dispatcher := d1\<rparr>)"
    "mem_inv s2" "link_inv d1" "mem_tasks s2 = (mem_tasks (mg_store ?m))(task_ID t \<mapsto>
       (if derr = None then t\<lparr>task_DispatchedAt := Some now\<rparr> else with_status now TaskFailed t))"
    using inv by (rule p1.submit_new [where c = x and now = now and t = t]) (simp add: empty)
  show thesis
  proof (rule that [of "?m\<lparr>mg_store := s2, mg_dispatcher := d1\<rparr>"])
    show "NewRouter E (manager_ops memory_store_ops channel_dispatcher_ops) x u t0 now 0 PostTasks rq ?m =
       Ret (response 202 (id_body u @ [newline]), ?m\<lparr>mg_store := s2, mg_dispatcher := d1\<rparr>)"
      using s d req(2,3) t echo_laws(1) [OF E] echo_laws(7) [OF E req(1)]
      by (cases "n < 1") (simp_all add: NewRouter_def SubmitTask_def manager_ops_def Let_def)
  qed (use s d empty t in \<open>simp_all add: p01_New_app(1) [OF a]\<close>)
qed

text \<open>The worker takes the task and leaves its whole report in the event channel.\<close>

lemma length_run_script_le: "length (run_script cancel t) \<le> 2 * length (task_Stages t) + 2"
proof -
  have "length (stage_script cancel t tot i ss) \<le> 2 * length ss + 1" for tot i ss
    by (induction ss arbitrary: i) (auto simp: le_SucI)
  then show ?thesis by (simp add: run_script_def)
qed

lemma p01_worker_turn:
  assumes "valid_executor e" and "\<not> ctx_done x" and "length (task_Stages t) \<le> 8"
  shows "run_worker_turn channel_consumer_ops e x w
      \<lparr>cl_tasks = (make_chan q)\<lparr>ch_buf := [t]\<rparr>, cl_events = make_chan 256\<rparr> =
    Ret (True, \<lparr>cl_tasks = make_chan q, cl_events = (make_chan 256)\<lparr>ch_buf := run_script (re_cancel w) t\<rparr>\<rparr>)"
proof -
  let ?l = "\<lparr>cl_tasks = make_chan q, cl_events = make_chan 256\<rparr>"
  have "length (run_script (re_cancel w) t) \<le> 256"
    using length_run_script_le [of "re_cancel w" t] assms(3) by simp
  then have "emit_all channel_consumer_ops (re_ctx w) 0 (run_script (re_cancel w) t) ?l =
      Ret \<lparr>cl_tasks = make_chan q, cl_events = (make_chan 256)\<lparr>ch_buf := run_script (re_cancel w) t\<rparr>\<rparr>"
    by (subst emit_all_channel) (simp_all add: link_inv_def link_inbox_def)
  with assms show ?thesis
    by (simp add: run_worker_turn_def channel_receive_def on_recv_open exec_run_script make_chan_def)
qed

text \<open>The event loop and the relay: the report reaches the browser, the final status the store.\<close>

lemma p01_report:
  assumes m: "mem_inv (mg_store m)" "mem_tasks (mg_store m) (task_ID t) = Some t'"
      "mg_dispatcher m = \<lparr>cl_tasks = q, cl_events = (make_chan 256)\<lparr>ch_buf := run_script cancel t\<rparr>\<rparr>"
      "\<not> ch_closed q" "chan_ok q" "mg_events m = snd (bridge_subscribe NewMemoryBridge)"
    and es: "length es = length (run_script cancel t)" "list_all (\<lambda>(c, _, _). \<not> ctx_done c) es"
    and ps: "length ps = length es" and short: "length (task_Stages t) \<le> 8"
    and sub: "hub_subscribe (task_UserID t') NewHub = (k, h0)"
  obtains m2 ch h1 st where
    "event_loop memory_store_ops channel_dispatcher_ops memory_bridge_ops es m = Ret m2"
    "relay ps (mb_heap (mg_events m2) 0) h0 = Ret (ch, h1)"
    "ch_buf (hb_heap h1 k) = map (\<lambda>ev. marshal_event (ev\<lparr>ev_UserID := task_UserID t'\<rparr>)) (run_script cancel t)"
    "terminal_status st" "st = TaskFailed \<longleftrightarrow> (\<exists>j < length (task_Stages t). cancel j)"
    "mem_tasks (mg_store m2) (task_ID t) = Some (with_status (fst (snd (last es))) st t')"
proof -
  let ?script = "run_script cancel t" and ?en = "\<lambda>ev. ev\<lparr>ev_UserID := task_UserID t'\<rparr>"
  have len: "length ?script \<le> 18" using length_run_script_le [of cancel t] short by simp
  have inv: "link_inv (mg_dispatcher m)" "link_inbox (mg_dispatcher m) = ?script"
    using m(4,5) len by (simp_all add: m(3) link_inv_def link_inbox_def chan_ok_def)
  have bus: "bridge_inv (mg_events m)" "0 \<in> bridge_subs (mg_events m)"
    "bridge_free (mg_events m) 0 = 64" "bridge_feed (mg_events m) 0 = []"
    by (simp_all add: m(6) bridge_subscribe_def NewMemoryBridge_def bridge_inv_def bridge_subs_def
        bridge_free_def bridge_feed_def Let_def)
  obtain m2 where m2: "event_loop memory_store_ops channel_dispatcher_ops memory_bridge_ops es m = Ret m2"
    "bridge_feed (mg_events m2) 0 = map (enrich memory_store_ops (mg_store m)) ?script"
    "mem_tasks (mg_store m2) = apply_events (zip (map (\<lambda>(_, now, _). now) es) ?script) (mem_tasks (mg_store m))"
    using p1.event_loop_delivers [of m es 0] m(1) inv bus es len by auto
  have feed: "ch_buf (mb_heap (mg_events m2) 0) = map ?en ?script"
    using m2(2) m(1,2) run_script_ids [of _ cancel t] by (simp add: p1.enrich_spec bridge_feed_def)
  have k: "k = 0" "h0 = snd (hub_subscribe (task_UserID t') NewHub)"
    using sub hub_subscribe_simps(1) [of "task_UserID t'" NewHub] by (simp_all add: NewHub_def)
  have "\<exists>h1. relay ps (mb_heap (mg_events m2) 0) h0 = Ret ((mb_heap (mg_events m2) 0)\<lparr>ch_buf := []\<rparr>, h1) \<and>
      ch_buf (hb_heap h1 k) = ch_buf (hb_heap h0 k) @ map marshal_event (ch_buf (mb_heap (mg_events m2) 0))"
    by (rule relay_delivers [where u = "task_UserID t'"])
      (use feed ps es(1) len in \<open>simp_all add: k hub_inv_subscribe\<close>, simp_all add: NewHub_def)
  then obtain h1 where h1: "relay ps (mb_heap (mg_events m2) 0) h0 = Ret ((mb_heap (mg_events m2) 0)\<lparr>ch_buf := []\<rparr>, h1)"
    "ch_buf (hb_heap h1 k) = map (\<lambda>ev. marshal_event (?en ev)) ?script"
    using feed by (auto simp: k comp_def NewHub_def)
  have last: "last (map (\<lambda>(_, now, _). now) es) = fst (snd (last es))"
    using es(1) by (cases es rule: rev_exhaust) (auto simp: run_script_def split: prod.split)
  have "length (map (\<lambda>(_, now, _). now) es) = length ?script" using es(1) by simp
  from apply_events_run [OF this, of "mem_tasks (mg_store m)"] obtain st where
    st: "terminal_status st" "st = TaskFailed \<longleftrightarrow> (\<exists>j < length (task_Stages t). cancel j)"
    and fin: "mem_tasks (mg_store m2) = spec_finish (fst (snd (last es))) (task_ID t) st (mem_tasks (mg_store m))"
    unfolding m2(3) last by blast
  from fin m(2) have "mem_tasks (mg_store m2) (task_ID t) = Some (with_status (fst (snd (last es))) st t')"
    by (simp add: spec_finish_def)
  with m2(1) h1 st show thesis by (rule that)
qed

lemma p01_life_delivers:
  assumes E: "echo_ok E" and a: "p01_New y None cfg = Ret (Inr a)" and q: "0 < QueueSize cfg" "0 < Workers cfg"
    and exec: "valid_executor (ms_executor (cfg_MaxStageDuration cfg))" and x: "\<not> ctx_done x"
    and req: "unmarshal_submit (rq_Body rq) = Some \<lparr>sr_Name = name, sr_StageCount = n\<rparr>" "name \<noteq> []" "rq_HXRequest rq \<noteq> ''true''"
    and t: "t = (new_task u t0 name (if n < 1 then 3 else n))\<lparr>task_UserID := getUserID rq\<rparr>"
    and es: "length es = length (run_script (re_cancel w) t)" "list_all (\<lambda>(c, _, _). \<not> ctx_done c) es"
    and ps: "length ps = length es"
  shows "\<exists>k a' st. p01_life E x u t0 now rq w es ps a = Ret (response 202 (id_body u @ [newline]), k, a') \<and>
    ch_buf (hb_heap (a1_hub a') k) =
      map (\<lambda>ev. marshal_event (ev\<lparr>ev_UserID := getUserID rq\<rparr>)) (run_script (re_cancel w) t) \<and>
    terminal_status st \<and> (st = TaskFailed \<longleftrightarrow> (\<exists>j < length (task_Stages t). re_cancel w j)) \<and>
    mem_tasks (mg_store (a1_mgr a')) u =
      Some (with_status (fst (snd (last es))) st (t\<lparr>task_DispatchedAt := Some now\<rparr>))"
proof -
  let ?t = "t\<lparr>task_DispatchedAt := Some now\<rparr>" and ?q = "make_chan (nat (QueueSize cfg))"
  have t': "task_ID t = u" "task_UserID ?t = getUserID rq" "length (task_Stages t) \<le> 8"
    by (simp_all add: t length_new_task_stages)
  obtain m1 where m1: "NewRouter E (manager_ops memory_store_ops channel_dispatcher_ops) x u t0 now 0 PostTasks rq
      (a1_mgr a) = Ret (response 202 (id_body u @ [newline]), m1)"
    "mem_tasks (mg_store m1) = [u \<mapsto> ?t]" "mem_inv (mg_store m1)"
    "mg_dispatcher m1 = \<lparr>cl_tasks = ?q\<lparr>ch_buf := [t]\<rparr>, cl_events = make_chan 256\<rparr>"
    "mg_events m1 = snd (bridge_subscribe NewMemoryBridge)"
    using E a q(1) req t by (rule p01_accepted)
  let ?l = "\<lparr>cl_tasks = ?q, cl_events = (make_chan 256)\<lparr>ch_buf := run_script (re_cancel w) t\<rparr>\<rparr>"
  have "hd (a1_pool a) = ms_executor (cfg_MaxStageDuration cfg)"
    using q(2) by (simp add: p01_New_app(4) [OF a])
  with m1(4) p01_worker_turn [OF exec x t'(3)]
  have turn: "run_worker_turn channel_consumer_ops (hd (a1_pool a)) x w (mg_dispatcher m1) = Ret (True, ?l)"
    by simp
  obtain k h0 where sub: "hub_subscribe (getUserID rq) NewHub = (k, h0)"
    by (cases "hub_subscribe (getUserID rq) NewHub")
  obtain m2 ch h1 st where r:
    "event_loop memory_store_ops channel_dispatcher_ops memory_bridge_ops es (m1\<lparr>mg_dispatcher := ?l\<rparr>) = Ret m2"
    "relay ps (mb_heap (mg_events m2) 0) h0 = Ret (ch, h1)"
    "ch_buf (hb_heap h1 k) = map (\<lambda>ev. marshal_event (ev\<lparr>ev_UserID := task_UserID ?t\<rparr>)) (run_script (re_cancel w) t)"
    "terminal_status st" "st = TaskFailed \<longleftrightarrow> (\<exists>j < length (task_Stages t). re_cancel w j)"
    "mem_tasks (mg_store m2) (task_ID t) = Some (with_status (fst (snd (last es))) st ?t)"
    by (rule p01_report [of "m1\<lparr>mg_dispatcher := ?l\<rparr>" t ?t ?q "re_cancel w" es ps k h0])
      (use m1 es ps t' sub in simp_all)
  let ?b = "(mg_events m2)\<lparr>mb_heap := (mb_heap (mg_events m2))(0 := ch)\<rparr>"
  have "p01_life E x u t0 now rq w es ps a = Ret (response 202 (id_body u @ [newline]), k,
      a\<lparr>a1_mgr := m2\<lparr>mg_events := ?b\<rparr>, a1_hub := h1\<rparr>)"
    using m1(1) turn r(1,2) sub by (simp add: p01_life_def p01_New_app(2,3) [OF a])
  with r(3-6) t'(1,2) show ?thesis
    by (intro exI [of _ k] exI [of _ "a\<lparr>a1_mgr := m2\<lparr>mg_events := ?b\<rparr>, a1_hub := h1\<rparr>"] exI [of _ st]) simp
qed

end
