(* ===== verification/TestHelpers.thy ===== *)
theory TestHelpers
  imports Client
begin

text \<open>
  The client side of the integration tests, \<^verbatim>\<open>shared/testutil/helpers.go\<close>: the requests the
  tests make, the SSE reader with its goroutine, and the collection of events until none has
  come for a while.

  The HTTP client is an argument \<open>W\<close>: what comes back for a call, and the state of the world
  afterwards; \<open>bad\<close> is the error of \<^verbatim>\<open>http.NewRequest\<close>. A test that calls \<^verbatim>\<open>t.Fatalf\<close> yields
  \<^term>\<open>Inl\<close> with the message. Loops on the clock take the readings as a list and yield
  \<^term>\<open>None\<close> when it is used up. Reader goroutine and collector share the channel: a list of
  turns says who moves when, and a turn of one that blocks does nothing.

  \<^item> \<open>submit_roundtrip\<close>: the API decodes the body the helpers send to the request meant.
  \<^item> \<open>collect_run_keeps\<close>: no event of a stream is lost, doubled or reordered on its way to the
    collector, whatever the turns.
  \<^item> \<open>quiet_end\<close>: the collector stops only a full quiet period after the last event it took.
\<close>

section \<open>Requests and responses\<close>

record http_call =
  hc_Method :: string
  hc_URL :: string
  hc_ContentType :: "string option"
  hc_UserID :: "string option"
  hc_Body :: string

type_synonym 'm web = "http_call \<Rightarrow> 'm \<Rightarrow> (go_error + http_response) \<times> 'm"

definition http_get :: "string \<Rightarrow> http_call" where
  "http_get url = \<lparr>hc_Method = ''GET'', hc_URL = url, hc_ContentType = None, hc_UserID = None, hc_Body = []\<rparr>"

text \<open>\<^verbatim>\<open>SubmitRequest\<close> has the fields of the handler's request type.\<close>

definition marshal_submit :: "submit_request \<Rightarrow> string" where
  "marshal_submit r =
     jtext (JObj [(''name'', JStr (sr_Name r)), (''stage_count'', JNum (int_text (sr_StageCount r)))])"

record stage_response =
  sg_Index :: int
  sg_Name :: string

record task_response =
  tr_ID :: string
  tr_Name :: string
  tr_Status :: string
  tr_Stages :: "stage_response list"

definition stage_response_member :: "string \<Rightarrow> json \<Rightarrow> stage_response \<Rightarrow> stage_response option" where
  "stage_response_member k v s =
     (case field_index [''index'', ''name''] k of
        None \<Rightarrow> Some s
      | Some i \<Rightarrow>
          if i = 0 then set_int (\<lambda>n r. r\<lparr>sg_Index := n\<rparr>) v s
          else set_string (\<lambda>x r. r\<lparr>sg_Name := x\<rparr>) v s)"

definition stage_response_of_json :: "json \<Rightarrow> stage_response option" where
  "stage_response_of_json v =
     (case v of
        JNull \<Rightarrow> Some \<lparr>sg_Index = 0, sg_Name = []\<rparr>
      | JObj kvs \<Rightarrow> members stage_response_member kvs \<lparr>sg_Index = 0, sg_Name = []\<rparr>
      | _ \<Rightarrow> None)"

definition task_response_member :: "string \<Rightarrow> json \<Rightarrow> task_response \<Rightarrow> task_response option" where
  "task_response_member k v t =
     (case field_index [''id'', ''name'', ''status'', ''stages''] k of
        None \<Rightarrow> Some t
      | Some i \<Rightarrow>
          if i = 0 then set_string (\<lambda>s r. r\<lparr>tr_ID := s\<rparr>) v t
          else if i = 1 then set_string (\<lambda>s r. r\<lparr>tr_Name := s\<rparr>) v t
          else if i = 2 then set_string (\<lambda>s r. r\<lparr>tr_Status := s\<rparr>) v t
          else (case v of
                  JNull \<Rightarrow> Some (t\<lparr>tr_Stages := []\<rparr>)
                | JArr vs \<Rightarrow> map_option (\<lambda>ss. t\<lparr>tr_Stages := ss\<rparr>) (map_all stage_response_of_json vs)
                | _ \<Rightarrow> None))"

definition zero_task_response :: task_response where
  "zero_task_response = \<lparr>tr_ID = [], tr_Name = [], tr_Status = [], tr_Stages = []\<rparr>"

definition task_response_of_json :: "json \<Rightarrow> task_response option" where
  "task_response_of_json v =
     (case v of
        JNull \<Rightarrow> Some zero_task_response
      | JObj kvs \<Rightarrow> members task_response_member kvs zero_task_response
      | _ \<Rightarrow> None)"

text \<open>\<^verbatim>\<open>SubmitResponse\<close>, by its only field.\<close>

definition submit_response_of_json :: "json \<Rightarrow> string option" where
  "submit_response_of_json v =
     (let put = (\<lambda>k v i. if field_index [''id''] k = None then Some i else set_string (\<lambda>s _. s) v i)
      in case v of JNull \<Rightarrow> Some [] | JObj kvs \<Rightarrow> members put kvs [] | _ \<Rightarrow> None)"

text \<open>
  What is in the variable when the error of \<^verbatim>\<open>Decode\<close> is ignored: a value of the wrong type
  is skipped, the other members are stored.
\<close>

fun members_kept :: "(string \<Rightarrow> json \<Rightarrow> 'r \<Rightarrow> 'r option) \<Rightarrow> (string \<times> json) list \<Rightarrow> 'r \<Rightarrow> 'r" where
  "members_kept put [] r = r"
| "members_kept put ((k, v) # kvs) r = members_kept put kvs (case put k v r of None \<Rightarrow> r | Some r1 \<Rightarrow> r1)"

definition submit_response_kept :: "string \<Rightarrow> string" where
  "submit_response_kept body =
     (let put = (\<lambda>k v i. if field_index [''id''] k = None then Some i else set_string (\<lambda>s _. s) v i)
      in case decode_first body of Some (JObj kvs) \<Rightarrow> members_kept put kvs [] | _ \<Rightarrow> [])"

section \<open>The calls of a test\<close>

definition post_call :: "string \<Rightarrow> string \<Rightarrow> string \<Rightarrow> int \<Rightarrow> http_call" where
  "post_call baseURL userID name stageCount =
     \<lparr>hc_Method = ''POST'', hc_URL = baseURL @ ''/tasks'', hc_ContentType = Some ''application/json'',
      hc_UserID = Some userID, hc_Body = marshal_submit \<lparr>sr_Name = name, sr_StageCount = stageCount\<rparr>\<rparr>"

definition PostTask :: "'m web \<Rightarrow> go_error option \<Rightarrow> string \<Rightarrow> string \<Rightarrow> string \<Rightarrow> int \<Rightarrow> 'm \<Rightarrow> (string + string) \<times> 'm" where
  "PostTask W bad baseURL userID name stageCount m =
     (case bad of
        Some e \<Rightarrow> (Inl (''new request: '' @ error_text e), m)
      | None \<Rightarrow>
          let (r, m1) = W (post_call baseURL userID name stageCount) m
          in (case r of
                Inl e \<Rightarrow> Inl (''POST /tasks: '' @ error_text e)
              | Inr resp \<Rightarrow>
                  if rs_Status resp \<noteq> 202 then Inl (''expected 202, got '' @ int_text (rs_Status resp))
                  else (case Option.bind (decode_first (rs_Body resp)) submit_response_of_json of
                          None \<Rightarrow> Inl ''decode submit response''
                        | Some i \<Rightarrow> Inr i), m1))"

text \<open>The method names of the handlers clash with the helpers' \<^verbatim>\<open>ListTasks\<close> and \<^verbatim>\<open>GetTask\<close>.\<close>

definition test_ListTasks :: "'m web \<Rightarrow> string \<Rightarrow> 'm \<Rightarrow> (string + task_response list) \<times> 'm" where
  "test_ListTasks W baseURL m =
     (let (r, m1) = W (http_get (baseURL @ ''/tasks'')) m
      in (case r of
            Inl e \<Rightarrow> Inl (''GET /tasks: '' @ error_text e)
          | Inr resp \<Rightarrow>
              if rs_Status resp \<noteq> 200 then Inl (''GET /tasks: expected 200, got '' @ int_text (rs_Status resp))
              else (case Option.bind (decode_first (rs_Body resp)) (\<lambda>v. case v of
                        JNull \<Rightarrow> Some [] | JArr vs \<Rightarrow> map_all task_response_of_json vs | _ \<Rightarrow> None) of
                      None \<Rightarrow> Inl ''decode task list''
                    | Some ts \<Rightarrow> Inr ts), m1))"

definition test_GetTask :: "'m web \<Rightarrow> string \<Rightarrow> string \<Rightarrow> 'm \<Rightarrow> (string + task_response) \<times> 'm" where
  "test_GetTask W baseURL i m =
     (let (r, m1) = W (http_get (baseURL @ ''/tasks/'' @ i)) m
      in (case r of
            Inl e \<Rightarrow> Inl (''GET /tasks/'' @ i @ '': '' @ error_text e)
          | Inr resp \<Rightarrow>
              (case Option.bind (decode_first (rs_Body resp)) task_response_of_json of
                 None \<Rightarrow> Inl ''decode task''
               | Some t \<Rightarrow> Inr t), m1))"

definition DoGet :: "'m web \<Rightarrow> string \<Rightarrow> 'm \<Rightarrow> (int \<times> go_error option) \<times> 'm" where
  "DoGet W url m =
     (let (r, m1) = W (http_get url) m
      in (case r of Inl e \<Rightarrow> (0, Some e) | Inr resp \<Rightarrow> (rs_Status resp, None), m1))"

text \<open>\<^verbatim>\<open>WaitReady\<close>: the clock at the start, and at each test of the loop.\<close>

fun wait_ready_loop :: "'m web \<Rightarrow> string \<Rightarrow> instant \<Rightarrow> instant list \<Rightarrow> 'm \<Rightarrow> (string + unit) option \<times> 'm" where
  "wait_ready_loop W baseURL deadline [] m = (None, m)"
| "wait_ready_loop W baseURL deadline (now # nows) m =
     (if now < deadline
      then let ((code, err), m1) = DoGet W (baseURL @ ''/health'') m
           in if err = None \<and> code = 200 then (Some (Inr ()), m1) else wait_ready_loop W baseURL deadline nows m1
      else (Some (Inl (''server at '' @ baseURL @ '' did not become ready within 10s'')), m))"

definition WaitReady :: "'m web \<Rightarrow> string \<Rightarrow> instant \<Rightarrow> instant list \<Rightarrow> 'm \<Rightarrow> (string + unit) option \<times> 'm" where
  "WaitReady W baseURL start nows m = wait_ready_loop W baseURL (start + 10 * Second) nows m"

text \<open>\<^verbatim>\<open>waitForTaskCompletion\<close>; the flag says whether it has returned.\<close>

fun completion_loop :: "'m web \<Rightarrow> string \<Rightarrow> instant \<Rightarrow> instant list \<Rightarrow> 'm \<Rightarrow> bool \<times> 'm" where
  "completion_loop W url deadline [] m = (False, m)"
| "completion_loop W url deadline (now # nows) m =
     (if now < deadline
      then let (r, m1) = W (http_get url) m
           in (case r of
                 Inl e \<Rightarrow> completion_loop W url deadline nows m1
               | Inr resp \<Rightarrow>
                   (case Option.bind (decode_first (rs_Body resp)) task_response_of_json of
                      Some t \<Rightarrow> if tr_Status t = ''completed'' \<or> tr_Status t = ''failed'' then (True, m1)
                                 else completion_loop W url deadline nows m1
                    | None \<Rightarrow> completion_loop W url deadline nows m1))
      else (True, m))"

definition waitForTaskCompletion :: "'m web \<Rightarrow> string \<Rightarrow> string \<Rightarrow> duration \<Rightarrow> instant \<Rightarrow> instant list \<Rightarrow> 'm \<Rightarrow> bool \<times> 'm" where
  "waitForTaskCompletion W baseURL taskID timeout start nows m =
     (if taskID = [] then (True, m)
      else completion_loop W (baseURL @ ''/tasks/'' @ taskID) (start + timeout) nows m)"

text \<open>
  \<^verbatim>\<open>WaitForWorker\<close>: a turn has the clock, the error of \<^verbatim>\<open>NewRequest\<close>, and the clock of the wait
  for the probe.
\<close>

fun worker_loop :: "'m web \<Rightarrow> string \<Rightarrow> instant \<Rightarrow> (instant \<times> go_error option \<times> instant \<times> instant list) list \<Rightarrow> 'm \<Rightarrow>
    (string + unit) option \<times> 'm" where
  "worker_loop W baseURL deadline [] m = (None, m)"
| "worker_loop W baseURL deadline ((now, bad, start, nows) # turns) m =
     (if now < deadline
      then (if bad \<noteq> None then worker_loop W baseURL deadline turns m
            else let (r, m1) = W (post_call baseURL ''probe-worker'' ''probe'' 1) m
                 in (case r of
                       Inl e \<Rightarrow> worker_loop W baseURL deadline turns m1
                     | Inr resp \<Rightarrow>
                         if rs_Status resp = 202
                         then let (fin, m2) = waitForTaskCompletion W baseURL (submit_response_kept (rs_Body resp))
                                                (10 * Second) start nows m1
                              in (if fin then Some (Inr ()) else None, m2)
                         else worker_loop W baseURL deadline turns m1))
      else (Some (Inl ''no workers became available within 5s''), m))"

definition WaitForWorker :: "'m web \<Rightarrow> string \<Rightarrow> instant \<Rightarrow> (instant \<times> go_error option \<times> instant \<times> instant list) list \<Rightarrow> 'm \<Rightarrow>
    (string + unit) option \<times> 'm" where
  "WaitForWorker W baseURL start turns m = worker_loop W baseURL (start + 5 * Second) turns m"

section \<open>The SSE reader\<close>

record sse_event =
  sv_Type :: string
  sv_TaskID :: string
  sv_StageName :: string
  sv_Progress :: int
  sv_Status :: string

definition sse_event_member :: "string \<Rightarrow> json \<Rightarrow> sse_event \<Rightarrow> sse_event option" where
  "sse_event_member k v e =
     (case field_index [''type'', ''taskID'', ''stageName'', ''progress'', ''status''] k of
        None \<Rightarrow> Some e
      | Some i \<Rightarrow>
          if i = 0 then set_string (\<lambda>s r. r\<lparr>sv_Type := s\<rparr>) v e
          else if i = 1 then set_string (\<lambda>s r. r\<lparr>sv_TaskID := s\<rparr>) v e
          else if i = 2 then set_string (\<lambda>s r. r\<lparr>sv_StageName := s\<rparr>) v e
          else if i = 3 then set_int (\<lambda>n r. r\<lparr>sv_Progress := n\<rparr>) v e
          else set_string (\<lambda>s r. r\<lparr>sv_Status := s\<rparr>) v e)"

definition zero_sse_event :: sse_event where
  "zero_sse_event = \<lparr>sv_Type = [], sv_TaskID = [], sv_StageName = [], sv_Progress = 0, sv_Status = []\<rparr>"

definition unmarshal_sse_event :: "string \<Rightarrow> sse_event option" where
  "unmarshal_sse_event s =
     Option.bind (parse_json s) (\<lambda>v. case v of
         JNull \<Rightarrow> Some zero_sse_event
       | JObj kvs \<Rightarrow> members sse_event_member kvs zero_sse_event
       | _ \<Rightarrow> None)"

text \<open>
  The connection: the lines it still brings, whether it ends after them, the channel, and
  whether the goroutine has returned.
\<close>

record sse_conn =
  sc_lines :: "string list"
  sc_ends :: bool
  sc_events :: "sse_event chan"
  sc_stopped :: bool

definition closed_conn :: sse_conn where
  "closed_conn = \<lparr>sc_lines = [], sc_ends = True, sc_events = (make_chan 256)\<lparr>ch_closed := True\<rparr>, sc_stopped = True\<rparr>"

definition SSEClient :: "'m web \<Rightarrow> go_error option \<Rightarrow> bool \<Rightarrow> string \<Rightarrow> string \<Rightarrow> 'm \<Rightarrow> sse_conn \<times> 'm" where
  "SSEClient W bad ends baseURL userID m =
     (if bad \<noteq> None then (closed_conn, m)
      else let (r, m1) = W (http_get (baseURL @ ''/events'')\<lparr>hc_UserID := Some userID\<rparr>) m
           in (case r of
                 Inl e \<Rightarrow> closed_conn
               | Inr resp \<Rightarrow>
                   if rs_Status resp \<noteq> 200 then closed_conn
                   else \<lparr>sc_lines = scan_lines (rs_Body resp), sc_ends = ends, sc_events = make_chan 256,
                          sc_stopped = False\<rparr>, m1))"

text \<open>One line of the goroutine; when it returns the channel is closed.\<close>

definition sse_reader_stops :: "sse_conn \<Rightarrow> sse_conn outcome" where
  "sse_reader_stops c = omap (\<lambda>ch. c\<lparr>sc_events := ch, sc_stopped := True\<rparr>) (chan_close (sc_events c))"

definition sse_reader_turn :: "ctx \<Rightarrow> sse_conn \<Rightarrow> sse_conn outcome" where
  "sse_reader_turn x c =
     (if sc_stopped c then Block
      else case sc_lines c of
        [] \<Rightarrow> if sc_ends c \<or> ctx_done x then sse_reader_stops c else Block
      | line # ls \<Rightarrow>
          if take 6 line \<noteq> ''data: '' then Ret (c\<lparr>sc_lines := ls\<rparr>)
          else (case unmarshal_sse_event (drop 6 line) of
                  None \<Rightarrow> Ret (c\<lparr>sc_lines := ls\<rparr>)
                | Some ev \<Rightarrow>
                    obind (select (ctx_pick x)
                        (on_send ev (sc_events c) (\<lambda>ch. Inr (c\<lparr>sc_lines := ls, sc_events := ch\<rparr>)) @
                         on_done x (Inl (c\<lparr>sc_lines := ls\<rparr>))))
                      (\<lambda>r. case r of Inl c1 \<Rightarrow> sse_reader_stops c1 | Inr c1 \<Rightarrow> Ret c1)))"

section \<open>Collecting events\<close>

text \<open>A timer: running, its tick waiting in the channel, the time it fires.\<close>

record quiet_timer =
  qt_active :: bool
  qt_tick :: bool
  qt_at :: instant

definition new_timer :: "instant \<Rightarrow> duration \<Rightarrow> quiet_timer" where
  "new_timer now d = \<lparr>qt_active = True, qt_tick = False, qt_at = now + d\<rparr>"

definition timer_runs :: "instant \<Rightarrow> quiet_timer \<Rightarrow> quiet_timer" where
  "timer_runs now q = (if qt_active q \<and> qt_at q \<le> now then q\<lparr>qt_active := False, qt_tick := True\<rparr> else q)"

definition drainAndReset :: "instant \<Rightarrow> duration \<Rightarrow> quiet_timer \<Rightarrow> quiet_timer" where
  "drainAndReset now d q =
     (let q1 = (if qt_active q then q\<lparr>qt_active := False\<rparr> else q\<lparr>qt_tick := False\<rparr>)
      in q1\<lparr>qt_active := True, qt_at := now + d\<rparr>)"

record collected_events =
  ce_EventCounts :: "(string, int) gomap"
  ce_PerTask :: "(string, (string, int) gomap) gomap"
  ce_StatusSeq :: "string list"
  ce_SeenCompleted :: bool

definition counted :: "(string, int) gomap \<Rightarrow> string \<Rightarrow> int" where
  "counted m k = (case map_of m k of None \<Rightarrow> 0 | Some n \<Rightarrow> n)"

definition bump :: "string \<Rightarrow> (string, int) gomap \<Rightarrow> (string, int) gomap" where
  "bump k m = AList.update k (counted m k + 1) m"

definition task_counts :: "collected_events \<Rightarrow> string \<Rightarrow> (string, int) gomap" where
  "task_counts r i = (case map_of (ce_PerTask r) i of None \<Rightarrow> [] | Some m \<Rightarrow> m)"

text \<open>The result, the signatures seen (a set, latest first) and the errors reported.\<close>

record collector =
  co_result :: collected_events
  co_seen :: "string list"
  co_errors :: "string list"

definition event_sig :: "sse_event \<Rightarrow> string" where
  "event_sig ev = sv_TaskID ev @ '':'' @ sv_Type ev @ '':'' @ sv_Status ev @ '':'' @ int_text (sv_Progress ev) @ '':'' @
     sv_StageName ev"

definition processEvent :: "sse_event \<Rightarrow> collector \<Rightarrow> collector" where
  "processEvent ev co =
     (let sig = event_sig ev;
          errs = (if sig \<in> set (co_seen co) then co_errors co @ [''DUPLICATE event detected: '' @ sig] else co_errors co);
          r1 = (co_result co)\<lparr>ce_EventCounts := bump (sv_Type ev) (ce_EventCounts (co_result co))\<rparr>;
          r2 = r1\<lparr>ce_PerTask := AList.update (sv_TaskID ev) (bump (sv_Type ev) (task_counts r1 (sv_TaskID ev))) (ce_PerTask r1)\<rparr>;
          r3 = (if sv_Type ev = ''task_status''
                then r2\<lparr>ce_StatusSeq := ce_StatusSeq r2 @ [sv_Status ev],
                        ce_SeenCompleted := ce_SeenCompleted r2 \<or> sv_Status ev = ''completed''\<rparr>
                else r2)
      in \<lparr>co_result = r3, co_seen = sig # co_seen co, co_errors = errs\<rparr>)"

definition new_collector :: collector where
  "new_collector = \<lparr>co_result = \<lparr>ce_EventCounts = [], ce_PerTask = [], ce_StatusSeq = [], ce_SeenCompleted = False\<rparr>,
     co_seen = [], co_errors = []\<rparr>"

text \<open>One turn of the loop of \<^verbatim>\<open>CollectEventsUntilQuiet\<close>.\<close>

datatype collect_end = Collecting | Quiet collected_events | FatalEnd string

definition collect_turn :: "string list \<Rightarrow> duration \<Rightarrow> ctx \<Rightarrow> instant \<Rightarrow> sse_event chan \<times> quiet_timer \<times> collector \<Rightarrow>
    (collect_end \<times> sse_event chan \<times> quiet_timer \<times> collector) outcome" where
  "collect_turn ids d x now = (\<lambda>(ch, q0, co).
     let q = timer_runs now q0
     in select (ctx_pick x)
          (on_done x (FatalEnd ''timeout waiting for events'', ch, q, co) @
           (if qt_tick q then [(Quiet (co_result co), ch, q\<lparr>qt_tick := False\<rparr>, co)] else []) @
           (case chan_recv ch of
              Ret (None, ch1) \<Rightarrow> [(FatalEnd ''SSE stream closed unexpectedly'', ch1, q, co)]
            | Ret (Some ev, ch1) \<Rightarrow>
                [if sv_TaskID ev \<notin> set ids then (Collecting, ch1, q, co)
                 else (Collecting, ch1, drainAndReset now d q, processEvent ev co)]
            | _ \<Rightarrow> [])))"

datatype test_turn = ReaderTurn ctx | CollectorTurn ctx instant

fun collect_run :: "string list \<Rightarrow> duration \<Rightarrow> test_turn list \<Rightarrow> sse_conn \<times> quiet_timer \<times> collector \<Rightarrow>
    (collect_end \<times> sse_conn \<times> quiet_timer \<times> collector) outcome" where
  "collect_run ids d [] w = Ret (Collecting, w)"
| "collect_run ids d (ReaderTurn x # ts) (c, q, co) =
     (case sse_reader_turn x c of
        Ret c1 \<Rightarrow> collect_run ids d ts (c1, q, co)
      | Block \<Rightarrow> collect_run ids d ts (c, q, co)
      | Panic \<Rightarrow> Panic)"
| "collect_run ids d (CollectorTurn x now # ts) (c, q, co) =
     (case collect_turn ids d x now (sc_events c, q, co) of
        Ret (Collecting, ch, q1, co1) \<Rightarrow> collect_run ids d ts (c\<lparr>sc_events := ch\<rparr>, q1, co1)
      | Ret (r, ch, q1, co1) \<Rightarrow> Ret (r, c\<lparr>sc_events := ch\<rparr>, q1, co1)
      | Block \<Rightarrow> collect_run ids d ts (c, q, co)
      | Panic \<Rightarrow> Panic)"

definition CollectEventsUntilQuiet :: "string list \<Rightarrow> duration \<Rightarrow> instant \<Rightarrow> test_turn list \<Rightarrow> sse_conn \<Rightarrow>
    (collect_end \<times> sse_conn \<times> quiet_timer \<times> collector) outcome" where
  "CollectEventsUntilQuiet ids d start ts c = collect_run ids d ts (c, new_timer start d, new_collector)"

section \<open>The body of a submission\<close>

lemma submit_roundtrip:
  assumes "valid_utf8 (sr_Name r)" and "in_int64 (sr_StageCount r)"
  shows "unmarshal_submit (marshal_submit r) = Some r"
proof -
  let ?v = "JObj [(''name'', JStr (sr_Name r)), (''stage_count'', JNum (int_text (sr_StageCount r)))]"
  have "valid_utf8 ''name''" "valid_utf8 ''stage_count''" by code_simp+
  with assms(1) have "jwf ?v" by auto
  moreover have "10000 = Suc 9999" by simp
  then have "jdepth_le 10000 ?v" by auto
  ultimately have "parse_json (jtext ?v) = Some ?v" by (rule parse_json_jtext)
  moreover have "field_index submit_fields ''name'' = Some 0" "field_index submit_fields ''stage_count'' = Some 1"
    by code_simp+
  ultimately show ?thesis
    using assms(2) by (simp add: unmarshal_submit_def marshal_submit_def submit_member_def set_string_def
        set_int_def parse_int64_int_text)
qed

section \<open>What the reader makes of a stream\<close>

definition sse_of :: "task_event \<Rightarrow> sse_event" where
  "sse_of ev = \<lparr>sv_Type = ev_Type ev, sv_TaskID = ev_TaskID ev, sv_StageName = ev_StageName ev,
     sv_Progress = ev_Progress ev, sv_Status = ev_Status ev\<rparr>"

lemma sse_of_simps [simp]:
  "sv_Type (sse_of ev) = ev_Type ev" "sv_TaskID (sse_of ev) = ev_TaskID ev" "sv_StageName (sse_of ev) = ev_StageName ev"
  "sv_Progress (sse_of ev) = ev_Progress ev" "sv_Status (sse_of ev) = ev_Status ev"
  by (simp_all add: sse_of_def)

lemma sse_field_index:
  "field_index [''type'', ''taskID'', ''stageName'', ''progress'', ''status''] ''type'' = Some 0"
  "field_index [''type'', ''taskID'', ''stageName'', ''progress'', ''status''] ''taskID'' = Some 1"
  "field_index [''type'', ''taskID'', ''stageName'', ''progress'', ''status''] ''userID'' = None"
  "field_index [''type'', ''taskID'', ''stageName'', ''progress'', ''status''] ''stageName'' = Some 2"
  "field_index [''type'', ''taskID'', ''stageName'', ''progress'', ''status''] ''progress'' = Some 3"
  "field_index [''type'', ''taskID'', ''stageName'', ''progress'', ''status''] ''status'' = Some 4"
  by code_simp+

lemma unmarshal_sse_marshal:
  assumes "event_encodable ev"
  shows "unmarshal_sse_event (marshal_event ev) = Some (sse_of ev)"
proof -
  have "parse_json (marshal_event ev) = Some (event_json ev)"
    using assms by (simp add: marshal_event_def parse_json_jtext event_json_wf)
  with assms show ?thesis
    by (simp add: unmarshal_sse_event_def event_json_def sse_event_member_def sse_field_index set_string_def set_int_def
        opt_str_def parse_int64_int_text event_encodable_def zero_sse_event_def sse_of_def)
qed

definition line_event :: "string \<Rightarrow> sse_event option" where
  "line_event line = (if take 6 line = ''data: '' then unmarshal_sse_event (drop 6 line) else None)"

text \<open>The events on their way: in the channel, and in the lines to come.\<close>

definition conn_pending :: "sse_conn \<Rightarrow> sse_event list" where
  "conn_pending c = ch_buf (sc_events c) @ List.map_filter line_event (sc_lines c)"

definition conn_live :: "sse_conn \<Rightarrow> bool" where
  "conn_live c \<longleftrightarrow> \<not> sc_stopped c \<and> \<not> sc_ends c \<and> \<not> ch_closed (sc_events c)"

lemma chunks_pending:
  assumes "list_all chunk_ok cs"
  shows "List.map_filter line_event (scan_lines (concat (map chunk_text cs))) = map sse_of (chunk_events cs)"
  using assms
proof (induction cs)
  case (Cons c cs)
  then show ?case
    using scan_lines_chunk [of c "concat (map chunk_text cs)"]
    by (cases c) (simp_all add: line_event_def unmarshal_sse_marshal map_filter_simps del: chunk_text.simps)
qed (simp add: map_filter_simps)

lemma reader_turn_live:
  assumes "conn_live c" and "\<not> ctx_done x"
  shows "sse_reader_turn x c = Block \<or>
    (\<exists>c1. sse_reader_turn x c = Ret c1 \<and> conn_live c1 \<and> conn_pending c1 = conn_pending c)"
proof (cases "sc_lines c")
  case Nil
  with assms show ?thesis by (simp add: sse_reader_turn_def conn_live_def)
next
  case (Cons line ls)
  with assms show ?thesis
    by (cases "line_event line"; cases "chan_room (sc_events c)")
      (auto simp: sse_reader_turn_def conn_live_def conn_pending_def line_event_def map_filter_simps
        split: if_splits option.splits)
qed

section \<open>What the collector takes\<close>

abbreviation of_interest :: "string list \<Rightarrow> sse_event \<Rightarrow> bool" where
  "of_interest ids ev \<equiv> sv_TaskID ev \<in> set ids"

lemma collect_turn_cases:
  assumes "\<not> ctx_done x" and "\<not> ch_closed ch"
  shows "collect_turn ids d x now (ch, q, co) = Block \<or>
    (\<exists>q1. collect_turn ids d x now (ch, q, co) = Ret (Quiet (co_result co), ch, q1, co)) \<or>
    (\<exists>ev evs q1. ch_buf ch = ev # evs \<and> collect_turn ids d x now (ch, q, co) =
       Ret (Collecting, ch\<lparr>ch_buf := evs\<rparr>, q1, if of_interest ids ev then processEvent ev co else co))"
proof (cases "collect_turn ids d x now (ch, q, co)")
  case (Ret r)
  from select_in [OF this [unfolded collect_turn_def prod.case Let_def]] assms Ret show ?thesis
    by (auto simp: chan_recv_def split: list.splits if_splits)
qed (auto simp: collect_turn_def Let_def)

fun turn_live :: "test_turn \<Rightarrow> bool" where
  "turn_live (ReaderTurn x) \<longleftrightarrow> \<not> ctx_done x"
| "turn_live (CollectorTurn x now) \<longleftrightarrow> \<not> ctx_done x"

lemma collect_run_keeps:
  assumes "list_all turn_live ts" and "conn_live c"
  shows "\<exists>r c' q' co' taken. collect_run ids d ts (c, q, co) = Ret (r, c', q', co') \<and> conn_live c' \<and>
    conn_pending c = taken @ conn_pending c' \<and> co' = fold processEvent (filter (of_interest ids) taken) co \<and>
    r \<in> {Collecting, Quiet (co_result co')}"
  using assms
proof (induction ts arbitrary: c q co)
  case Nil
  then show ?case by (intro exI [of _ Collecting] exI [of _ c] exI [of _ q] exI [of _ co] exI [of _ "[]"]) simp
next
  case (Cons turn ts)
  show ?case
  proof (cases turn)
    case (ReaderTurn x)
    with Cons.prems reader_turn_live [of c x] show ?thesis using Cons.IH by fastforce
  next
    case (CollectorTurn x now)
    from Cons.prems CollectorTurn have live: "\<not> ctx_done x" "\<not> ch_closed (sc_events c)" "list_all turn_live ts"
      by (simp_all add: conn_live_def)
    from collect_turn_cases [OF live(1,2), of ids d now q co] show ?thesis
    proof (elim disjE exE conjE)
      assume "collect_turn ids d x now (sc_events c, q, co) = Block"
      with Cons.IH [OF live(3) Cons.prems(2), of q co] CollectorTurn show ?thesis by simp
    next
      fix q1
      assume "collect_turn ids d x now (sc_events c, q, co) = Ret (Quiet (co_result co), sc_events c, q1, co)"
      with CollectorTurn Cons.prems(2) show ?thesis by (intro exI [of _ "Quiet (co_result co)"] exI [of _ c] exI [of _ q1]
            exI [of _ co] exI [of _ "[]"]) simp
    next
      fix ev evs q1
      let ?c = "c\<lparr>sc_events := (sc_events c)\<lparr>ch_buf := evs\<rparr>\<rparr>"
      let ?co = "if of_interest ids ev then processEvent ev co else co"
      assume ev: "ch_buf (sc_events c) = ev # evs" and turn: "collect_turn ids d x now (sc_events c, q, co) =
        Ret (Collecting, (sc_events c)\<lparr>ch_buf := evs\<rparr>, q1, ?co)"
      have c: "conn_live ?c" "conn_pending c = ev # conn_pending ?c"
        using Cons.prems(2) ev by (simp_all add: conn_live_def conn_pending_def)
      from Cons.IH [OF live(3) c(1), of q1 ?co] obtain r c' q' co' taken where
        "collect_run ids d ts (?c, q1, ?co) = Ret (r, c', q', co')" "conn_live c'"
        "conn_pending ?c = taken @ conn_pending c'" "co' = fold processEvent (filter (of_interest ids) taken) ?co"
        "r \<in> {Collecting, Quiet (co_result co')}" by blast
      with CollectorTurn turn c(2) show ?thesis
        by (intro exI [of _ r] exI [of _ c'] exI [of _ q'] exI [of _ co'] exI [of _ "ev # taken"]) auto
    qed
  qed
qed

text \<open>The timer: set to fire a period after the last event taken.\<close>

definition timer_since :: "duration \<Rightarrow> instant \<Rightarrow> instant \<Rightarrow> quiet_timer \<Rightarrow> bool" where
  "timer_since d since now q \<longleftrightarrow> qt_at q = since + d \<and> (qt_tick q \<longrightarrow> since + d \<le> now \<and> \<not> qt_active q)"

lemma timer_since_start: "timer_since d start start (new_timer start d)"
  by (simp add: timer_since_def new_timer_def)

lemma quiet_end:
  assumes "timer_since d since now0 q" and "now0 \<le> now"
    and "collect_turn ids d x now (ch, q, co) = Ret (r, ch', q', co')"
  shows "case r of
      Quiet res \<Rightarrow> since + d \<le> now
    | Collecting \<Rightarrow> timer_since d (if co' = co then since else now) now q'
    | FatalEnd msg \<Rightarrow> True"
proof -
  have run: "timer_since d since now (timer_runs now q)"
    using assms(1,2) by (auto simp: timer_since_def timer_runs_def)
  have reset: "timer_since d now now (drainAndReset now d p)" if "timer_since d since now p" for p
    using that by (auto simp: timer_since_def drainAndReset_def Let_def)
  have new: "processEvent ev co \<noteq> co" for ev
    by (cases co) (auto simp: processEvent_def Let_def)
  let ?q = "timer_runs now q"
  from select_in [OF assms(3) [unfolded collect_turn_def prod.case Let_def]]
  consider (stop) msg where "r = FatalEnd msg" | (quiet) res where "r = Quiet res" "qt_tick ?q"
    | (skip) "r = Collecting" "q' = ?q" "co' = co"
    | (take) ev where "r = Collecting" "q' = drainAndReset now d ?q" "co' = processEvent ev co"
    by (cases "chan_recv ch") (auto simp: on_done_def split: option.splits if_splits)
  then show ?thesis
    using run reset [OF run] new by cases (auto simp: timer_since_def)
qed

section \<open>What is collected\<close>

lemma counted_bump [simp]: "counted (bump k m) k' = (if k' = k then counted m k + 1 else counted m k')"
  by (simp add: counted_def bump_def update_conv')

lemma processEvent_simps [simp]:
  "counted (ce_EventCounts (co_result (processEvent ev co))) ty =
     counted (ce_EventCounts (co_result co)) ty + (if sv_Type ev = ty then 1 else 0)"
  "counted (task_counts (co_result (processEvent ev co)) i) ty =
     counted (task_counts (co_result co) i) ty + (if sv_TaskID ev = i \<and> sv_Type ev = ty then 1 else 0)"
  "ce_StatusSeq (co_result (processEvent ev co)) =
     ce_StatusSeq (co_result co) @ (if sv_Type ev = ''task_status'' then [sv_Status ev] else [])"
  "ce_SeenCompleted (co_result (processEvent ev co)) \<longleftrightarrow>
     ce_SeenCompleted (co_result co) \<or> sv_Type ev = ''task_status'' \<and> sv_Status ev = ''completed''"
  "co_seen (processEvent ev co) = event_sig ev # co_seen co"
  "co_errors (processEvent ev co) = co_errors co @
     (if event_sig ev \<in> set (co_seen co) then [''DUPLICATE event detected: '' @ event_sig ev] else [])"
  by (auto simp: processEvent_def Let_def task_counts_def update_conv' counted_def [of "[]"])

lemma new_collector_simps [simp]:
  "counted (ce_EventCounts (co_result new_collector)) ty = 0"
  "counted (task_counts (co_result new_collector) i) ty = 0"
  "ce_StatusSeq (co_result new_collector) = []" "\<not> ce_SeenCompleted (co_result new_collector)"
  "co_seen new_collector = []" "co_errors new_collector = []"
  by (simp_all add: new_collector_def counted_def task_counts_def)

lemma collected_counts:
  "counted (ce_EventCounts (co_result (fold processEvent evs co))) ty =
     counted (ce_EventCounts (co_result co)) ty + int (length (filter (\<lambda>ev. sv_Type ev = ty) evs))"
  "counted (task_counts (co_result (fold processEvent evs co)) i) ty = counted (task_counts (co_result co) i) ty +
     int (length (filter (\<lambda>ev. sv_TaskID ev = i \<and> sv_Type ev = ty) evs))"
  by (induction evs arbitrary: co) simp_all

lemma collected_statuses:
  "ce_StatusSeq (co_result (fold processEvent evs co)) =
     ce_StatusSeq (co_result co) @ map sv_Status (filter (\<lambda>ev. sv_Type ev = ''task_status'') evs)"
  "ce_SeenCompleted (co_result (fold processEvent evs co)) \<longleftrightarrow> ce_SeenCompleted (co_result co) \<or>
     ''completed'' \<in> set (map sv_Status (filter (\<lambda>ev. sv_Type ev = ''task_status'') evs))"
  by (induction evs arbitrary: co) auto

lemma no_duplicates:
  "distinct (map event_sig evs) \<Longrightarrow> set (map event_sig evs) \<inter> set (co_seen co) = {} \<Longrightarrow>
     co_errors (fold processEvent evs co) = co_errors co"
  by (induction evs arbitrary: co) auto

section \<open>Waiting\<close>

text \<open>The loops on the clock end once a reading has reached the deadline.\<close>

lemma wait_ready_loop_ends:
  "\<exists>now \<in> set nows. deadline \<le> now \<Longrightarrow> \<exists>r m'. wait_ready_loop W baseURL deadline nows m = (Some r, m')"
  by (induction nows arbitrary: m) (auto simp: Let_def split: prod.split)

lemma completion_loop_ends:
  "\<exists>now \<in> set nows. deadline \<le> now \<Longrightarrow> \<exists>m'. completion_loop W url deadline nows m = (True, m')"
  by (induction nows arbitrary: m) (auto simp: Let_def split: prod.split sum.split option.split)

lemma worker_loop_ends:
  assumes "\<exists>now \<in> fst ` set turns. deadline \<le> now"
    and "\<forall>(now, bad, start, nows) \<in> set turns. \<exists>at \<in> set nows. start + 10 * Second \<le> at"
  shows "\<exists>r m'. worker_loop W baseURL deadline turns m = (Some r, m')"
  using assms
proof (induction turns arbitrary: m)
  case (Cons turn turns)
  obtain now bad start nows where turn: "turn = (now, bad, start, nows)" by (cases turn) auto
  have probe: "\<exists>m'. waitForTaskCompletion W baseURL i (10 * Second) start nows m1 = (True, m')" for i m1
    using Cons.prems(2) completion_loop_ends [of nows "start + 10 * Second"] by (auto simp: turn waitForTaskCompletion_def)
  show ?case
  proof (cases "now < deadline")
    case True
    with Cons.prems have "\<exists>r m'. worker_loop W baseURL deadline turns m1 = (Some r, m')" for m1
      by (intro Cons.IH) (auto simp: turn)
    moreover obtain r m1 where "W (post_call baseURL ''probe-worker'' ''probe'' 1) m = (r, m1)" by fastforce
    ultimately show ?thesis
      using True probe [of "submit_response_kept (rs_Body (projr r))" m1] by (cases r) (auto simp: turn)
  qed (simp add: turn)
qed simp

end
