(* ===== verification/Suite.thy ===== *)
theory Suite
  imports TestHelpers EndToEnd
begin

text \<open>
  The integration suite every pattern is run against, \<^verbatim>\<open>shared/testutil/suite.go\<close>, and what its
  checks say of a run.

  A test yields the list of its failed checks (\<^verbatim>\<open>assert\<close> goes on, \<^verbatim>\<open>require\<close> and \<^verbatim>\<open>t.Fatal\<close> end the
  test), or \<^term>\<open>None\<close> while it still collects when the turns given are used up; it passes with
  an empty list. With the verdict come the connection as the test leaves it and the world.
  \<open>meanwhile\<close> is what the system does while a test collects.

  \<^item> \<open>script_collected\<close>: the events of a run of 1 to 8 stages, collected, are free of duplicates
    and have the counts and the status sequence the suite checks.
  \<^item> \<open>collected_tasks\<close>: the same per task, for the events of several tasks in any order.
  \<^item> \<open>single_task_verdict\<close>, \<open>concurrent_tasks_verdict\<close>, \<open>status_transitions_verdict\<close>: against a
    stream with the events of its tasks a test does not fail, whatever the turns.
  \<^item> \<open>sse_loop_chunks\<close>: what the SSE handler writes of a hub channel.
\<close>

section \<open>The tests\<close>

definition suiteUserID :: string where
  "suiteUserID = ''suite-test-user''"

definition check :: "bool \<Rightarrow> string \<Rightarrow> string list" where
  "check b msg = (if b then [] else [msg])"

definition count_checks :: "int \<Rightarrow> collected_events \<Rightarrow> string list" where
  "count_checks stageCount r =
     check (stageCount * 2 = counted (ce_EventCounts r) ''progress'') ''progress event count'' @
     check (2 = counted (ce_EventCounts r) ''task_status'') ''task_status event count''"

text \<open>How the collection ends a test, or lets it go on with the collected events.\<close>

definition collected_verdict :: "collect_end \<Rightarrow> collector \<Rightarrow> (collected_events \<Rightarrow> string list) \<Rightarrow> string list option" where
  "collected_verdict e co checks =
     (case e of
        Collecting \<Rightarrow> None
      | Quiet res \<Rightarrow> Some (co_errors co @ checks res)
      | FatalEnd msg \<Rightarrow> Some (co_errors co @ [msg]))"

type_synonym 'm test_result = "(string list option \<times> sse_conn \<times> 'm) outcome"

definition testSingleTask :: "'m web \<Rightarrow> go_error option \<Rightarrow> bool \<Rightarrow> string \<Rightarrow> instant \<Rightarrow> test_turn list \<Rightarrow> 'm \<Rightarrow> 'm test_result" where
  "testSingleTask W bad ends baseURL start ts m =
     (let (c, m1) = SSEClient W bad ends baseURL suiteUserID m;
          (r, m2) = PostTask W bad baseURL suiteUserID ''integration-single'' 3 m1
      in case r of
           Inl msg \<Rightarrow> Ret (Some [msg], c, m2)
         | Inr i \<Rightarrow> omap (\<lambda>(e, c1, q, co).
             (collected_verdict e co (\<lambda>res.
                check (ce_SeenCompleted res) ''task should reach completed status'' @ count_checks 3 res), c1, m2))
             (CollectEventsUntilQuiet [i] Second start ts c))"

text \<open>The submissions of \<^verbatim>\<open>testConcurrentTasks\<close>, one after the other.\<close>

fun post_tasks :: "'m web \<Rightarrow> go_error option \<Rightarrow> string \<Rightarrow> nat \<Rightarrow> 'm \<Rightarrow> (string + string list) \<times> 'm" where
  "post_tasks W bad baseURL 0 m = (Inr [], m)"
| "post_tasks W bad baseURL (Suc n) m =
     (let (r, m1) = PostTask W bad baseURL suiteUserID ''integration-concurrent'' 3 m
      in case r of
           Inl msg \<Rightarrow> (Inl msg, m1)
         | Inr i \<Rightarrow> let (rs, m2) = post_tasks W bad baseURL n m1 in (map_sum id ((#) i) rs, m2))"

definition task_checks :: "int \<Rightarrow> collected_events \<Rightarrow> string \<Rightarrow> string list" where
  "task_checks stageCount r i =
     check (stageCount * 2 = counted (task_counts r i) ''progress'') (''task '' @ i @ '': progress event count'') @
     check (2 = counted (task_counts r i) ''task_status'') (''task '' @ i @ '': task_status event count'')"

definition testConcurrentTasks :: "'m web \<Rightarrow> go_error option \<Rightarrow> bool \<Rightarrow> string \<Rightarrow> instant \<Rightarrow> test_turn list \<Rightarrow> 'm \<Rightarrow>
    'm test_result" where
  "testConcurrentTasks W bad ends baseURL start ts m =
     (let (c, m1) = SSEClient W bad ends baseURL suiteUserID m;
          (r, m2) = post_tasks W bad baseURL 3 m1
      in case r of
           Inl msg \<Rightarrow> Ret (Some [msg], c, m2)
         | Inr ids \<Rightarrow> omap (\<lambda>(e, c1, q, co).
             (collected_verdict e co (\<lambda>res. concat (map (task_checks 3 res) ids)), c1, m2))
             (CollectEventsUntilQuiet ids Second start ts c))"

text \<open>The reads at the end of \<^verbatim>\<open>testStatusTransitions\<close>.\<close>

definition final_checks :: "'m web \<Rightarrow> string \<Rightarrow> string \<Rightarrow> 'm \<Rightarrow> string list \<times> 'm" where
  "final_checks W baseURL i m =
     (let (g, m1) = test_GetTask W baseURL i m
      in case g of
           Inl msg \<Rightarrow> ([msg], m1)
         | Inr t \<Rightarrow>
             let fails = check (''completed'' = tr_Status t) ''GET /tasks/:id final status'';
                 (l, m2) = test_ListTasks W baseURL m1
             in (fails @ (case l of
                   Inl msg \<Rightarrow> [msg]
                 | Inr tasks \<Rightarrow>
                     (case List.find (\<lambda>t. tr_ID t = i) tasks of
                        None \<Rightarrow> [''task '' @ i @ '' should be in list'']
                      | Some f \<Rightarrow> check (''completed'' = tr_Status f) ''GET /tasks final status'')), m2))"

definition testStatusTransitions :: "'m web \<Rightarrow> go_error option \<Rightarrow> bool \<Rightarrow> string \<Rightarrow> instant \<Rightarrow> test_turn list \<Rightarrow> ('m \<Rightarrow> 'm) \<Rightarrow>
    'm \<Rightarrow> 'm test_result" where
  "testStatusTransitions W bad ends baseURL start ts meanwhile m =
     (let (c, m1) = SSEClient W bad ends baseURL suiteUserID m;
          (r, m2) = PostTask W bad baseURL suiteUserID ''integration-transitions'' 2 m1
      in case r of
           Inl msg \<Rightarrow> Ret (Some [msg], c, m2)
         | Inr i \<Rightarrow>
             let (g, m3) = test_GetTask W baseURL i m2
             in case g of
                  Inl msg \<Rightarrow> Ret (Some [msg], c, m3)
                | Inr t \<Rightarrow>
                    if tr_Status t \<notin> {''pending'', ''running''}
                    then Ret (Some [''expected pending or running immediately after submit''], c, m3)
                    else omap (\<lambda>(e, c1, q, co).
                      let v = collected_verdict e co (\<lambda>res.
                                check ([''running'', ''completed''] = ce_StatusSeq res) ''status transition sequence'' @
                                count_checks 2 res)
                      in case (e, v) of
                           (Quiet res, Some fails) \<Rightarrow>
                             let (more_fails, m4) = final_checks W baseURL i (meanwhile m3)
                             in (Some (fails @ more_fails), c1, m4)
                         | _ \<Rightarrow> (v, c1, m3))
                      (CollectEventsUntilQuiet [i] Second start ts c))"

text \<open>The suite: the clock at the start of a collection and the turns, per test.\<close>

definition RunSuite :: "'m web \<Rightarrow> go_error option \<Rightarrow> string \<Rightarrow> bool \<times> instant \<times> test_turn list \<Rightarrow>
    bool \<times> instant \<times> test_turn list \<Rightarrow> bool \<times> instant \<times> test_turn list \<Rightarrow> ('m \<Rightarrow> 'm) \<Rightarrow> 'm \<Rightarrow>
    (string list option list \<times> 'm) outcome" where
  "RunSuite W bad baseURL = (\<lambda>(ends1, start1, ts1) (ends2, start2, ts2) (ends3, start3, ts3) meanwhile m.
     obind (testSingleTask W bad ends1 baseURL start1 ts1 m) (\<lambda>(v1, _, m1).
     if v1 = None then Ret ([v1], m1)
     else obind (testConcurrentTasks W bad ends2 baseURL start2 ts2 m1) (\<lambda>(v2, _, m2).
     if v2 = None then Ret ([v1, v2], m2)
     else omap (\<lambda>(v3, _, m3). ([v1, v2, v3], m3))
            (testStatusTransitions W bad ends3 baseURL start3 ts3 meanwhile m2))))"

section \<open>The events of a run, collected\<close>

abbreviation sse_script :: "task \<Rightarrow> sse_event list" where
  "sse_script t \<equiv> map sse_of (run_script (\<lambda>_. False) t)"

definition script_ok :: "int \<Rightarrow> sse_event list \<Rightarrow> bool" where
  "script_ok n evs \<longleftrightarrow> distinct (map event_sig evs) \<and>
     int (length (filter (\<lambda>ev. sv_Type ev = ''progress'') evs)) = n * 2 \<and>
     map sv_Status (filter (\<lambda>ev. sv_Type ev = ''task_status'') evs) = [''running'', ''completed'']"

text \<open>The parts of a signature, all but the last without a colon.\<close>

lemma colon_split:
  assumes "CHR '':'' \<notin> set x" and "CHR '':'' \<notin> set y" and "x @ CHR '':'' # u = y @ CHR '':'' # v"
  shows "x = y \<and> u = v"
proof -
  have "takeWhile (\<lambda>c. c \<noteq> CHR '':'') (z @ CHR '':'' # w) = z" if "CHR '':'' \<notin> set z" for z w :: string
    using that by (induction z) auto
  with assms have "x = y" by metis
  with assms(3) show ?thesis by simp
qed

lemma int_text_no_colon: "CHR '':'' \<notin> set (int_text n)"
  using itoa_digits [of "nat n"] itoa_digits [of "nat (- n)"]
  by (auto simp: int_text_def list_all_iff is_digit_def between_def)

lemma int_text_inject:
  assumes "in_int64 a" and "in_int64 b" and "int_text a = int_text b"
  shows "a = b"
  by (metis assms option.inject parse_int64_int_text)

definition plain_event :: "sse_event \<Rightarrow> bool" where
  "plain_event ev \<longleftrightarrow> CHR '':'' \<notin> set (sv_Type ev) \<and> CHR '':'' \<notin> set (sv_Status ev) \<and> in_int64 (sv_Progress ev)"

lemma event_sig_inject:
  assumes "plain_event x" and "plain_event y" and "sv_TaskID x = sv_TaskID y" and "event_sig x = event_sig y"
  shows "x = y"
proof -
  from assms(3,4) have eq: "sv_Type x @ CHR '':'' # sv_Status x @ CHR '':'' # int_text (sv_Progress x) @ CHR '':'' # sv_StageName x =
      sv_Type y @ CHR '':'' # sv_Status y @ CHR '':'' # int_text (sv_Progress y) @ CHR '':'' # sv_StageName y"
    by (simp add: event_sig_def)
  from colon_split [OF _ _ eq] assms(1,2) have "sv_Type x = sv_Type y"
    and eq2: "sv_Status x @ CHR '':'' # int_text (sv_Progress x) @ CHR '':'' # sv_StageName x =
      sv_Status y @ CHR '':'' # int_text (sv_Progress y) @ CHR '':'' # sv_StageName y" by (auto simp: plain_event_def)
  moreover from colon_split [OF _ _ eq2] assms(1,2) have "sv_Status x = sv_Status y"
    and eq3: "int_text (sv_Progress x) @ CHR '':'' # sv_StageName x = int_text (sv_Progress y) @ CHR '':'' # sv_StageName y"
    by (auto simp: plain_event_def)
  moreover from colon_split [OF int_text_no_colon int_text_no_colon eq3]
  have "int_text (sv_Progress x) = int_text (sv_Progress y)" "sv_StageName x = sv_StageName y" by simp_all
  moreover from this(1) assms(1,2) have "sv_Progress x = sv_Progress y"
    using int_text_inject by (auto simp: plain_event_def)
  ultimately show ?thesis using assms(3) by (cases x; cases y) simp
qed

lemma distinct_sigs:
  assumes "distinct evs" and "\<forall>ev \<in> set evs. sv_TaskID ev = i \<and> plain_event ev"
  shows "distinct (map event_sig evs)"
  using assms event_sig_inject by (auto simp: distinct_map inj_on_def)

lemma sse_script_ids: "ev \<in> set (sse_script t) \<Longrightarrow> sv_TaskID ev = task_ID t"
  by (auto dest: run_script_ids)

text \<open>What a run without a cancellation reports: two events per stage, and a first and a last status.\<close>

lemma stage_script_in:
  "ev \<in> set (stage_script (\<lambda>_. False) t tot i ss) \<Longrightarrow>
     ev = status_event t TaskCompleted \<or> (\<exists>s \<in> set ss. \<exists>p. ev = progress_event t s p)"
  by (induction ss arbitrary: i) auto

lemma stage_script_distinct:
  assumes "distinct (map stage_Name ss)" and "0 < tot" and "tot \<le> 100"
  shows "distinct (map sse_of (stage_script (\<lambda>_. False) t tot i ss))"
  using assms(1)
proof (induction ss arbitrary: i)
  case (Cons s ss)
  have "int i * 100 div tot + 1 = (int i * 100 + tot) div tot" using assms(2) by (subst div_add_self2) simp_all
  also have "\<dots> \<le> (int i + 1) * 100 div tot" using assms(2,3) by (intro zdiv_mono1) simp_all
  finally have step: "int i * 100 div tot \<noteq> (int i + 1) * 100 div tot" by simp
  have "sse_of (progress_event t s p) \<notin> sse_of ` set (stage_script (\<lambda>_. False) t tot (Suc i) ss)" for p
  proof
    assume "sse_of (progress_event t s p) \<in> sse_of ` set (stage_script (\<lambda>_. False) t tot (Suc i) ss)"
    then obtain ev where "ev \<in> set (stage_script (\<lambda>_. False) t tot (Suc i) ss)"
      "ev_Type ev = ''progress''" "ev_StageName ev = stage_Name s"
      by (auto simp: sse_of_def)
    with stage_script_in [OF this(1)] Cons.prems show False by (auto simp: image_iff)
  qed
  with Cons step show ?case by (simp add: sse_of_def)
qed simp

lemma stage_script_statuses:
  "filter (\<lambda>ev. ev_Type ev = ''task_status'') (stage_script (\<lambda>_. False) t tot i ss) = [status_event t TaskCompleted]"
  by (induction ss arbitrary: i) simp_all

lemma stage_script_progress:
  "length (filter (\<lambda>ev. ev_Type ev = ''progress'') (stage_script (\<lambda>_. False) t tot i ss)) = 2 * length ss"
  by (induction ss arbitrary: i) simp_all

lemma stage_script_types:
  "ev \<in> set (run_script c t) \<Longrightarrow> CHR '':'' \<notin> set (ev_Type ev) \<and> CHR '':'' \<notin> set (ev_Status ev)"
proof -
  have "CHR '':'' \<notin> set (ev_Type ev) \<and> CHR '':'' \<notin> set (ev_Status ev)" if "ev \<in> set (stage_script c t tot i ss)" for tot i ss
    using that by (induction ss arbitrary: i) (auto simp: progress_event_def zero_event_def split: if_splits)
  then show "ev \<in> set (run_script c t) \<Longrightarrow> CHR '':'' \<notin> set (ev_Type ev) \<and> CHR '':'' \<notin> set (ev_Status ev)"
    by (auto simp: run_script_def)
qed

lemma script_progress:
  assumes "ev \<in> set (run_script (\<lambda>_. False) t)"
  shows "in_int64 (ev_Progress ev)"
proof (cases "ev_Type ev = ''progress''")
  case True
  with assms have "ev_Progress ev \<in> set (percentages (run_script (\<lambda>_. False) t))" by (simp add: percentages_def)
  with run_script_percentages [of "\<lambda>_. False" t] show ?thesis by (auto simp: in_int64_def)
next
  case False
  with assms stage_script_in [of ev t] have "ev = status_event t TaskRunning \<or> ev = status_event t TaskCompleted"
    by (fastforce simp: run_script_def)
  then show ?thesis by (auto simp: status_event_def zero_event_def in_int64_def)
qed

lemma new_task_names: "distinct (map stage_Name (task_Stages (new_task u now nm n)))"
proof -
  have "map stage_Name (task_Stages (new_task u now nm n)) = take (nat (max 1 (min 8 n))) stageNames"
    unfolding new_task_stages by (rule nth_equalityI) auto
  then show ?thesis using distinct_take [OF distinct_stageNames] by simp
qed

lemma script_collected:
  assumes "task_Stages t = task_Stages (new_task u now nm n)" and "1 \<le> n" and "n \<le> 8"
  shows "script_ok n (sse_script t)"
proof -
  let ?script = "stage_script (\<lambda>_. False) t (int (length (task_Stages t))) 0 (task_Stages t)"
  have len: "length (task_Stages t) = nat n" using assms by (simp add: length_new_task_stages)
  have "distinct (map sse_of ?script)"
    using assms len by (intro stage_script_distinct) (simp_all add: new_task_names)
  moreover have "sse_of (status_event t TaskRunning) \<notin> sse_of ` set ?script"
    using stage_script_in [of _ t "int (length (task_Stages t))" 0 "task_Stages t"]
    by (fastforce simp: sse_of_def status_event_def)
  ultimately have "distinct (sse_script t)" by (simp add: run_script_def)
  moreover have "\<forall>ev \<in> set (sse_script t). sv_TaskID ev = task_ID t \<and> plain_event ev"
    using script_progress [of _ t] run_script_ids [of _ "\<lambda>_. False" t] stage_script_types [of _ "\<lambda>_. False" t]
    by (auto simp: plain_event_def)
  ultimately have "distinct (map event_sig (sse_script t))" by (rule distinct_sigs)
  moreover have "length (filter (\<lambda>ev. sv_Type ev = ''progress'') (sse_script t)) = 2 * nat n"
    by (simp add: filter_map comp_def run_script_def stage_script_progress len)
  moreover have "map sv_Status (filter (\<lambda>ev. sv_Type ev = ''task_status'') (sse_script t)) = [''running'', ''completed'']"
    by (simp add: filter_map comp_def run_script_def stage_script_statuses)
  ultimately show ?thesis using assms(2) by (simp add: script_ok_def)
qed

lemma script_ok_statuses: "script_ok n evs \<Longrightarrow> length (filter (\<lambda>ev. sv_Type ev = ''task_status'') evs) = 2"
  unfolding script_ok_def by (metis One_nat_def Suc_1 length_Cons length_map list.size(3))

text \<open>One task: what the collector holds after its events.\<close>

lemma collected_script:
  assumes "script_ok n evs" and "co = fold processEvent evs new_collector"
  shows "co_errors co = [] \<and> ce_SeenCompleted (co_result co) \<and> ce_StatusSeq (co_result co) = [''running'', ''completed''] \<and>
    count_checks n (co_result co) = []"
proof -
  have "length (filter (\<lambda>ev. sv_Type ev = ''task_status'') evs) = 2"
    using assms(1) by (rule script_ok_statuses)
  with assms show ?thesis
    by (simp add: script_ok_def no_duplicates collected_counts collected_statuses count_checks_def check_def)
qed

text \<open>Several tasks: a signature begins with the ID, and an ID has no colon.\<close>

lemma distinct_by_class:
  assumes "\<And>x y. x \<in> set xs \<Longrightarrow> y \<in> set xs \<Longrightarrow> f x = f y \<Longrightarrow> k x = k y"
    and "\<And>x. x \<in> set xs \<Longrightarrow> distinct (map f (filter (\<lambda>y. k y = k x) xs))"
  shows "distinct (map f xs)"
  using assms
proof (induction xs)
  case (Cons a xs)
  have "distinct (map f xs)"
  proof (rule Cons.IH)
    show "k x = k y" if "x \<in> set xs" "y \<in> set xs" "f x = f y" for x y
      using that by (intro Cons.prems(1)) simp_all
    show "distinct (map f (filter (\<lambda>y. k y = k x) xs))" if "x \<in> set xs" for x
      using Cons.prems(2) [of x] that by (cases "k a = k x") simp_all
  qed
  moreover have "f a \<notin> f ` set xs"
  proof
    assume "f a \<in> f ` set xs"
    then obtain b where b: "b \<in> set xs" "f a = f b" by blast
    have "k a = k b" using b by (intro Cons.prems(1)) simp_all
    with b have "f a \<in> set (map f (filter (\<lambda>y. k y = k a) xs))" by simp
    moreover have "distinct (f a # map f (filter (\<lambda>y. k y = k a) xs))" using Cons.prems(2) [of a] by simp
    ultimately show False by simp
  qed
  ultimately show ?case by simp
qed simp

lemma collected_tasks:
  assumes "\<forall>i \<in> set ids. CHR '':'' \<notin> set i \<and> script_ok n (filter (\<lambda>ev. sv_TaskID ev = i) evs)"
    and co: "co = fold processEvent (filter (of_interest ids) evs) new_collector"
  shows "co_errors co = [] \<and> concat (map (task_checks n (co_result co)) ids) = []"
proof -
  let ?evs = "filter (of_interest ids) evs"
  have of_task: "filter (\<lambda>ev. sv_TaskID ev = i) ?evs = filter (\<lambda>ev. sv_TaskID ev = i) evs" if "i \<in> set ids" for i
    using that by (auto intro: filter_cong)
  have "distinct (map event_sig ?evs)"
  proof (rule distinct_by_class [where k = sv_TaskID])
    fix x y
    assume "x \<in> set ?evs" "y \<in> set ?evs" "event_sig x = event_sig y"
    with assms(1) show "sv_TaskID x = sv_TaskID y"
      using colon_split [of "sv_TaskID x" "sv_TaskID y"] by (auto simp: event_sig_def)
  next
    fix x
    assume "x \<in> set ?evs"
    with assms(1) of_task [of "sv_TaskID x"] show "distinct (map event_sig (filter (\<lambda>y. sv_TaskID y = sv_TaskID x) ?evs))"
      by (auto simp: script_ok_def)
  qed
  moreover have "task_checks n (co_result co) i = []" if "i \<in> set ids" for i
  proof -
    have ok: "script_ok n (filter (\<lambda>ev. sv_TaskID ev = i) evs)" using assms(1) that by blast
    have count: "length (filter (\<lambda>ev. sv_TaskID ev = i \<and> sv_Type ev = ty) ?evs) =
        length (filter (\<lambda>ev. sv_Type ev = ty) (filter (\<lambda>ev. sv_TaskID ev = i) evs))" for ty
      using that by (auto intro!: arg_cong [where f = length] filter_cong)
    have "length (filter (\<lambda>ev. sv_Type ev = ''task_status'') (filter (\<lambda>ev. sv_TaskID ev = i) evs)) = 2"
      using ok by (rule script_ok_statuses)
    with ok show ?thesis
      by (simp add: co task_checks_def collected_counts count script_ok_def check_def del: filter_filter)
  qed
  ultimately show ?thesis by (simp add: co no_duplicates)
qed

section \<open>What the SSE handler writes\<close>

lemma sse_turn_chunk:
  assumes "sse_turn i e h = Ret (Some txt', h1)" and "\<not> ch_closed (hb_heap h i)"
    and "ch_buf (hb_heap h i) = map marshal_event evs"
  obtains c evs' where "txt' = chunk_text c" "evs = chunk_events [c] @ evs'" "(\<exists>ev. c = Frame ev) \<or> c = Comment ''heartbeat''"
    "ch_buf (hb_heap h1 i) = map marshal_event evs'" "\<not> ch_closed (hb_heap h1 i)"
proof -
  from select_in [OF assms(1) [unfolded sse_turn_def]] assms(2,3)
  consider (ev) ev evs' where "evs = ev # evs'" "txt' = data_frame (marshal_event ev)"
      "h1 = h\<lparr>hb_heap := (hb_heap h)(i := (hb_heap h i)\<lparr>ch_buf := map marshal_event evs'\<rparr>)\<rparr>"
    | (tick) "h1 = h" "txt' = heartbeat_comment"
    by (cases evs) (auto simp: on_done_def on_tick_def on_recv_open split: if_splits)
  then show thesis
  proof cases
    case ev
    with assms(2) show thesis by (intro that [of "Frame ev" evs']) simp_all
  next
    case tick
    with assms(2,3) show thesis by (intro that [of "Comment ''heartbeat''" evs]) (simp_all add: heartbeat_comment_def)
  qed
qed

lemma sse_loop_chunks:
  "sse_loop i es h = Ret (fin, txt', h') \<Longrightarrow> \<not> ch_closed (hb_heap h i) \<Longrightarrow> ch_buf (hb_heap h i) = map marshal_event evs \<Longrightarrow>
     \<exists>cs evs'. txt' = concat (map chunk_text cs) \<and> evs = chunk_events cs @ evs' \<and>
       ch_buf (hb_heap h' i) = map marshal_event evs' \<and> (\<forall>c \<in> set cs. (\<exists>ev. c = Frame ev) \<or> c = Comment ''heartbeat'')"
proof (induction es arbitrary: h txt' evs fin)
  case Nil
  then show ?case by (intro exI [of _ "[]"] exI [of _ evs]) simp
next
  case (Cons e es)
  from Cons.prems(1) obtain r h1 where r: "sse_turn i e h = Ret (r, h1)"
    and k: "(case r of None \<Rightarrow> Ret (True, [], h1)
      | Some t1 \<Rightarrow> omap (\<lambda>(fin, t2, h2). (fin, t1 @ t2, h2)) (sse_loop i es h1)) = Ret (fin, txt', h')"
    by auto
  show ?case
  proof (cases r)
    case None
    from select_in [OF r [unfolded sse_turn_def]] None have "h1 = h"
      by (auto simp: on_done_def on_tick_def on_recv_def split: outcome.splits option.splits if_splits)
    with None k Cons.prems(3) show ?thesis by (intro exI [of _ "[]"] exI [of _ evs]) auto
  next
    case (Some t1)
    with k obtain t2 where t2: "sse_loop i es h1 = Ret (fin, t2, h')" "txt' = t1 @ t2" by auto
    obtain c evs1 where c: "t1 = chunk_text c" "evs = chunk_events [c] @ evs1" "(\<exists>ev. c = Frame ev) \<or> c = Comment ''heartbeat''"
      "ch_buf (hb_heap h1 i) = map marshal_event evs1" "\<not> ch_closed (hb_heap h1 i)"
      using r [unfolded Some] Cons.prems(2,3) by (rule sse_turn_chunk)
    from Cons.IH [OF t2(1) c(5,4)] obtain cs evs' where "t2 = concat (map chunk_text cs)" "evs1 = chunk_events cs @ evs'"
      "ch_buf (hb_heap h' i) = map marshal_event evs'" "\<forall>c \<in> set cs. (\<exists>ev. c = Frame ev) \<or> c = Comment ''heartbeat''"
      by blast
    with t2(2) c(1-3) chunk_events_Cons [of c cs] show ?thesis by (intro exI [of _ "c # cs"] exI [of _ evs']) auto
  qed
qed

text \<open>Left alone, the handler writes everything that is waiting.\<close>

lemma sse_loop_drains:
  assumes "\<not> ch_closed (hb_heap h i)" and "n = length (ch_buf (hb_heap h i))"
  shows "\<exists>txt' h'. sse_loop i (replicate n \<lparr>se_ctx = Background, se_tick = False\<rparr>) h = Ret (False, txt', h') \<and>
    ch_buf (hb_heap h' i) = []"
  using assms
proof (induction n arbitrary: h)
  case (Suc n)
  then obtain v vs where buf: "ch_buf (hb_heap h i) = v # vs" by (cases "ch_buf (hb_heap h i)") auto
  let ?h = "h\<lparr>hb_heap := (hb_heap h)(i := (hb_heap h i)\<lparr>ch_buf := vs\<rparr>)\<rparr>"
  have "sse_turn i \<lparr>se_ctx = Background, se_tick = False\<rparr> h = Ret (Some (data_frame v), ?h)"
    using Suc.prems(1) buf by (simp add: sse_turn_def on_recv_open on_tick_def)
  moreover from Suc.IH [of ?h] Suc.prems buf obtain txt' h' where
    "sse_loop i (replicate n \<lparr>se_ctx = Background, se_tick = False\<rparr>) ?h = Ret (False, txt', h')" "ch_buf (hb_heap h' i) = []"
    by auto
  ultimately show ?case by simp
qed simp

section \<open>A test against a stream\<close>

lemma decode_id_body:
  assumes "valid_utf8 i"
  shows "Option.bind (decode_first (id_body i @ [newline])) submit_response_of_json = Some i"
proof -
  let ?v = "JObj [(''id'', JStr i)]"
  have "valid_utf8 ''id''" by code_simp
  with assms have "jwf ?v" by auto
  moreover have "10000 = Suc 9999" by simp
  then have "jdepth_le 10000 ?v" by auto
  moreover have "delim [newline]" by (simp add: delim_def)
  ultimately have "decode_first (jtext ?v @ [newline]) = Some ?v" by (rule decode_first_jtext)
  moreover have "field_index [''id''] ''id'' = Some 0" by code_simp
  ultimately show ?thesis by (simp add: id_body_def submit_response_of_json_def set_string_def)
qed

text \<open>The turns of a patient test: the reader reads everything, then the collector takes it, then it is quiet.\<close>

definition patient_turns :: "nat \<Rightarrow> nat \<Rightarrow> instant \<Rightarrow> duration \<Rightarrow> test_turn list" where
  "patient_turns lines events start d =
     replicate lines (ReaderTurn Background) @ replicate events (CollectorTurn Background start) @
     [CollectorTurn Background (start + d)]"

lemma reader_turns:
  assumes "conn_live c" and "length (conn_pending c) \<le> ch_cap (sc_events c)"
  shows "collect_run ids d (replicate (length (sc_lines c)) (ReaderTurn Background) @ ts) (c, q, co) =
    collect_run ids d ts (c\<lparr>sc_lines := [], sc_events := (sc_events c)\<lparr>ch_buf := conn_pending c\<rparr>\<rparr>, q, co)"
  using assms
proof (induction "sc_lines c" arbitrary: c)
  case Nil
  then have "c\<lparr>sc_lines := [], sc_events := (sc_events c)\<lparr>ch_buf := conn_pending c\<rparr>\<rparr> = c"
    by (cases c; cases "sc_events c") (simp add: conn_pending_def map_filter_simps)
  with Nil show ?case by simp
next
  case (Cons line ls)
  let ?c = "case line_event line of None \<Rightarrow> c\<lparr>sc_lines := ls\<rparr> | Some ev \<Rightarrow> c\<lparr>sc_lines := ls, sc_events := chan_push ev (sc_events c)\<rparr>"
  have "line_event line \<noteq> None \<Longrightarrow> chan_room (sc_events c)"
    using Cons.prems(2) Cons.hyps(2) [symmetric] by (auto simp: conn_pending_def chan_room_def map_filter_simps)
  then have "sse_reader_turn Background c = Ret ?c"
    using Cons.prems(1) Cons.hyps(2) [symmetric]
    by (auto simp: sse_reader_turn_def conn_live_def line_event_def split: option.splits)
  moreover have "ls = sc_lines ?c" "conn_live ?c" "conn_pending ?c = conn_pending c" "ch_cap (sc_events ?c) = ch_cap (sc_events c)"
    using Cons.prems(1) Cons.hyps(2) [symmetric]
    by (auto simp: conn_live_def conn_pending_def map_filter_simps split: option.splits)
  moreover have "?c\<lparr>sc_lines := [], sc_events := (sc_events ?c)\<lparr>ch_buf := bs\<rparr>\<rparr> =
      c\<lparr>sc_lines := [], sc_events := (sc_events c)\<lparr>ch_buf := bs\<rparr>\<rparr>" for bs
    by (cases c; cases "sc_events c") (simp add: chan_push_def split: option.split)
  ultimately show ?case
    using Cons.hyps(1) [of ?c] Cons.prems(2) Cons.hyps(2) [symmetric] by simp
qed

lemma collector_turns:
  assumes "\<not> ch_closed (sc_events c)" and "0 < d"
  shows "collect_run ids d (replicate (length (ch_buf (sc_events c))) (CollectorTurn Background start) @ ts)
      (c, new_timer start d, co) =
    collect_run ids d ts (c\<lparr>sc_events := (sc_events c)\<lparr>ch_buf := []\<rparr>\<rparr>, new_timer start d,
      fold processEvent (filter (of_interest ids) (ch_buf (sc_events c))) co)"
  using assms(1)
proof (induction "ch_buf (sc_events c)" arbitrary: c co)
  case Nil
  then have "c\<lparr>sc_events := (sc_events c)\<lparr>ch_buf := []\<rparr>\<rparr> = c" by (cases c; cases "sc_events c") simp
  then show ?case unfolding \<open>c\<lparr>sc_events := (sc_events c)\<lparr>ch_buf := []\<rparr>\<rparr> = c\<close> using Nil.hyps [symmetric] by simp
next
  case (Cons ev evs)
  let ?c = "c\<lparr>sc_events := (sc_events c)\<lparr>ch_buf := evs\<rparr>\<rparr>"
  have "drainAndReset start d (new_timer start d) = new_timer start d"
    by (simp add: drainAndReset_def new_timer_def)
  then have "collect_turn ids d Background start (sc_events c, new_timer start d, co) =
      Ret (Collecting, (sc_events c)\<lparr>ch_buf := evs\<rparr>, new_timer start d, if of_interest ids ev then processEvent ev co else co)"
    using Cons.hyps(2) [symmetric] assms(2)
    by (simp add: collect_turn_def timer_runs_def new_timer_def chan_recv_def Let_def)
  with Cons.hyps(1) [of ?c] Cons.hyps(2) [symmetric] Cons.prems show ?case by simp
qed

lemma patient_run:
  assumes "conn_live c" and "length (conn_pending c) \<le> ch_cap (sc_events c)" and "0 < d"
  shows "\<exists>c' q co. CollectEventsUntilQuiet ids d start (patient_turns (length (sc_lines c)) (length (conn_pending c)) start d) c =
      Ret (Quiet (co_result co), c', q, co) \<and> conn_pending c' = [] \<and>
    co = fold processEvent (filter (of_interest ids) (conn_pending c)) new_collector"
proof -
  let ?c = "c\<lparr>sc_lines := [], sc_events := (sc_events c)\<lparr>ch_buf := conn_pending c\<rparr>\<rparr>"
  let ?c' = "?c\<lparr>sc_events := (sc_events ?c)\<lparr>ch_buf := []\<rparr>\<rparr>"
  let ?co = "fold processEvent (filter (of_interest ids) (conn_pending c)) new_collector"
  have open_c: "\<not> ch_closed (sc_events ?c)" using assms(1) by (simp add: conn_live_def)
  have "CollectEventsUntilQuiet ids d start (patient_turns (length (sc_lines c)) (length (conn_pending c)) start d) c =
      collect_run ids d [CollectorTurn Background (start + d)] (?c', new_timer start d, ?co)"
    using reader_turns [OF assms(1,2)] collector_turns [OF open_c assms(3), of ids start]
    by (simp add: CollectEventsUntilQuiet_def patient_turns_def)
  also have "\<dots> = Ret (Quiet (co_result ?co), ?c', \<lparr>qt_active = False, qt_tick = False, qt_at = start + d\<rparr>, ?co)"
    using assms(1) by (simp add: collect_turn_def timer_runs_def new_timer_def chan_recv_def Let_def conn_live_def)
  finally show ?thesis by (fastforce simp: conn_pending_def map_filter_simps)
qed

text \<open>A connection that brings chunks and stays open.\<close>

lemma fresh_conn:
  assumes "list_all chunk_ok cs" and "c = \<lparr>sc_lines = scan_lines (concat (map chunk_text cs)), sc_ends = False,
    sc_events = make_chan 256, sc_stopped = False\<rparr>"
  shows "conn_live c" "conn_pending c = map sse_of (chunk_events cs)"
  using assms by (simp_all add: conn_live_def conn_pending_def chunks_pending)

lemma test_opens:
  assumes "W (http_get (baseURL @ ''/events'')\<lparr>hc_UserID := Some suiteUserID\<rparr>) m = (Inr (response 200 body), m1)"
  shows "SSEClient W None False baseURL suiteUserID m =
    (\<lparr>sc_lines = scan_lines body, sc_ends = False, sc_events = make_chan 256, sc_stopped = False\<rparr>, m1)"
  using assms by (simp add: SSEClient_def)

lemma test_submits:
  assumes "W (post_call baseURL suiteUserID name n) m = (Inr (response 202 (id_body i @ [newline])), m1)" and "valid_utf8 i"
  shows "PostTask W None baseURL suiteUserID name n m = (Inr i, m1)"
  using assms decode_id_body [OF assms(2)] by (simp add: PostTask_def)

text \<open>
  The collection of a test whose checks hold for all the events of interest on the stream:
  without a timeout, once the stream is read, the verdict is not a failure; patiently, it passes.
\<close>

lemma collection_verdict:
  assumes cs: "list_all chunk_ok cs" and c: "c = \<lparr>sc_lines = scan_lines (concat (map chunk_text cs)), sc_ends = False,
      sc_events = make_chan 256, sc_stopped = False\<rparr>"
    and pass: "\<And>co. co = fold processEvent (filter (of_interest ids) (map sse_of (chunk_events cs))) new_collector \<Longrightarrow>
      co_errors co = [] \<and> checks (co_result co) = []"
  shows "list_all turn_live ts \<Longrightarrow> \<exists>r c' q co. CollectEventsUntilQuiet ids Second start ts c = Ret (r, c', q, co) \<and>
      (conn_pending c' = [] \<longrightarrow> collected_verdict r co checks = None \<or> collected_verdict r co checks = Some [])"
    and "length (chunk_events cs) \<le> 256 \<Longrightarrow> \<exists>c' q co. CollectEventsUntilQuiet ids Second start
      (patient_turns (length (scan_lines (concat (map chunk_text cs)))) (length (chunk_events cs)) start Second) c =
      Ret (Quiet (co_result co), c', q, co) \<and> conn_pending c' = [] \<and> collected_verdict (Quiet (co_result co)) co checks = Some []"
proof -
  note fresh = fresh_conn [OF cs c]
  have passes: "collected_verdict (Quiet (co_result co)) co checks = Some []"
    if "co = fold processEvent (filter (of_interest ids) (conn_pending c)) new_collector" for co
    using pass [of co] that by (simp add: fresh(2) collected_verdict_def)
  show "\<exists>r c' q co. CollectEventsUntilQuiet ids Second start ts c = Ret (r, c', q, co) \<and>
      (conn_pending c' = [] \<longrightarrow> collected_verdict r co checks = None \<or> collected_verdict r co checks = Some [])"
    if live: "list_all turn_live ts"
  proof -
    obtain r c' q' co taken where r: "CollectEventsUntilQuiet ids Second start ts c = Ret (r, c', q', co)"
      "conn_pending c = taken @ conn_pending c'" "co = fold processEvent (filter (of_interest ids) taken) new_collector"
      "r \<in> {Collecting, Quiet (co_result co)}"
      using collect_run_keeps [OF live fresh(1), of ids Second "new_timer start Second" new_collector]
      unfolding CollectEventsUntilQuiet_def by blast
    have "conn_pending c' = [] \<Longrightarrow> r = Quiet (co_result co) \<Longrightarrow> collected_verdict r co checks = Some []"
      using passes [of co] r(2,3) by simp
    moreover have "r = Collecting \<Longrightarrow> collected_verdict r co checks = None" by (simp add: collected_verdict_def)
    ultimately show ?thesis using r(1,4) by auto
  qed
  show "\<exists>c' q co. CollectEventsUntilQuiet ids Second start
      (patient_turns (length (scan_lines (concat (map chunk_text cs)))) (length (chunk_events cs)) start Second) c =
      Ret (Quiet (co_result co), c', q, co) \<and> conn_pending c' = [] \<and> collected_verdict (Quiet (co_result co)) co checks = Some []"
    if room: "length (chunk_events cs) \<le> 256"
  proof -
    have "length (conn_pending c) = length (chunk_events cs)" "sc_lines c = scan_lines (concat (map chunk_text cs))"
      "ch_cap (sc_events c) = 256" by (simp_all add: fresh(2)) (simp_all add: c)
    with patient_run [OF fresh(1), of Second ids start] room passes show ?thesis by fastforce
  qed
qed

text \<open>\<^verbatim>\<open>testSingleTask\<close> against a stream with the events of one run of three stages, among any others.\<close>

lemma single_task_verdict:
  assumes cs: "list_all chunk_ok cs" and open_stream: "W (http_get (baseURL @ ''/events'')\<lparr>hc_UserID := Some suiteUserID\<rparr>) m =
      (Inr (response 200 (concat (map chunk_text cs))), m1)"
    and post: "W (post_call baseURL suiteUserID ''integration-single'' 3) m1 = (Inr (response 202 (id_body i @ [newline])), m2)"
    and i: "valid_utf8 i" and ok: "script_ok 3 (filter (\<lambda>ev. sv_TaskID ev = i) (map sse_of (chunk_events cs)))"
  shows "list_all turn_live ts \<Longrightarrow> \<exists>v c'. testSingleTask W None False baseURL start ts m = Ret (v, c', m2) \<and>
      (conn_pending c' = [] \<longrightarrow> v = None \<or> v = Some [])"
    and "length (chunk_events cs) \<le> 256 \<Longrightarrow> \<exists>c'. testSingleTask W None False baseURL start
      (patient_turns (length (scan_lines (concat (map chunk_text cs)))) (length (chunk_events cs)) start Second) m =
      Ret (Some [], c', m2) \<and> conn_pending c' = []"
proof -
  let ?c = "\<lparr>sc_lines = scan_lines (concat (map chunk_text cs)), sc_ends = False, sc_events = make_chan 256, sc_stopped = False\<rparr>"
  let ?checks = "\<lambda>res. check (ce_SeenCompleted res) ''task should reach completed status'' @ count_checks 3 res"
  have test: "testSingleTask W None False baseURL start us m = omap (\<lambda>(e, c1, q, co). (collected_verdict e co ?checks, c1, m2))
      (CollectEventsUntilQuiet [i] Second start us ?c)" for us
    using test_opens [of W baseURL m "concat (map chunk_text cs)" m1, OF open_stream]
      test_submits [of W baseURL "''integration-single''" 3 m1 i m2, OF post i] by (simp add: testSingleTask_def)
  have pass: "co_errors co = [] \<and> ?checks (co_result co) = []"
    if "co = fold processEvent (filter (of_interest [i]) (map sse_of (chunk_events cs))) new_collector" for co
    using collected_script [OF ok] that by (simp add: check_def)
  note verdict = collection_verdict [where checks = ?checks and ids = "[i]", OF cs refl pass]
  show "list_all turn_live ts \<Longrightarrow> \<exists>v c'. testSingleTask W None False baseURL start ts m = Ret (v, c', m2) \<and>
      (conn_pending c' = [] \<longrightarrow> v = None \<or> v = Some [])"
    using verdict(1) [where ts = ts and start = start] by (auto simp: test)
  show "length (chunk_events cs) \<le> 256 \<Longrightarrow> \<exists>c'. testSingleTask W None False baseURL start
      (patient_turns (length (scan_lines (concat (map chunk_text cs)))) (length (chunk_events cs)) start Second) m =
      Ret (Some [], c', m2) \<and> conn_pending c' = []"
    using verdict(2) [where start = start] by (auto simp: test)
qed

text \<open>\<^verbatim>\<open>testConcurrentTasks\<close> against a stream with the events of its three tasks, interleaved anyhow.\<close>

lemma concurrent_tasks_verdict:
  assumes cs: "list_all chunk_ok cs" and open_stream: "W (http_get (baseURL @ ''/events'')\<lparr>hc_UserID := Some suiteUserID\<rparr>) m =
      (Inr (response 200 (concat (map chunk_text cs))), m1)"
    and post: "post_tasks W None baseURL 3 m1 = (Inr ids, m2)"
    and ok: "\<forall>i \<in> set ids. CHR '':'' \<notin> set i \<and> script_ok 3 (filter (\<lambda>ev. sv_TaskID ev = i) (map sse_of (chunk_events cs)))"
  shows "list_all turn_live ts \<Longrightarrow> \<exists>v c'. testConcurrentTasks W None False baseURL start ts m = Ret (v, c', m2) \<and>
      (conn_pending c' = [] \<longrightarrow> v = None \<or> v = Some [])"
    and "length (chunk_events cs) \<le> 256 \<Longrightarrow> \<exists>c'. testConcurrentTasks W None False baseURL start
      (patient_turns (length (scan_lines (concat (map chunk_text cs)))) (length (chunk_events cs)) start Second) m =
      Ret (Some [], c', m2) \<and> conn_pending c' = []"
proof -
  let ?c = "\<lparr>sc_lines = scan_lines (concat (map chunk_text cs)), sc_ends = False, sc_events = make_chan 256, sc_stopped = False\<rparr>"
  let ?checks = "\<lambda>res. concat (map (task_checks 3 res) ids)"
  have test: "testConcurrentTasks W None False baseURL start us m = omap (\<lambda>(e, c1, q, co). (collected_verdict e co ?checks, c1, m2))
      (CollectEventsUntilQuiet ids Second start us ?c)" for us
    using test_opens [of W baseURL m "concat (map chunk_text cs)" m1, OF open_stream] post
    by (simp add: testConcurrentTasks_def)
  note verdict = collection_verdict [where checks = ?checks and ids = ids, OF cs refl collected_tasks [OF ok]]
  show "list_all turn_live ts \<Longrightarrow> \<exists>v c'. testConcurrentTasks W None False baseURL start ts m = Ret (v, c', m2) \<and>
      (conn_pending c' = [] \<longrightarrow> v = None \<or> v = Some [])"
    using verdict(1) [where ts = ts and start = start] by (auto simp: test)
  show "length (chunk_events cs) \<le> 256 \<Longrightarrow> \<exists>c'. testConcurrentTasks W None False baseURL start
      (patient_turns (length (scan_lines (concat (map chunk_text cs)))) (length (chunk_events cs)) start Second) m =
      Ret (Some [], c', m2) \<and> conn_pending c' = []"
    using verdict(2) [where start = start] by (auto simp: test)
qed

text \<open>
  \<^verbatim>\<open>testStatusTransitions\<close> against a stream with the events of one run of two stages, among any
  others, and a system whose reads answer an unfinished task first and the completed one at the end.
\<close>

lemma status_transitions_verdict:
  assumes cs: "list_all chunk_ok cs" and open_stream: "W (http_get (baseURL @ ''/events'')\<lparr>hc_UserID := Some suiteUserID\<rparr>) m =
      (Inr (response 200 (concat (map chunk_text cs))), m1)"
    and post: "W (post_call baseURL suiteUserID ''integration-transitions'' 2) m1 = (Inr (response 202 (id_body i @ [newline])), m2)"
    and i: "valid_utf8 i" and ok: "script_ok 2 (filter (\<lambda>ev. sv_TaskID ev = i) (map sse_of (chunk_events cs)))"
    and first: "test_GetTask W baseURL i m2 = (Inr t, m3)" "tr_Status t \<in> {''pending'', ''running''}"
    and final: "final_checks W baseURL i (meanwhile m3) = ([], m4)" and live: "list_all turn_live ts"
  shows "\<exists>v c' m'. testStatusTransitions W None False baseURL start ts meanwhile m = Ret (v, c', m') \<and>
    (conn_pending c' = [] \<longrightarrow> v = None \<or> v = Some [])"
proof -
  let ?c = "\<lparr>sc_lines = scan_lines (concat (map chunk_text cs)), sc_ends = False, sc_events = make_chan 256, sc_stopped = False\<rparr>"
  let ?checks = "\<lambda>res. check ([''running'', ''completed''] = ce_StatusSeq res) ''status transition sequence'' @ count_checks 2 res"
  have pass: "co_errors co = [] \<and> ?checks (co_result co) = []"
    if "co = fold processEvent (filter (of_interest [i]) (map sse_of (chunk_events cs))) new_collector" for co
    using collected_script [OF ok] that by (simp add: check_def)
  obtain r c' q co where r: "CollectEventsUntilQuiet [i] Second start ts ?c = Ret (r, c', q, co)"
    "conn_pending c' = [] \<longrightarrow> collected_verdict r co ?checks = None \<or> collected_verdict r co ?checks = Some []"
    using collection_verdict(1) [where checks = ?checks and ids = "[i]", OF cs refl pass live, where start = start] by blast
  have "\<exists>v m'. testStatusTransitions W None False baseURL start ts meanwhile m = Ret (v, c', m') \<and>
      (v = collected_verdict r co ?checks)"
    using test_opens [of W baseURL m "concat (map chunk_text cs)" m1, OF open_stream] r(1) first final
      test_submits [of W baseURL "''integration-transitions''" 2 m1 i m2, OF post i]
    by (cases r) (auto simp: testStatusTransitions_def collected_verdict_def Let_def)
  with r(2) show ?thesis by fastforce
qed

section \<open>Pattern 1 under the suite\<close>

lemma relay_inv: "hub_inv h \<Longrightarrow> relay ps ch h = Ret (ch', h') \<Longrightarrow> hub_inv h'"
proof (induction ps arbitrary: ch h)
  case (Cons p ps)
  then obtain goes ch1 h1 where turn: "relay_turn p ch h = Ret (goes, ch1, h1)"
    "(if goes then relay ps ch1 h1 else Ret (ch1, h1)) = Ret (ch', h')" by auto
  moreover have "hub_inv h1"
    using turn(1) Cons.prems(1) hub_inv_publish by (fastforce simp: relay_turn_def split: option.splits)
  ultimately show ?case using Cons.IH by (auto split: if_splits)
qed simp

lemma p01_life_hub:
  assumes "p01_life E x u t0 now rq w es ps a = Ret (resp, k, a')" and "hub_inv (a1_hub a)"
  shows "hub_inv (a1_hub a')"
proof -
  obtain j h0 where sub: "hub_subscribe (getUserID rq) (a1_hub a) = (j, h0)" by fastforce
  then have "hub_inv h0" using hub_inv_subscribe [OF assms(2), of "getUserID rq"] by simp
  with assms(1) sub show ?thesis by (auto simp: p01_life_def Let_def dest: relay_inv)
qed

text \<open>What the API process sees of a call.\<close>

definition request_of :: "http_call \<Rightarrow> http_request" where
  "request_of call = \<lparr>rq_XUserID = (case hc_UserID call of None \<Rightarrow> [] | Some u \<Rightarrow> u), rq_Cookie = None,
     rq_HXRequest = [], rq_Body = hc_Body call\<rparr>"

lemma single_request:
  "unmarshal_submit (rq_Body (request_of (post_call baseURL suiteUserID ''integration-single'' 3))) =
     Some \<lparr>sr_Name = ''integration-single'', sr_StageCount = 3\<rparr>"
  "getUserID (request_of (post_call baseURL suiteUserID ''integration-single'' 3)) = suiteUserID"
  "rq_HXRequest (request_of (post_call baseURL suiteUserID ''integration-single'' 3)) \<noteq> ''true''"
proof -
  have "valid_utf8 ''integration-single''" by code_simp
  then show "unmarshal_submit (rq_Body (request_of (post_call baseURL suiteUserID ''integration-single'' 3))) =
     Some \<lparr>sr_Name = ''integration-single'', sr_StageCount = 3\<rparr>"
    by (simp add: request_of_def post_call_def submit_roundtrip in_int64_def)
qed (simp_all add: request_of_def post_call_def getUserID_def suiteUserID_def)

text \<open>The stream of a browser whose hub channel holds a run's events, written to the end.\<close>

lemma p01_stream:
  assumes "\<not> ch_closed (hb_heap h k)" and "sse_loop k streams h = Ret (fin, txt', h')" and "ch_buf (hb_heap h' k) = []"
    and "ch_buf (hb_heap h k) = map marshal_event evs"
    and "list_all (\<lambda>ev. event_encodable ev \<and> length (marshal_event ev) < 65530) evs"
  obtains cs where "connected_comment @ txt' = concat (map chunk_text cs)" "list_all chunk_ok cs" "chunk_events cs = evs"
proof -
  obtain cs evs' where cs: "txt' = concat (map chunk_text cs)" "evs = chunk_events cs @ evs'"
    "ch_buf (hb_heap h' k) = map marshal_event evs'" "\<forall>c \<in> set cs. (\<exists>ev. c = Frame ev) \<or> c = Comment ''heartbeat''"
    using sse_loop_chunks [OF assms(2,1,4)] by blast
  then have evs: "chunk_events cs = evs" using assms(3) by simp
  have "chunk_ok c" if "c \<in> set cs" for c
    using that cs(4) assms(5) chunk_events_frames [of _ cs] evs by (fastforce simp: list_all_iff)
  then show thesis
    using cs(1) evs by (intro that [of "Comment ''connected'' # cs"]) (simp_all add: connected_comment_def list_all_iff)
qed

lemma script_encodable:
  assumes "task_Stages t = task_Stages (new_task i now nm n)" and "valid_utf8 (task_ID t)" and "valid_utf8 u"
  shows "list_all event_encodable (map (\<lambda>ev. ev\<lparr>ev_UserID := u\<rparr>) (run_script cancel t))"
proof -
  have "list_all valid_utf8 stageNames" by code_simp
  then have "valid_utf8 (stageNames ! j)" if "j < 8" for j using that by (simp add: list_all_length)
  then have "\<forall>s \<in> set (task_Stages t). valid_utf8 (stage_Name s)"
    by (auto simp: assms(1) new_task_stages)
  moreover have "list_all in_int64 (percentages (run_script cancel t))"
    using run_script_percentages [of cancel t] by (auto simp: list_all_iff in_int64_def)
  ultimately have "list_all event_encodable (run_script cancel t)"
    using assms(2) by (simp add: run_script_def stage_script_encodable status_event_encodable)
  with assms(3) show ?thesis by (auto simp: list_all_iff event_encodable_def)
qed

lemma sse_of_user [simp]: "sse_of (ev\<lparr>ev_UserID := u\<rparr>) = sse_of ev"
  by (simp add: sse_of_def)

lemma run_script_uncancelled: "\<forall>j. \<not> cancel j \<Longrightarrow> run_script cancel t = run_script (\<lambda>_. False) t"
  by (rule arg_cong [of cancel "\<lambda>_. False" "\<lambda>c. run_script c t"]) (simp add: fun_eq_iff)

text \<open>The texts of a run are short: an escape takes at most six characters for one.\<close>

lemma quote_body_length: "length (quote_body s) \<le> 6 * length s"
proof (induction s rule: quote_body.induct)
  case (2 c cs)
  let ?n = "utf8_len (c # cs)"
  have esc: "length (escape_ascii c) \<le> 6" by (simp add: escape_ascii_def)
  show ?case
  proof (cases "byte c < 128 \<or> ?n = 0")
    case True
    with 2 esc show ?thesis by (auto simp: Let_def)
  next
    case False
    then have "length (quote_body (drop (?n - 1) cs)) \<le> 6 * (length cs - (?n - 1))"
      using 2 by (cases "take ?n (c # cs) = [CHR 0xE2, CHR 0x80, CHR 0xA8]";
          cases "take ?n (c # cs) = [CHR 0xE2, CHR 0x80, CHR 0xA9]") (auto simp: Let_def)
    moreover have "length (take ?n (c # cs)) + 6 * (length cs - (?n - 1)) \<le> 6 * length (c # cs)"
      using False by (cases ?n) auto
    moreover have "6 + 6 * (length cs - (?n - 1)) \<le> 6 * length (c # cs)" by simp
    ultimately show ?thesis using False by (auto simp: Let_def)
  qed
qed simp

lemma event_text_length:
  "length (marshal_event ev) \<le> 100 + length (int_text (ev_Progress ev)) +
     6 * (length (ev_Type ev) + length (ev_TaskID ev) + length (ev_UserID ev) + length (ev_StageName ev) + length (ev_Status ev))"
  using quote_body_length [of "ev_Type ev"] quote_body_length [of "ev_TaskID ev"] quote_body_length [of "ev_UserID ev"]
    quote_body_length [of "ev_StageName ev"] quote_body_length [of "ev_Status ev"]
  by (simp add: marshal_event_def event_json_def opt_str_def quote_def escape_ascii_def)

lemma int_text_percent: "0 \<le> p \<Longrightarrow> p \<le> 100 \<Longrightarrow> length (int_text p) \<le> 3"
  by (auto simp: int_text_def itoa.simps [of "nat p"] itoa.simps [of "nat p div 10"] itoa.simps [of "nat p div 10 div 10"])

lemma script_short:
  assumes "task_Stages t = task_Stages (new_task i now nm n)" and "length (task_ID t) \<le> 10000" and "length u \<le> 100"
    and "ev \<in> set (run_script (\<lambda>_. False) t)"
  shows "length (marshal_event (ev\<lparr>ev_UserID := u\<rparr>)) < 65530"
proof -
  have "length (ev_Type ev) \<le> 11 \<and> length (ev_Status ev) \<le> 9 \<and> length (ev_StageName ev) \<le> 14 \<and> 0 \<le> ev_Progress ev \<and>
      ev_Progress ev \<le> 100"
  proof (cases "ev = status_event t TaskRunning \<or> ev = status_event t TaskCompleted")
    case True
    then show ?thesis by (auto simp: status_event_def zero_event_def)
  next
    case False
    with assms(4) stage_script_in [of ev t] obtain s p where s: "s \<in> set (task_Stages t)" "ev = progress_event t s p"
      by (fastforce simp: run_script_def)
    have "list_all (\<lambda>x. length x \<le> 14) stageNames" by code_simp
    with s(1) have "length (stage_Name s) \<le> 14" by (auto simp: assms(1) new_task_stages list_all_length)
    moreover have "p \<in> set (percentages (run_script (\<lambda>_. False) t))"
      using assms(4) s(2) by (force simp: percentages_def)
    then have "0 \<le> p \<and> p \<le> 100" using run_script_percentages [of "\<lambda>_. False" t] by blast
    ultimately show ?thesis using s(2) by (simp add: progress_event_def zero_event_def)
  qed
  moreover from this have "length (int_text (ev_Progress ev)) \<le> 3" using int_text_percent by simp
  ultimately show ?thesis
    using event_text_length [of "ev\<lparr>ev_UserID := u\<rparr>"] run_script_ids [OF assms(4)] assms(2,3) by simp
qed

end
