(* ===== verification/Examples.thy ===== *)
theory Examples
  imports EndToEnd Suite
begin

text \<open>
  Concrete values on which the theorems of the root theory are applied: a task as \<^verbatim>\<open>NewTask\<close>
  makes it, the managers of the patterns in their initial states, and short runs of the
  concurrent components.
\<close>

section \<open>A task and its events\<close>

definition demo_time :: instant where
  "demo_time = 1700000000123456789"

definition demo_task :: task where
  "demo_task = (new_task ''t1'' demo_time ''demo'' 2)\<lparr>task_UserID := ''u1''\<rparr>"

definition demo_env :: run_env where
  "demo_env = \<lparr>re_ctx = (\<lambda>_. Background), re_rand = (\<lambda>_. 7), re_cancel = (\<lambda>_. False)\<rparr>"

definition demo_request :: http_request where
  "demo_request = \<lparr>rq_XUserID = ''u1'', rq_Cookie = None, rq_HXRequest = [],
     rq_Body = jtext (JObj [(''name'', JStr ''demo''), (''stage_count'', JNum ''2'')])\<rparr>"

lemma demo_task_simps [simp]:
  "task_ID demo_task = ''t1''" "task_UserID demo_task = ''u1''" "task_Status demo_task = TaskPending"
  "task_DispatchedAt demo_task = None" "task_CompletedAt demo_task = None"
  "task_SubmittedAt demo_task = demo_time" "task_Name demo_task = ''demo''"
  by (simp_all add: demo_task_def)

lemma demo_task_stages:
  "task_Stages demo_task = [\<lparr>stage_Index = 0, stage_Name = ''Initialization''\<rparr>,
     \<lparr>stage_Index = 1, stage_Name = ''Validation''\<rparr>]"
  by (simp add: demo_task_def new_task_stages stageNames_def upt_conv_Cons)

lemma demo_date: "civil_of_days 19675 = (2023, 11, 14)"
  by code_simp

lemma demo_time_text: "time_text demo_time \<noteq> None"
  by (simp add: demo_time_def time_text_def demo_date)

lemma demo_task_encodable: "task_encodable demo_task"
proof -
  have "valid_utf8 ''t1''" "valid_utf8 ''demo''" "valid_utf8 TaskPending" "valid_utf8 ''u1''"
    "valid_utf8 ''Initialization''" "valid_utf8 ''Validation''" by code_simp+
  then show ?thesis
    by (simp add: task_encodable_def demo_time_text demo_task_stages stage_encodable_def in_int64_def)
qed

lemma demo_body: "unmarshal_submit (rq_Body demo_request) = Some \<lparr>sr_Name = ''demo'', sr_StageCount = 2\<rparr>"
  by code_simp

lemma demo_script:
  "run_script (\<lambda>_. False) demo_task =
     [status_event demo_task TaskRunning,
      progress_event demo_task \<lparr>stage_Index = 0, stage_Name = ''Initialization''\<rparr> 0,
      progress_event demo_task \<lparr>stage_Index = 0, stage_Name = ''Initialization''\<rparr> 50,
      progress_event demo_task \<lparr>stage_Index = 1, stage_Name = ''Validation''\<rparr> 50,
      progress_event demo_task \<lparr>stage_Index = 1, stage_Name = ''Validation''\<rparr> 100,
      status_event demo_task TaskCompleted]"
  by (simp add: run_script_def demo_task_stages)

section \<open>A manager of pattern 1\<close>

definition demo_manager :: "channel_link memory_manager" where
  "demo_manager = NewManager NewMemoryStore \<lparr>cl_tasks = make_chan 4, cl_events = make_chan 256\<rparr> NewMemoryBridge 0"

definition demo_start :: "(memory_store, channel_link, memory_bridge) mgr_world" where
  "demo_start = mgr_start demo_manager"

lemma new_store [simp]: "mem_inv NewMemoryStore" "mem_tasks NewMemoryStore = Map.empty"
  by (simp_all add: NewMemoryStore_def mem_inv_def mem_tasks_def)

lemma demo_manager_inv:
  "mem_inv (mg_store demo_manager)" "link_inv (mg_dispatcher demo_manager)"
  "mem_tasks (mg_store demo_manager) = Map.empty"
  by (simp_all add: demo_manager_def link_inv_def)

text \<open>The three steps of one submission: stored, handed over, recorded.\<close>

definition demo_created :: "(memory_store, channel_link, memory_bridge) mgr_world" where
  "demo_created = demo_start\<lparr>mw_mgr := demo_manager\<lparr>mg_store := snd (mem_create demo_task NewMemoryStore)\<rparr>,
     mw_submits := [Created demo_task]\<rparr>"

definition demo_recorded :: "(memory_store, channel_link, memory_bridge) mgr_world" where
  "demo_recorded = demo_start\<lparr>mw_mgr := demo_manager\<lparr>
       mg_store := snd (mem_set_dispatched_at ''t1'' 9 (snd (mem_create demo_task NewMemoryStore))),
       mg_dispatcher := \<lparr>cl_tasks = chan_push demo_task (make_chan 4), cl_events = make_chan 256\<rparr>\<rparr>\<rparr>"

abbreviation demo_step :: "(memory_store, channel_link, memory_bridge) mgr_world \<Rightarrow>
    (memory_store, channel_link, memory_bridge) mgr_world \<Rightarrow> bool" where
  "demo_step \<equiv> mgr_step memory_store_ops channel_dispatcher_ops memory_bridge_ops link_env"

lemma demo_submitted: "submitted_task demo_task"
  unfolding submitted_task_def demo_task_def by blast

lemma demo_steps: "demo_step demo_start demo_created" "demo_step\<^sup>*\<^sup>* demo_created demo_recorded"
proof -
  show "demo_step demo_start demo_created"
    using mgr_step.step_create [OF demo_submitted, where w = demo_start and TS = memory_store_ops
        and TD = channel_dispatcher_ops and EP = memory_bridge_ops and env = link_env]
    by (simp add: demo_start_def demo_created_def mgr_start_def demo_manager_def mem_create_eq)
  let ?d = "\<lparr>cl_tasks = chan_push demo_task (make_chan 4), cl_events = make_chan 256\<rparr>"
  let ?v = "demo_created\<lparr>mw_mgr := (mw_mgr demo_created)\<lparr>mg_dispatcher := ?d\<rparr>, mw_submits := [Dispatched demo_task None]\<rparr>"
  have "channel_dispatch Background demo_task (mg_dispatcher (mw_mgr demo_created)) = Ret (None, ?d)"
    by (simp add: demo_created_def demo_manager_def channel_dispatch_def chan_try_send_def chan_room_def)
  then have 1: "demo_step demo_created ?v"
    using mgr_step.step_dispatch [where w = demo_created and us = "[]" and t = demo_task and vs = "[]"
        and TD = channel_dispatcher_ops and TS = memory_store_ops and EP = memory_bridge_ops and env = link_env]
    by (simp add: demo_created_def)
  have 2: "demo_step ?v demo_recorded"
    using mgr_step.step_record_dispatched [where w = ?v and us = "[]" and t = demo_task and vs = "[]"
        and TS = memory_store_ops and now = 9 and TD = channel_dispatcher_ops and EP = memory_bridge_ops
        and env = link_env]
    by (cases "mem_set_dispatched_at ''t1'' 9 (snd (mem_create demo_task NewMemoryStore))")
      (simp add: demo_created_def demo_recorded_def demo_start_def mgr_start_def demo_manager_def NewManager_def)
  from 1 2 show "demo_step\<^sup>*\<^sup>* demo_created demo_recorded" by auto
qed

lemma demo_stored:
  "mem_inv (mg_store (mw_mgr demo_created))" "link_inv (mg_dispatcher (mw_mgr demo_created))"
  "mem_tasks (mg_store (mw_mgr demo_created)) ''t1'' = Some demo_task"
  using mem.create_inv [of NewMemoryStore demo_task] mem.create_state [of NewMemoryStore demo_task]
    demo_manager_inv(2)
  by (simp_all add: demo_created_def spec_create_def)

lemma demo_run:
  "\<exists>w. demo_step\<^sup>*\<^sup>* demo_start w \<and>
     mem_tasks (mg_store (mw_mgr w)) ''t1'' = Some (demo_task\<lparr>task_DispatchedAt := Some 9\<rparr>)"
proof (intro exI conjI)
  show "demo_step\<^sup>*\<^sup>* demo_start demo_recorded"
    using demo_steps by (meson converse_rtranclp_into_rtranclp)
  have inv: "mem_inv (snd (mem_create demo_task NewMemoryStore))"
    using mem.create_inv [of NewMemoryStore demo_task] by simp
  show "mem_tasks (mg_store (mw_mgr demo_recorded)) ''t1'' = Some (demo_task\<lparr>task_DispatchedAt := Some 9\<rparr>)"
    using mem.dispatched_state [OF inv, of "''t1''" 9] mem.create_state [of NewMemoryStore demo_task]
    by (simp add: demo_recorded_def spec_create_def spec_dispatched_def)
qed

lemma demo_executor: "valid_executor (ms_executor 300)"
  unfolding valid_executor_def ms_executor_def by code_simp

lemma demo_bridge:
  "bridge_inv (snd (bridge_subscribe NewMemoryBridge))" "0 \<in> bridge_subs (snd (bridge_subscribe NewMemoryBridge))"
  "bridge_free (snd (bridge_subscribe NewMemoryBridge)) 0 = 64"
  "bridge_feed (snd (bridge_subscribe NewMemoryBridge)) 0 = []"
  by (simp_all add: bridge_subscribe_def NewMemoryBridge_def bridge_inv_def bridge_subs_def
      bridge_free_def bridge_feed_def Let_def)

lemma demo_length: "length (run_script (re_cancel demo_env) demo_task) = 6"
  by (simp add: demo_env_def demo_script)

section \<open>The other transports with room\<close>

lemma emit_all_rest:
  assumes "echo_ok E" and "rc_bad_url rc = None" and "rest_inv d" and "\<forall>k. \<not> ctx_done (cx k)"
    and "list_all event_encodable evs" and "length (rest_inbox d) + length evs \<le> ch_cap (rd_events d)"
  shows "\<exists>d'. emit_all (rest_consumer_ops rc (rest_net E) n) cx k evs d = Ret d'"
  using assms(3,5,6)
proof (induction evs arbitrary: d k)
  case (Cons ev evs)
  let ?d = "d\<lparr>rd_events := chan_push ev (rd_events d)\<rparr>"
  have room: "chan_room (rd_events d)" using Cons.prems(3) by (simp add: chan_room_def rest_inbox_def)
  have "\<exists>d'. emit_all (rest_consumer_ops rc (rest_net E) n) cx (Suc k) evs ?d = Ret d'"
    by (rule Cons.IH) (use Cons.prems room in \<open>simp_all add: rest_inv_updates rest_inbox_def\<close>)
  with room Cons.prems assms(1,2,4) show ?case by (simp add: emit_ignored_def rest_emit_open)
qed simp

lemma emit_all_ws:
  assumes "wk_current c = Some i" and "\<not> ch_closed (wk_heap c i)"
    and "length (ch_buf (wk_heap c i)) + length evs \<le> ch_cap (wk_heap c i)"
  shows "\<exists>c'. emit_all ws_consumer_ops cx k evs c = Ret c'"
  using assms
proof (induction evs arbitrary: c k)
  case (Cons ev evs)
  let ?c = "c\<lparr>wk_heap := (wk_heap c)(i := chan_push (marshal_event ev) (wk_heap c i))\<rparr>"
  have room: "chan_room (wk_heap c i)" using Cons.prems(3) by (simp add: chan_room_def)
  have "\<exists>c'. emit_all ws_consumer_ops cx (Suc k) evs ?c = Ret c'"
    by (rule Cons.IH) (use Cons.prems in simp_all)
  with room Cons.prems show ?case by (simp add: emit_ignored_def ws_emit_connected)
qed simp

lemma demo_ws_run:
  "\<exists>c c'. ws_connected c \<and> exec_run ws_consumer_ops (ms_executor 300) demo_env demo_task c = Ret c'"
proof -
  obtain i c where c: "ws_dialed NewWebSocketConsumer = (i, c)" by (cases "ws_dialed NewWebSocketConsumer")
  then have i: "wk_current c = Some i" "wk_heap c i = make_chan 128"
    by (auto simp: ws_dialed_def NewWebSocketConsumer_def Let_def)
  then obtain c' where "exec_run ws_consumer_ops (ms_executor 300) demo_env demo_task c = Ret c'"
    using emit_all_ws [of c i "run_script (re_cancel demo_env) demo_task" "re_ctx demo_env" 0]
    by (auto simp: exec_run_script [OF demo_executor] demo_length)
  moreover have "ws_connected c" using i by (simp add: ws_connected_def)
  ultimately show ?thesis by blast
qed

lemma demo_grpc_run:
  "\<exists>c c'. grpc_live c \<and> exec_run (consumer_ops [] send_ok 7) (ms_executor 300) demo_env demo_task c = Ret c'"
proof -
  have "\<exists>c'. emit_all (consumer_ops [] send_ok 7) cx k evs c = Ret c'" if "grpc_live c" for cx k evs c
    using that
  proof (induction evs arbitrary: k c)
    case (Cons ev evs)
    have "tc_emit (consumer_ops [] send_ok 7) (cx k) ev c = Ret (None, c\<lparr>gc_sent := gc_sent c @ [EventToProto 7 ev]\<rparr>)"
      using Cons.prems by (auto simp: consumer_emit_def grpc_live_def Let_def)
    moreover have "grpc_live (c\<lparr>gc_sent := gc_sent c @ [EventToProto 7 ev]\<rparr>)"
      using Cons.prems by (simp add: grpc_live_def)
    ultimately show ?case using Cons.IH by (simp add: emit_ignored_def)
  qed simp
  moreover have "grpc_live (NewConsumer\<lparr>gc_stream := Some 0, gc_connected := True\<rparr>)" by (simp add: grpc_live_def)
  ultimately show ?thesis unfolding exec_run_script [OF demo_executor] by blast
qed

section \<open>Short runs of the bridge and the hub\<close>

lemma demo_bridge_run: "\<exists>w. bridge_step\<^sup>*\<^sup>* bridge_start w \<and> bridge_feed (bw_bridge w) 0 = [zero_event]"
proof -
  obtain b1 where b1: "bridge_subscribe NewMemoryBridge = (0, b1)"
    by (cases "bridge_subscribe NewMemoryBridge") (simp add: bridge_subscribe_def NewMemoryBridge_def Let_def)
  then have inv: "bridge_inv b1" "0 \<in> bridge_subs b1" "bridge_free b1 0 = 64" "bridge_feed b1 0 = []"
    using demo_bridge by simp_all
  then obtain b2 where b2: "bridge_publish 0 zero_event b1 = Ret b2" "bridge_feed b2 0 = [zero_event]"
    using bridge_pub.publish_returns [of b1 0 zero_event] bridge_pub.publish_room [of b1 0 zero_event _ 0] by auto
  let ?w1 = "bridge_start\<lparr>bw_bridge := b1, bw_since := (bw_since bridge_start)(0 := length (bw_log bridge_start)),
       bw_read := (bw_read bridge_start)(0 := [])\<rparr>"
  have "bridge_step bridge_start ?w1"
    using b1 by (intro bridge_step.step_subscribe) (simp add: bridge_start_def)
  moreover have "bridge_step ?w1 (?w1\<lparr>bw_bridge := b2, bw_log := bw_log ?w1 @ [zero_event]\<rparr>)"
    using b2(1) by (intro bridge_step.step_publish [of 0]) simp
  ultimately have "bridge_step\<^sup>*\<^sup>* bridge_start (?w1\<lparr>bw_bridge := b2, bw_log := bw_log ?w1 @ [zero_event]\<rparr>)"
    by (meson converse_rtranclp_into_rtranclp rtranclp.rtrancl_refl)
  with b2(2) show ?thesis by fastforce
qed

lemma demo_hub_run: "\<exists>w. hub_step\<^sup>*\<^sup>* hub_start w \<and> hb_next (hw_hub w) = 1 \<and> hw_log w = [zero_event]"
proof -
  let ?h1 = "snd (hub_subscribe ''u1'' NewHub)"
  have sub: "hub_subscribe ''u1'' NewHub = (0, ?h1)" by (simp add: prod_eq_iff) (simp add: NewHub_def)
  obtain h2 where h2: "hub_publish 0 zero_event ?h1 = Ret h2" "hb_next h2 = hb_next ?h1"
    using hub_publish_eq [OF hub_inv_subscribe [OF hub_inv_new], of 0 zero_event "''u1''"] by simp
  let ?w1 = "hub_start\<lparr>hw_hub := ?h1, hw_owner := (hw_owner hub_start)(0 := ''u1''),
       hw_since := (hw_since hub_start)(0 := length (hw_log hub_start)), hw_read := (hw_read hub_start)(0 := [])\<rparr>"
  have "hub_step hub_start ?w1"
    using hub_step.step_subscribe [of "''u1''" hub_start 0 ?h1] sub by (simp add: hub_start_def)
  moreover have "hub_step ?w1 (?w1\<lparr>hw_hub := h2, hw_log := hw_log ?w1 @ [zero_event]\<rparr>)"
    using h2(1) by (intro hub_step.step_publish [of 0]) simp
  ultimately have "hub_step\<^sup>*\<^sup>* hub_start (?w1\<lparr>hw_hub := h2, hw_log := hw_log ?w1 @ [zero_event]\<rparr>)"
    by (meson converse_rtranclp_into_rtranclp rtranclp.rtrancl_refl)
  moreover have "hb_next h2 = 1" using h2(2) by (simp add: NewHub_def)
  moreover have "hw_log hub_start = []" by (simp add: hub_start_def)
  ultimately show ?thesis
    by (intro exI [of _ "?w1\<lparr>hw_hub := h2, hw_log := hw_log ?w1 @ [zero_event]\<rparr>"]) simp
qed

lemma demo_status_encodable: "event_encodable (status_event demo_task TaskCompleted)"
proof (rule status_event_encodable)
  have "valid_utf8 ''t1''" by code_simp
  then show "valid_utf8 (task_ID demo_task)" by simp
  show "valid_utf8 TaskCompleted" by code_simp
qed

lemma demo_status_short: "length (marshal_event (status_event demo_task TaskCompleted)) < 65530"
proof -
  have "length (jtext (event_json \<lparr>ev_Type = ''task_status'', ev_TaskID = ''t1'', ev_UserID = [], ev_StageName = [],
      ev_Progress = 0, ev_Status = ''completed''\<rparr>)) = 57" by code_simp
  then show ?thesis by (simp add: marshal_event_def status_event_def zero_event_def)
qed

lemma demo_bridge_stream:
  "\<exists>b body b'. bridge_feed b 0 = [status_event demo_task TaskCompleted] \<and> bridge_feed b' 0 = [] \<and>
     bridge_loop 0 [\<lparr>se_ctx = Background, se_tick = False\<rparr>] b = Ret (body, b')"
proof -
  let ?b = "snd (bridge_subscribe NewMemoryBridge)" and ?ev = "status_event demo_task TaskCompleted"
  obtain b where b: "bridge_feed b 0 = [?ev]"
    using bridge_pub.publish_returns [OF demo_bridge(1), of 0 ?ev] demo_bridge
      bridge_pub.publish_room [OF demo_bridge(1), of 0 ?ev _ 0] by auto
  then have "bridge_read 0 b = Ret (Some ?ev, b\<lparr>mb_heap := (mb_heap b)(0 := (mb_heap b 0)\<lparr>ch_buf := []\<rparr>)\<rparr>)"
    by (simp add: bridge_read_def bridge_feed_def chan_recv_def)
  with b show ?thesis
    by (intro exI [of _ b] exI conjI) (auto simp: bridge_turn_def on_tick_def bridge_feed_def)
qed

lemma demo_refused:
  "\<exists>ds. stream_with_reconnect b (replicate n \<lparr>at_before = False, at_stream = (\<lambda>_. Background, Inl (Errorf ''refused'')),
     at_after = False, at_wait = Background\<rparr>) sse_channel = Ret (False, ds, sse_channel) \<and> length ds = n"
proof (induction n arbitrary: b)
  case (Suc n)
  from Suc.IH [of "next_backoff b"] obtain ds where "stream_with_reconnect (next_backoff b) (replicate n
      \<lparr>at_before = False, at_stream = (\<lambda>_. Background, Inl (Errorf ''refused'')), at_after = False,
       at_wait = Background\<rparr>) sse_channel = Ret (False, ds, sse_channel)" "length ds = n" by blast
  then show ?case by (intro exI [of _ "b # ds"]) (simp add: stream_events_def)
qed simp

section \<open>WebSocket workers\<close>

definition demo_ws :: ws_dispatcher where
  "demo_ws = snd (ws_register ''b'' (snd (ws_register ''a'' NewWebSocketDispatcher)))"

lemma demo_ws_ready:
  "ws_inv demo_ws" "length (wd_workers demo_ws) = 2" "\<forall>j < 2. ws_ready demo_ws (ws_nth demo_ws j)"
  by (auto simp: demo_ws_def ws_register_def NewWebSocketDispatcher_def ws_inv_def conn_ok_def Let_def
      ws_ready_def ws_nth_def chan_room_def less_2_cases_iff)

lemma demo_ws_run_register: "\<exists>s. ws_step\<^sup>*\<^sup>* ws_world_start s \<and> wd_workers (ww_disp s) = [0]"
proof -
  obtain w d where d: "ws_register ''a'' NewWebSocketDispatcher = (w, d)" by (cases "ws_register ''a'' NewWebSocketDispatcher")
  then have w: "wd_workers d = [0]" by (auto simp: ws_register_def NewWebSocketDispatcher_def Let_def)
  have "ws_step ws_world_start (ws_world_start\<lparr>ww_disp := d, ww_pump := (ww_pump ws_world_start)(w := Reading)\<rparr>)"
    by (rule ws_step.step_register [of "''a''"]) (simp add: ws_world_start_def d)
  then have "ws_step\<^sup>*\<^sup>* ws_world_start (ws_world_start\<lparr>ww_disp := d, ww_pump := (ww_pump ws_world_start)(w := Reading)\<rparr>)"
    by (rule r_into_rtranclp)
  moreover have "wd_workers (ww_disp (ws_world_start\<lparr>ww_disp := d, ww_pump := (ww_pump ws_world_start)(w := Reading)\<rparr>)) = [0]"
    by (simp add: w)
  ultimately show ?thesis by blast
qed

text \<open>A manager of pattern 3 with two workers accepts the task.\<close>

lemma demo_ws_submission:
  "\<exists>u. (mgr_step memory_store_ops ws_dispatcher_ops memory_bridge_ops ws_env)\<^sup>*\<^sup>*
      (mgr_start (NewManager NewMemoryStore demo_ws NewMemoryBridge 0)) u \<and>
    mem_tasks (mg_store (mw_mgr u)) ''t1'' = Some (demo_task\<lparr>task_DispatchedAt := Some 9\<rparr>)"
proof -
  let ?m = "NewManager NewMemoryStore demo_ws NewMemoryBridge 0"
  obtain s1 where s1: "mem_create demo_task NewMemoryStore = (None, s1)"
    using new_store(2) by (cases "mem_create demo_task NewMemoryStore") (auto simp: mem_create_eq)
  have inv: "mem_inv s1" "mem_tasks s1 ''t1'' = Some demo_task"
    using mem.create_inv [of NewMemoryStore demo_task] mem.create_state [of NewMemoryStore demo_task] s1
    by (simp_all add: spec_create_def)
  obtain x s2 where s2: "mem_set_dispatched_at ''t1'' 9 s1 = (x, s2)" by fastforce
  obtain d where d: "ws_dispatch Background demo_task demo_ws = Ret (None, d)"
    using ws_dispatch_first [OF demo_ws_ready(1)] demo_ws_ready(2,3) unmarshal_marshal_task_msg [OF demo_task_encodable]
    by fastforce
  have "(mgr_step memory_store_ops ws_dispatcher_ops memory_bridge_ops ws_env)\<^sup>*\<^sup>* (mgr_start ?m)
      (mgr_start (?m\<lparr>mg_store := s2, mg_dispatcher := d\<rparr>))"
    using s1 s2 d by (intro submission_steps [OF demo_submitted, where c = Background and ?s1.0 = s1 and x = x and now = 9])
      (simp_all add: NewManager_def)
  moreover have "mem_tasks s2 ''t1'' = Some (demo_task\<lparr>task_DispatchedAt := Some 9\<rparr>)"
    using mem.dispatched_state [OF inv(1), of "''t1''" 9] inv(2) s2 by (simp add: spec_dispatched_def)
  ultimately show ?thesis
    by (intro exI [of _ "mgr_start (?m\<lparr>mg_store := s2, mg_dispatcher := d\<rparr>)"]) (simp add: mgr_start_def)
qed

section \<open>The suite's single task\<close>

definition suite_task :: task where
  "suite_task = (new_task ''t1'' demo_time ''integration-single'' 3)\<lparr>task_UserID := suiteUserID\<rparr>"

lemma suite_task_script: "length (run_script (\<lambda>_. False) suite_task) = 8"
  using length_run_script_live [of suite_task "\<lambda>_. False"] by (simp add: suite_task_def length_new_task_stages)

end
