(* ===== verification/Details.thy ===== *)
theory Details
  imports Examples
begin

text \<open>
  Further facts on single components, each with an instance where it has a hypothesis: tasks
  and their scripts, queues, the texts of times and events, submission to busy workers, reading
  through the proxy, polling, round robin, reconnection, and what the gRPC client and consumer
  do besides.
\<close>

text \<open>
  \<^verbatim>\<open>NewTask\<close>: the stage count is clamped to 1 to 8, the stages carry their positions and the
  distinct names of the table in order (the fallback name of the loop is never used), and the
  task is pending and neither dispatched nor completed.
\<close>

theorem new_task_wellformed:
  "length (task_Stages (new_task u now nm n)) = nat (max 1 (min 8 n)) \<and>
   map stage_Index (task_Stages (new_task u now nm n)) = map int [0..<nat (max 1 (min 8 n))] \<and>
   map stage_Name (task_Stages (new_task u now nm n)) = take (nat (max 1 (min 8 n))) stageNames \<and>
   distinct (map stage_Name (task_Stages (new_task u now nm n))) \<and>
   lifecycle_ok (new_task u now nm n) \<and> task_DispatchedAt (new_task u now nm n) = None"
proof -
  have names: "map stage_Name (task_Stages (new_task u now nm n)) = take (nat (max 1 (min 8 n))) stageNames"
    unfolding new_task_stages by (rule nth_equalityI) auto
  then show ?thesis
    using distinct_take [OF distinct_stageNames, of "nat (max 1 (min 8 n))"]
    by (simp add: length_new_task_stages lifecycle_ok_def) (simp add: new_task_stages comp_def)
qed

text \<open>
  The script of a run: one final status, reported last, failed precisely if a stage was
  cancelled; every event names the task; the percentages lie between 0 and 100 and never go
  down; the number of events is at most two per stage and two more.
\<close>

theorem script_shape:
  "(\<exists>evs st. run_script cancel t = evs @ [status_event t st] \<and>
      list_all (\<lambda>ev. \<not> is_terminal ev) evs \<and> terminal_status st \<and>
      (st = TaskFailed \<longleftrightarrow> (\<exists>j. j < length (task_Stages t) \<and> cancel j))) \<and>
    list_all (\<lambda>ev. ev_TaskID ev = task_ID t) (run_script cancel t) \<and>
    sorted (percentages (run_script cancel t)) \<and>
    list_all (\<lambda>p. 0 \<le> p \<and> p \<le> 100) (percentages (run_script cancel t)) \<and>
    length (run_script cancel t) \<le> 2 * length (task_Stages t) + 2"
  using run_script_terminal [of cancel t] run_script_percentages [of cancel t] run_script_ids [of _ cancel t]
    length_run_script_le [of cancel t]
  by (auto simp: list_all_iff)

text \<open>
  The task queues of patterns 1 and 2: for any interleaving of non-blocking dispatches and
  worker receptions on a new queue of size n, the tasks handed out followed by those still
  queued are the accepted ones in order (first in, first out, none lost, none duplicated), and
  never more than n are queued.
\<close>

theorem task_queues_fifo:
  "(case queue_run channel_push channel_pop xs \<lparr>cl_tasks = make_chan n, cl_events = make_chan 256\<rparr> of
      (accepted, popped, l) \<Rightarrow> popped @ ch_buf (cl_tasks l) = accepted \<and> length (ch_buf (cl_tasks l)) \<le> n) \<and>
   (case queue_run rest_push rest_take xs \<lparr>rd_tasks = make_chan n, rd_events = make_chan 256\<rparr> of
      (accepted, popped, d) \<Rightarrow> popped @ ch_buf (rd_tasks d) = accepted \<and> length (ch_buf (rd_tasks d)) \<le> n)"
proof -
  have "link_inv \<lparr>cl_tasks = make_chan n, cl_events = make_chan 256\<rparr>"
    "rest_inv \<lparr>rd_tasks = make_chan n, rd_events = make_chan 256\<rparr>"
    by (simp_all add: link_inv_def rest_inv_def)
  from channel_queue.fifo [OF this(1)] rest_queue.fifo [OF this(2)] show ?thesis
    by (fastforce simp: link_inv_def rest_inv_def chan_ok_def)
qed

text \<open>
  Events survive JSON: decoding the text of an event whose strings are valid UTF-8 and whose
  progress is an \<^verbatim>\<open>int64\<close> gives the event back, although empty fields are omitted.
\<close>

theorem event_json_roundtrip:
  assumes "event_encodable ev"
  shows "unmarshal_event (marshal_event ev) = Some ev"
  using assms by (rule unmarshal_marshal)

theorem event_json_roundtrip_witness:
  "unmarshal_event (marshal_event (status_event demo_task TaskCompleted)) = Some (status_event demo_task TaskCompleted)"
  using event_json_roundtrip [of "status_event demo_task TaskCompleted"] demo_status_encodable by blast

text \<open>
  Calendar and clock texts: the date computed from a day number is a valid Gregorian date
  whose day number is the given one, and a time that \<^verbatim>\<open>MarshalJSON\<close> can write is read back as
  the same instant.
\<close>

theorem time_text_roundtrip:
  assumes "civil_of_days n = (y, m, d)" and "time_text i = Some s"
  shows "days_of_civil y m d = n \<and> 1 \<le> m \<and> m \<le> 12 \<and> 1 \<le> d \<and> d \<le> days_in y m \<and> parse_time s = Some i"
  using civil_of_days_round [OF assms(1)] parse_time_text [OF assms(2)] by blast

theorem time_text_roundtrip_witness:
  "\<exists>s. days_of_civil 2023 11 14 = 19675 \<and> time_text demo_time = Some s \<and> parse_time s = Some demo_time"
  using time_text_roundtrip [OF demo_date] demo_time_text by fastforce

text \<open>
  \<^verbatim>\<open>Submit\<close> on pattern 3 while every worker is busy (or none is connected): the answer is
  503, the task is stored as failed and the dispatcher is untouched.
\<close>

theorem p03_submit_busy:
  assumes "mem_inv (mg_store m)" and "ws_inv (mg_dispatcher m)"
    and "mem_tasks (mg_store m) (task_ID t) = None"
    and "\<forall>w \<in> set (wd_workers (mg_dispatcher m)). wc_busy (wd_heap (mg_dispatcher m) w)"
  shows "\<exists>s. submit memory_store_ops ws_dispatcher_ops c now t m =
      Ret (Some (HTTPError 503 no_workers_message (Some ErrNoWorkers)), m\<lparr>mg_store := s\<rparr>) \<and>
    mem_tasks s = (mem_tasks (mg_store m))(task_ID t \<mapsto> with_status now TaskFailed t)"
  using assms by (rule p03_submit_no_workers)

theorem p03_submit_busy_witness:
  "\<exists>m s. p03_NewManager Background None = Inr m \<and>
    submit memory_store_ops ws_dispatcher_ops Background 9 demo_task m =
      Ret (Some (HTTPError 503 no_workers_message (Some ErrNoWorkers)), m\<lparr>mg_store := s\<rparr>) \<and>
    mem_tasks s ''t1'' = Some (with_status 9 TaskFailed demo_task)"
proof -
  let ?m = "NewManager NewMemoryStore NewWebSocketDispatcher NewMemoryBridge 0"
  have "p03_NewManager Background None = Inr ?m"
    by (simp add: p03_NewManager_def manager_start_def ws_start_def NewManager_def)
  moreover have "ws_inv NewWebSocketDispatcher" "wd_workers NewWebSocketDispatcher = []"
    by (simp_all add: ws_inv_def NewWebSocketDispatcher_def)
  ultimately show ?thesis
    using p03_submit_busy [of ?m demo_task Background 9] new_store by auto
qed

text \<open>
  Reading through the proxy gives what the manager gives: the task or its absence, and the
  whole list.
\<close>

theorem proxy_reads:
  assumes "echo_ok E" and "tm_get TM x i m = Ret (r, m1)" and "\<forall>t. r = Some t \<longrightarrow> task_encodable t"
    and "tm_list TM x p m = Ret (ts, m2)" and "list_all task_encodable ts"
  shows "remote_get (manager_net E TM) x i m = Ret (r, m1) \<and> remote_list (manager_net E TM) x p m = Ret (ts, m2)"
  using proxy_get [OF assms(1-3)] proxy_list [OF assms(1,4,5)] by blast

theorem proxy_reads_witness:
  "remote_get (manager_net plain_echo (manager_ops memory_store_ops channel_dispatcher_ops)) Background ''t1'' demo_manager
     = Ret (None, demo_manager) \<and>
   remote_list (manager_net plain_echo (manager_ops memory_store_ops channel_dispatcher_ops)) Background 0 demo_manager
     = Ret ([], demo_manager)"
  using proxy_reads [OF plain_echo_ok, of "manager_ops memory_store_ops channel_dispatcher_ops" Background "''t1''"
      demo_manager None demo_manager 0 "[]" demo_manager]
  by (simp add: manager_ops_def manager_get_def manager_list_def demo_manager_def mem_get_def mem_list_def NewMemoryStore_def)

text \<open>
  Reconnection of the SSE client: the delays it waits are, in order, one second doubled each
  time and capped at thirty seconds.
\<close>

theorem sse_backoff:
  assumes "stream_with_reconnect Second as out = Ret (fin, ds, out')"
  shows "ds = map (\<lambda>k. min (2 ^ k * Second) (30 * Second)) [0..<length ds]"
  using reconnect_delays [OF assms] by (simp only: next_backoff_iterate)

theorem sse_backoff_witness:
  "\<exists>out'. stream_with_reconnect Second
      (replicate 6 \<lparr>at_before = False, at_stream = (\<lambda>_. Background, Inl (Errorf ''refused'')), at_after = False,
        at_wait = Background\<rparr>) sse_channel =
      Ret (False, [Second, 2 * Second, 4 * Second, 8 * Second, 16 * Second, 30 * Second], out')"
proof -
  obtain ds where ds: "stream_with_reconnect Second (replicate 6 \<lparr>at_before = False,
      at_stream = (\<lambda>_. Background, Inl (Errorf ''refused'')), at_after = False, at_wait = Background\<rparr>) sse_channel =
      Ret (False, ds, sse_channel)" "length ds = 6"
    using demo_refused by blast
  from sse_backoff [OF ds(1)] ds(2) have "ds = [Second, 2 * Second, 4 * Second, 8 * Second, 16 * Second, 30 * Second]"
    by (simp add: upt_rec)
  with ds show ?thesis by auto
qed

text \<open>
  A polling worker: with a task queued, the poll returns the oldest one unchanged and takes
  it off the queue; with none queued, the worker sleeps half a second and polls again, and
  nothing else changes.
\<close>

theorem rest_polling:
  assumes "echo_ok E" and "rest_inv d" and "\<not> ctx_done x" and "rc_bad_url rc = None"
    and "list_all task_encodable (ch_buf (rd_tasks d))"
  shows "rest_receive rc (rest_net E) (x # xs) d =
    (case ch_buf (rd_tasks d) of
       [] \<Rightarrow> omap (\<lambda>((ds, r), d1). ((500 * Millisecond # ds, r), d1)) (rest_receive rc (rest_net E) xs d)
     | t # ts \<Rightarrow> Ret (([], Inr t), d\<lparr>rd_tasks := (rd_tasks d)\<lparr>ch_buf := ts\<rparr>\<rparr>))"
  using assms rest_poll_empty [OF assms(1,2)] rest_poll_task [OF assms(1,2)]
  by (cases "ch_buf (rd_tasks d)") simp_all

theorem rest_polling_witness:
  "rest_receive \<lparr>rc_bad_url = None\<rparr> (rest_net plain_echo) [Background]
     \<lparr>rd_tasks = chan_push demo_task (make_chan 4), rd_events = make_chan 256\<rparr> =
     Ret (([], Inr demo_task), \<lparr>rd_tasks = make_chan 4, rd_events = make_chan 256\<rparr>)"
  using rest_polling [OF plain_echo_ok, of "\<lparr>rd_tasks = chan_push demo_task (make_chan 4), rd_events = make_chan 256\<rparr>"
      Background "\<lparr>rc_bad_url = None\<rparr>" "[]"] demo_task_encodable
  by (simp add: rest_inv_def chan_ok_def chan_push_def make_chan_def)

text \<open>
  Dispatch is round robin: the loop over indices picks exactly the first idle worker of the
  worker list rotated to start at \<^verbatim>\<open>nextIdx\<close>, and reports that there is none precisely when
  every worker is busy.
\<close>

theorem ws_round_robin:
  "ws_dispatch c t d = (case ws_pick d of None \<Rightarrow> Ret (Some ErrNoWorkers, d) | Some idx \<Rightarrow> ws_hand_over t idx d) \<and>
   map_option ((!) (wd_workers d)) (ws_pick d) =
     List.find (\<lambda>w. \<not> wc_busy (wd_heap d w)) (rotate (wd_nextIdx d) (wd_workers d)) \<and>
   (ws_pick d = None \<longleftrightarrow> list_all (\<lambda>w. wc_busy (wd_heap d w)) (wd_workers d))"
  using ws_dispatch_pick [of c t d] ws_pick_rotate [of d] ws_pick_None [of d] by (simp add: list_all_iff)

text \<open>
  A task crosses the WebSocket unchanged: the message the dispatcher queues for a worker is
  turned by the worker's read loop into the same task in its own queue.
\<close>

theorem ws_task_transfer:
  assumes "task_encodable t" and "\<not> ctx_done x" and "chan_room (wk_tasks k)"
  shows "\<exists>raw. marshal_task_msg t = Some raw \<and>
    ws_conn_message x i raw k = Ret (True, k\<lparr>wk_tasks := chan_push t (wk_tasks k)\<rparr>)"
proof -
  obtain raw where raw: "marshal_task_msg t = Some raw"
    using unmarshal_marshal_task_msg [OF assms(1)] by blast
  from ws_conn_message_task [OF assms(1) raw assms(2,3), of i] raw show ?thesis by blast
qed

theorem ws_task_transfer_witness:
  "\<exists>raw k'. ws_conn_message Background 0 raw NewWebSocketConsumer = Ret (True, k') \<and> ch_buf (wk_tasks k') = [demo_task]"
proof -
  obtain raw where "ws_conn_message Background 0 raw NewWebSocketConsumer =
      Ret (True, NewWebSocketConsumer\<lparr>wk_tasks := chan_push demo_task (wk_tasks NewWebSocketConsumer)\<rparr>)"
    using ws_task_transfer [OF demo_task_encodable, of Background NewWebSocketConsumer 0]
    by (auto simp: NewWebSocketConsumer_def chan_room_def)
  then show ?thesis by (intro exI conjI, assumption) (simp add: NewWebSocketConsumer_def)
qed

text \<open>
  Reconnection of a WebSocket worker: while every dial fails, the waits are half a second
  times the attempt number, capped at ten seconds, and never shorter than half a second.
\<close>

theorem ws_reconnect_delays:
  assumes "\<forall>a \<in> set as. \<not> di_stop a \<and> \<not> ctx_done (di_wait a) \<and> \<not> di_ok a"
  shows "ws_reconnect 1 as = map (\<lambda>i. min (int (Suc i) * (500 * Millisecond)) (10 * Second)) [0..<length as] \<and>
    list_all (\<lambda>b. 500 * Millisecond \<le> b \<and> b \<le> 10 * Second) (ws_reconnect 1 as)"
proof -
  have "ws_reconnect 1 as = map (\<lambda>i. ws_backoff (1 + i)) [0..<length as]"
    by (rule ws_reconnect_failures [OF assms]) simp
  moreover have "ws_backoff (1 + i) = min (int (Suc i) * (500 * Millisecond)) (10 * Second)" for i
    by (simp add: ws_backoff_def min_def)
  ultimately show ?thesis using ws_backoff_bounds [of "Suc _"] by (simp add: list_all_iff)
qed

theorem ws_reconnect_delays_witness:
  "ws_reconnect 1 (replicate 3 \<lparr>di_stop = False, di_wait = Background, di_ok = False\<rparr>) =
     [500 * Millisecond, Second, 1500 * Millisecond]"
  using ws_reconnect_delays [of "replicate 3 \<lparr>di_stop = False, di_wait = Background, di_ok = False\<rparr>"]
  by (simp add: upt_rec)

text \<open>
  What the API sees through the gRPC client: a fetched or listed task is the stored one with
  its times cut to whole seconds, its stages renumbered, and the dispatch time of a task that
  is not running gone; the cut moves a time back by less than a second.
\<close>

theorem grpc_client_view:
  "client_get (server_stub st TS) x i (s, m) = Ret (map_option task_proto_view (ts_get TS i m), s, m) \<and>
   client_list (server_stub st TS) x p (s, m) = Ret (map task_proto_view (ts_list TS p m), s, m) \<and>
   task_SubmittedAt (task_proto_view t) \<le> task_SubmittedAt t \<and>
   task_SubmittedAt t < task_SubmittedAt (task_proto_view t) + Second"
  using client_get_spec [of st TS x i s m] client_list_spec [of st TS x p s m] whole_second_bounds [of "task_SubmittedAt t"]
  by (simp add: task_proto_view_def Let_def)

text \<open>
  A gRPC worker accumulates receive loops: every time a loop loses its stream and the
  reconnection succeeds, the loop goes on and one more has been started, so after k
  reconnections of one loop k more loops run.
\<close>

theorem grpc_receive_loops_accumulate:
  assumes "reconnects dss c = Ret c'"
  shows "gc_loops c' = gc_loops c + length dss"
  using assms by (rule reconnects_add_loops)

theorem grpc_receive_loops_accumulate_witness:
  "\<exists>c c'. reconnects [[(Dialed 1, Background)], [(Dialed 2, Background)]] c = Ret c' \<and> gc_loops c = 1 \<and> gc_loops c' = 3"
proof -
  let ?c = "NewConsumer\<lparr>gc_conn := True, gc_stream := Some 0, gc_connected := True, gc_loops := 1\<rparr>"
  obtain c' where c': "reconnects [[(Dialed 1, Background)], [(Dialed 2, Background)]] ?c = Ret c'"
    by (simp add: receive_turn_def loop_reconnect_def)
  from grpc_receive_loops_accumulate [OF c'] c' show ?thesis by (intro exI [of _ ?c] exI [of _ c']) simp
qed

end
