(* ===== verification/Crypto.thy ===== *)
theory Crypto
  imports JsonText "HOL-Library.Word"
begin

text \<open>
  What the token code of pattern 7 uses of the standard library: \<^verbatim>\<open>encoding/base64\<close>
  (\<^verbatim>\<open>RawURLEncoding\<close>) and \<^verbatim>\<open>crypto/hmac\<close> over \<^verbatim>\<open>crypto/sha256\<close>. A byte string is a \<^typ>\<open>string\<close>.

  \<^item> \<open>b64_decode_encode\<close>: decoding an encoding gives the bytes back, so the encoding is injective;
    \<open>b64_encode_alphabet\<close>: it uses letters, digits, hyphens and underscores only.
  \<^item> \<open>length_hmac_sha256\<close>: a code has 32 bytes.
\<close>

unbundle bit_operations_syntax

section \<open>Base64 without padding, URL alphabet\<close>

definition b64_alphabet :: string where
  "b64_alphabet = ''ABCDEFGHIJKLMNOPQRSTUVWXYZabcdefghijklmnopqrstuvwxyz0123456789-_''"

definition b64_char :: "nat \<Rightarrow> char" where
  "b64_char n = b64_alphabet ! n"

definition b64_val :: "char \<Rightarrow> nat option" where
  "b64_val c =
     (let n = byte c
      in if between 65 90 n then Some (n - 65)
         else if between 97 122 n then Some (n - 71)
         else if between 48 57 n then Some (n + 4)
         else if n = 45 then Some 62
         else if n = 95 then Some 63
         else None)"

fun b64_encode :: "string \<Rightarrow> string" where
  "b64_encode [] = []"
| "b64_encode [a] = [b64_char (byte a div 4), b64_char (byte a mod 4 * 16)]"
| "b64_encode [a, b] =
     [b64_char (byte a div 4), b64_char (byte a mod 4 * 16 + byte b div 16), b64_char (byte b mod 16 * 4)]"
| "b64_encode (a # b # c # r) =
     b64_char (byte a div 4) # b64_char (byte a mod 4 * 16 + byte b div 16) #
     b64_char (byte b mod 16 * 4 + byte c div 64) # b64_char (byte c mod 64) # b64_encode r"

text \<open>
  Decoding: line breaks are skipped, any other character outside the alphabet and a single
  left-over character are errors, the unused low bits of the last character are not looked at.
\<close>

fun b64_quanta :: "nat list \<Rightarrow> string option" where
  "b64_quanta [] = Some []"
| "b64_quanta [v] = None"
| "b64_quanta [v, w] = Some [char_of (v * 4 + w div 16)]"
| "b64_quanta [v, w, x] = Some [char_of (v * 4 + w div 16), char_of (w mod 16 * 16 + x div 4)]"
| "b64_quanta (v # w # x # y # r) =
     map_option (\<lambda>s. char_of (v * 4 + w div 16) # char_of (w mod 16 * 16 + x div 4) # char_of (x mod 4 * 64 + y) # s)
       (b64_quanta r)"

fun b64_values :: "string \<Rightarrow> nat list option" where
  "b64_values [] = Some []"
| "b64_values (c # r) =
     (if byte c = 10 \<or> byte c = 13 then b64_values r
      else case b64_val c of
             None \<Rightarrow> None
           | Some v \<Rightarrow> map_option (\<lambda>vs. v # vs) (b64_values r))"

definition b64_decode :: "string \<Rightarrow> string option" where
  "b64_decode s = Option.bind (b64_values s) b64_quanta"

lemma b64_alphabet_values:
  "map b64_val b64_alphabet = map Some [0..<64]"
  "list_all (\<lambda>c. byte c \<noteq> 10 \<and> byte c \<noteq> 13 \<and> c \<noteq> CHR ''.'' \<and> byte c < 128) b64_alphabet"
  by (simp_all add: b64_alphabet_def b64_val_def between_def upt_rec)

lemma b64_val_char:
  assumes "n < 64"
  shows "b64_val (b64_char n) = Some n" "byte (b64_char n) \<noteq> 10" "byte (b64_char n) \<noteq> 13" "b64_char n \<noteq> CHR ''.''"
    "byte (b64_char n) < 128"
proof -
  have n: "n < length b64_alphabet" using assms by (simp add: b64_alphabet_def)
  with assms arg_cong [OF b64_alphabet_values(1), of "\<lambda>xs. xs ! n"] show "b64_val (b64_char n) = Some n"
    by (simp add: b64_char_def)
  from n b64_alphabet_values(2)
  show "byte (b64_char n) \<noteq> 10" "byte (b64_char n) \<noteq> 13" "b64_char n \<noteq> CHR ''.''" "byte (b64_char n) < 128"
    by (simp_all add: b64_char_def list_all_length)
qed

lemma b64_char_dot: "n < 64 \<Longrightarrow> b64_char n \<noteq> CHR ''.''"  "n < 64 \<Longrightarrow> CHR ''.'' \<noteq> b64_char n"
  using b64_val_char [of n] by auto

lemma b64_values_char: "n < 64 \<Longrightarrow> b64_values (b64_char n # r) = map_option (\<lambda>vs. n # vs) (b64_values r)"
  by (simp add: b64_val_char)

lemma byte_parts:
  "byte c div 4 < 64" "byte c mod 4 * 16 + byte d div 16 < 64" "byte c mod 16 * 4 + byte d div 64 < 64"
  "byte c mod 64 < 64" "byte c mod 4 * 16 < 64" "byte c mod 16 * 4 < 64"
  using code_less [of c] code_less [of d] by linarith+

lemma byte_digits:
  "byte c div 16 div 16 = 0" "byte c div 64 div 4 = 0"
  "byte c div 16 mod 16 = byte c div 16" "byte c div 64 mod 4 = byte c div 64"
proof -
  have "byte c div 16 < 16" "byte c div 64 < 4"
    using code_less [of c] by (simp_all add: less_mult_imp_div_less)
  then show "byte c div 16 div 16 = 0" "byte c div 64 div 4 = 0"
    "byte c div 16 mod 16 = byte c div 16" "byte c div 64 mod 4 = byte c div 64"
    by simp_all
qed

lemma b64_values_encode: "\<exists>vs. b64_values (b64_encode s) = Some vs \<and> b64_quanta vs = Some s"
proof (induction s rule: b64_encode.induct)
  case (4 a b c r)
  then obtain vs where "b64_values (b64_encode r) = Some vs" "b64_quanta vs = Some r" by blast
  then show ?case
    by (simp add: b64_values_char byte_parts byte_digits div_mult_mod_eq del: b64_values.simps)
qed (simp_all add: b64_values_char byte_parts byte_digits div_mult_mod_eq del: b64_values.simps(2))

lemma b64_decode_encode: "b64_decode (b64_encode s) = Some s"
  using b64_values_encode [of s] by (auto simp: b64_decode_def)

lemma b64_encode_alphabet: "c \<in> set (b64_encode s) \<Longrightarrow> c \<noteq> CHR ''.''"
proof (induction s rule: b64_encode.induct)
  case (2 a)
  then show ?case by (auto dest: sym simp: b64_char_dot byte_parts)
next
  case (3 a b)
  then show ?case by (auto dest: sym simp: b64_char_dot byte_parts)
next
  case (4 a b d r)
  then show ?case by (auto dest: sym simp: b64_char_dot byte_parts)
qed simp

lemma b64_encode_ascii: "list_all (\<lambda>c. byte c < 128) (b64_encode s)"
  by (induction s rule: b64_encode.induct) (simp_all add: b64_val_char byte_parts)

lemma b64_encode_inj: "b64_encode s = b64_encode s' \<longleftrightarrow> s = s'"
  using b64_decode_encode by (metis option.inject)

section \<open>SHA-256\<close>

text \<open>
  Messages and digests are byte strings; inside, words of 32 bits. The tables are written as
  numbers of 256 bits, the most significant word first.
\<close>

primrec be_words :: "nat \<Rightarrow> int \<Rightarrow> 32 word list" where
  "be_words 0 n = []"
| "be_words (Suc k) n = be_words k (n div 4294967296) @ [word_of_int n]"

definition sha_K :: "32 word list" where
  "sha_K = concat (map (be_words 8)
    [0x428a2f9871374491b5c0fbcfe9b5dba53956c25b59f111f1923f82a4ab1c5ed5,
     0xd807aa9812835b01243185be550c7dc372be5d7480deb1fe9bdc06a7c19bf174,
     0xe49b69c1efbe47860fc19dc6240ca1cc2de92c6f4a7484aa5cb0a9dc76f988da,
     0x983e5152a831c66db00327c8bf597fc7c6e00bf3d5a7914706ca635114292967,
     0x27b70a852e1b21384d2c6dfc53380d13650a7354766a0abb81c2c92e92722c85,
     0xa2bfe8a1a81a664bc24b8b70c76c51a3d192e819d6990624f40e3585106aa070,
     0x19a4c1161e376c082748774c34b0bcb5391c0cb34ed8aa4a5b9cca4f682e6ff3,
     0x748f82ee78a5636f84c878148cc7020890befffaa4506cebbef9a3f7c67178f2])"

definition sha_init :: "32 word list" where
  "sha_init = be_words 8 0x6a09e667bb67ae853c6ef372a54ff53a510e527f9b05688c1f83d9ab5be0cd19"

definition sha_small0 :: "32 word \<Rightarrow> 32 word" where
  "sha_small0 x = word_rotr 7 x XOR word_rotr 18 x XOR drop_bit 3 x"

definition sha_small1 :: "32 word \<Rightarrow> 32 word" where
  "sha_small1 x = word_rotr 17 x XOR word_rotr 19 x XOR drop_bit 10 x"

definition sha_big0 :: "32 word \<Rightarrow> 32 word" where
  "sha_big0 x = word_rotr 2 x XOR word_rotr 13 x XOR word_rotr 22 x"

definition sha_big1 :: "32 word \<Rightarrow> 32 word" where
  "sha_big1 x = word_rotr 6 x XOR word_rotr 11 x XOR word_rotr 25 x"

text \<open>The message schedule, extended one word at a time.\<close>

primrec sha_schedule :: "nat \<Rightarrow> 32 word list \<Rightarrow> 32 word list" where
  "sha_schedule 0 ws = ws"
| "sha_schedule (Suc k) ws =
     (let n = length ws
      in sha_schedule k (ws @ [sha_small1 (ws ! (n - 2)) + ws ! (n - 7) + sha_small0 (ws ! (n - 15)) + ws ! (n - 16)]))"

fun sha_round :: "32 word list \<Rightarrow> 32 word \<times> 32 word \<Rightarrow> 32 word list" where
  "sha_round [a, b, c, d, e, f, g, h] (k, w) =
     (let t1 = h + sha_big1 e + ((e AND f) XOR (NOT e AND g)) + k + w;
          t2 = sha_big0 a + ((a AND b) XOR (a AND c) XOR (b AND c))
      in [t1 + t2, a, b, c, d + t1, e, f, g])"
| "sha_round st kw = st"

definition sha_block :: "32 word list \<Rightarrow> 32 word list \<Rightarrow> 32 word list" where
  "sha_block st ws = map2 (+) st (foldl sha_round st (zip sha_K (sha_schedule 48 ws)))"

text \<open>Padding to whole blocks: a one bit, zeros, and the length in bits.\<close>

primrec be_bytes :: "nat \<Rightarrow> int \<Rightarrow> string" where
  "be_bytes 0 n = []"
| "be_bytes (Suc k) n = be_bytes k (n div 256) @ [char_of n]"

definition sha_pad :: "string \<Rightarrow> string" where
  "sha_pad m = m @ [char_of (128 :: nat)] @ replicate ((119 - length m mod 64) mod 64) (char_of (0 :: nat)) @
     be_bytes 8 (8 * int (length m))"

fun words_of_bytes :: "string \<Rightarrow> 32 word list" where
  "words_of_bytes (a # b # c # d # r) =
     word_of_int (((of_char a * 256 + of_char b) * 256 + of_char c) * 256 + of_char d) # words_of_bytes r"
| "words_of_bytes _ = []"

fun sha_blocks :: "nat \<Rightarrow> 32 word list \<Rightarrow> 32 word list \<Rightarrow> 32 word list" where
  "sha_blocks 0 ws st = st"
| "sha_blocks (Suc k) ws st = sha_blocks k (drop 16 ws) (sha_block st (take 16 ws))"

definition sha256 :: "string \<Rightarrow> string" where
  "sha256 m =
     (let ws = words_of_bytes (sha_pad m)
      in concat (map (\<lambda>w. be_bytes 4 (uint w)) (sha_blocks (length ws div 16) ws sha_init)))"

text \<open>A known answer: the digest of \<^verbatim>\<open>abc\<close> from the standard.\<close>

lemma sha256_abc:
  "map byte (sha256 ''abc'') =
     [186, 120, 22, 191, 143, 1, 207, 234, 65, 65, 64, 222, 93, 174, 34, 35,
      176, 3, 97, 163, 150, 23, 122, 156, 180, 16, 255, 97, 242, 0, 21, 173]"
  by code_simp

section \<open>HMAC\<close>

definition xor_byte :: "8 word \<Rightarrow> char \<Rightarrow> char" where
  "xor_byte p c = char_of (unat (p XOR word_of_nat (byte c)))"

definition hmac_sha256 :: "string \<Rightarrow> string \<Rightarrow> string" where
  "hmac_sha256 key msg =
     (let k0 = (if length key > 64 then sha256 key else key);
          k = k0 @ replicate (64 - length k0) (char_of (0 :: nat))
      in sha256 (map (xor_byte 0x5c) k @ sha256 (map (xor_byte 0x36) k @ msg)))"

section \<open>Lengths\<close>

lemma length_be [simp]: "length (be_bytes k n) = k" "length (be_words k n) = k"
  by (induction k arbitrary: n) simp_all

lemma length_sha_round [simp]: "length (sha_round st kw) = length st"
  by (cases "(st, kw)" rule: sha_round.cases) (simp_all add: Let_def)

lemma length_sha_rounds [simp]: "length (foldl sha_round st kws) = length st"
  by (induction kws arbitrary: st) simp_all

lemma length_sha_blocks [simp]: "length (sha_blocks k ws st) = length st"
  by (induction k arbitrary: ws st) (simp_all add: sha_block_def)

lemma length_sha256 [simp]: "length (sha256 m) = 32"
proof -
  have "sum_list (map (\<lambda>w. 4) ws) = 4 * length ws" for ws :: "32 word list" by (induction ws) simp_all
  then show ?thesis by (simp add: sha256_def Let_def length_concat comp_def sha_init_def)
qed

lemma length_hmac_sha256 [simp]: "length (hmac_sha256 key msg) = 32"
  by (simp add: hmac_sha256_def Let_def)

end
