(* ===== verification/Bootstrap.thy ===== *)
theory Bootstrap
  imports Crypto Http
begin

text \<open>
  Pattern 7's bootstrap: \<^verbatim>\<open>patterns/p07/internal/bootstrap\<close> (tokens, the deny-list, the TLS
  configurations), the handler of \<^verbatim>\<open>GET /worker/bootstrap\<close> in \<^verbatim>\<open>app/manager.go\<close> and the worker's
  handshake and renewal in \<^verbatim>\<open>app/worker.go\<close>.

  The HTTP exchange of a worker is an argument \<open>net\<close>; reading files and parsing certificates
  (\<^verbatim>\<open>crypto/tls\<close>, \<^verbatim>\<open>crypto/x509\<close>, \<^verbatim>\<open>os\<close>) are arguments of the loaders. An error of \<^verbatim>\<open>encoding/json\<close>
  or \<^verbatim>\<open>encoding/base64\<close> is an error whose text is not modelled beyond the prefix the code adds.

  \<^item> \<open>validate_issue\<close>, \<open>validate_iff\<close>: what a token is and when it is accepted.
  \<^item> \<open>is_revoked_iff\<close>: the deny-list is the set of the names put on it.
  \<^item> \<open>bootstrap_once_handler\<close>: the handshake, both sides together.
  \<^item> \<open>renew_in_bounds\<close>: the renewal delay, with the rounding of \<^verbatim>\<open>float64\<close> written out.
\<close>

section \<open>Tokens\<close>

record token_claims =
  cl_DeviceCN :: string
  cl_ExpiresAt :: int

definition claims_json :: "token_claims \<Rightarrow> json" where
  "claims_json c = JObj [(''sub'', JStr (cl_DeviceCN c)), (''exp'', JNum (int_text (cl_ExpiresAt c)))]"

definition claims_fields :: "string list" where
  "claims_fields = [''sub'', ''exp'']"

definition claims_member :: "string \<Rightarrow> json \<Rightarrow> token_claims \<Rightarrow> token_claims option" where
  "claims_member k v c =
     (case field_index claims_fields k of
        None \<Rightarrow> Some c
      | Some i \<Rightarrow>
          if i = 0 then set_string (\<lambda>s r. r\<lparr>cl_DeviceCN := s\<rparr>) v c
          else set_int (\<lambda>n r. r\<lparr>cl_ExpiresAt := n\<rparr>) v c)"

definition unmarshal_claims :: "string \<Rightarrow> token_claims option" where
  "unmarshal_claims s =
     Option.bind (parse_json s) (\<lambda>v. case v of
         JNull \<Rightarrow> Some \<lparr>cl_DeviceCN = [], cl_ExpiresAt = 0\<rparr>
       | JObj kvs \<Rightarrow> members claims_member kvs \<lparr>cl_DeviceCN = [], cl_ExpiresAt = 0\<rparr>
       | _ \<Rightarrow> None)"

record tokener =
  tk_secret :: string
  tk_ttl :: duration

definition NewTokener :: "string \<Rightarrow> duration \<Rightarrow> tokener" where
  "NewTokener secret ttl = \<lparr>tk_secret = secret, tk_ttl = ttl\<rparr>"

definition unix_seconds :: "instant \<Rightarrow> int" where
  "unix_seconds i = i div Second"

definition sign :: "string \<Rightarrow> string \<Rightarrow> string" where
  "sign data key = b64_encode (hmac_sha256 key data)"

text \<open>\<^verbatim>\<open>Issue\<close> at the time \<open>now\<close>; encoding a string and an integer never fails.\<close>

definition issue :: "tokener \<Rightarrow> instant \<Rightarrow> string \<Rightarrow> string \<times> instant" where
  "issue T now cn =
     (let expiresAt = now + tk_ttl T;
          payload = jtext (claims_json \<lparr>cl_DeviceCN = cn, cl_ExpiresAt = unix_seconds expiresAt\<rparr>);
          enc = b64_encode payload
      in (enc @ ''.'' @ sign enc (tk_secret T), expiresAt))"

text \<open>\<^verbatim>\<open>strings.SplitN(s, ".", 2)\<close>.\<close>

definition split_dot :: "string \<Rightarrow> string list" where
  "split_dot s =
     (let a = takeWhile (\<lambda>c. c \<noteq> CHR ''.'') s; r = dropWhile (\<lambda>c. c \<noteq> CHR ''.'') s
      in if r = [] then [a] else [a, tl r])"

definition validate :: "tokener \<Rightarrow> instant \<Rightarrow> string \<Rightarrow> go_error + string" where
  "validate T now token =
     (case split_dot token of
        [enc, sig] \<Rightarrow>
          if sign enc (tk_secret T) \<noteq> sig then Inl (Errorf ''invalid token signature'')
          else (case b64_decode enc of
             None \<Rightarrow> Inl (Errorf ''decode token: '')
           | Some payload \<Rightarrow>
               (case unmarshal_claims payload of
                  None \<Rightarrow> Inl (Errorf ''unmarshal token: '')
                | Some c \<Rightarrow>
                    if unix_seconds now > cl_ExpiresAt c then Inl (Errorf ''token expired'')
                    else Inr (cl_DeviceCN c)))
      | _ \<Rightarrow> Inl (Errorf ''malformed token''))"

section \<open>The deny-list\<close>

record revocation_list =
  rl_revoked :: "(string, unit) gomap"

definition Revoke :: "string \<Rightarrow> revocation_list \<Rightarrow> revocation_list" where
  "Revoke cn r = r\<lparr>rl_revoked := AList.update cn () (rl_revoked r)\<rparr>"

definition NewRevocationList :: "string list \<Rightarrow> revocation_list" where
  "NewRevocationList initial =
     foldl (\<lambda>r cn. r\<lparr>rl_revoked := AList.update cn () (rl_revoked r)\<rparr>) \<lparr>rl_revoked = []\<rparr> initial"

definition IsRevoked :: "revocation_list \<Rightarrow> string \<Rightarrow> bool" where
  "IsRevoked r cn \<longleftrightarrow> map_of (rl_revoked r) cn \<noteq> None"

section \<open>TLS configurations\<close>

text \<open>
  \<open>pair\<close> is \<^verbatim>\<open>tls.LoadX509KeyPair\<close>, \<open>read\<close> is \<^verbatim>\<open>os.ReadFile\<close>, \<open>pool\<close> is \<^verbatim>\<open>AppendCertsFromPEM\<close> on a
  new pool.
\<close>

record ('cert, 'pool) tls_config =
  tls_Certificate :: 'cert
  tls_RootCAs :: "'pool option"
  tls_ClientCAs :: "'pool option"
  tls_RequireAndVerify :: bool

definition LoadClientTLS :: "(string \<Rightarrow> string \<Rightarrow> go_error + 'cert) \<Rightarrow> (string \<Rightarrow> go_error + string) \<Rightarrow>
    (string \<Rightarrow> 'pool option) \<Rightarrow> string \<Rightarrow> string \<Rightarrow> string \<Rightarrow> go_error + ('cert, 'pool) tls_config" where
  "LoadClientTLS pair read pool certPath keyPath caPath =
     (case pair certPath keyPath of
        Inl e \<Rightarrow> Inl (Errorf (''load client key pair: '' @ error_text e))
      | Inr cert \<Rightarrow>
          (case read caPath of
             Inl e \<Rightarrow> Inl (Errorf (''read CA cert: '' @ error_text e))
           | Inr pem \<Rightarrow>
               (case pool pem of
                  None \<Rightarrow> Inl (Errorf (''parse CA cert from '' @ caPath))
                | Some p \<Rightarrow> Inr \<lparr>tls_Certificate = cert, tls_RootCAs = Some p, tls_ClientCAs = None,
                    tls_RequireAndVerify = False\<rparr>)))"

definition LoadServerTLS :: "(string \<Rightarrow> string \<Rightarrow> go_error + 'cert) \<Rightarrow> (string \<Rightarrow> go_error + string) \<Rightarrow>
    (string \<Rightarrow> 'pool option) \<Rightarrow> string \<Rightarrow> string \<Rightarrow> string \<Rightarrow> go_error + ('cert, 'pool) tls_config" where
  "LoadServerTLS pair read pool serverCertPath serverKeyPath caCertPath =
     (case pair serverCertPath serverKeyPath of
        Inl e \<Rightarrow> Inl (Errorf (''load server key pair: '' @ error_text e))
      | Inr cert \<Rightarrow>
          (case read caCertPath of
             Inl e \<Rightarrow> Inl (Errorf (''read CA cert: '' @ error_text e))
           | Inr pem \<Rightarrow>
               (case pool pem of
                  None \<Rightarrow> Inl (Errorf (''parse CA cert from '' @ caCertPath))
                | Some p \<Rightarrow> Inr \<lparr>tls_Certificate = cert, tls_RootCAs = None, tls_ClientCAs = Some p,
                    tls_RequireAndVerify = True\<rparr>)))"

section \<open>The endpoint\<close>

record bootstrap_response =
  br_BrokerURL :: string
  br_Token :: string
  br_ExpiresAt :: instant

definition bootstrap_json :: "bootstrap_response \<Rightarrow> json option" where
  "bootstrap_json b =
     map_option (\<lambda>at. JObj [(''brokerURL'', JStr (br_BrokerURL b)), (''token'', JStr (br_Token b)), (''expiresAt'', at)])
       (time_json (br_ExpiresAt b))"

definition bootstrap_fields :: "string list" where
  "bootstrap_fields = [''brokerURL'', ''token'', ''expiresAt'']"

definition zero_bootstrap :: bootstrap_response where
  "zero_bootstrap = \<lparr>br_BrokerURL = [], br_Token = [], br_ExpiresAt = zero_time\<rparr>"

definition bootstrap_member :: "string \<Rightarrow> json \<Rightarrow> bootstrap_response \<Rightarrow> bootstrap_response option" where
  "bootstrap_member k v b =
     (case field_index bootstrap_fields k of
        None \<Rightarrow> Some b
      | Some i \<Rightarrow>
          if i = 0 then set_string (\<lambda>s r. r\<lparr>br_BrokerURL := s\<rparr>) v b
          else if i = 1 then set_string (\<lambda>s r. r\<lparr>br_Token := s\<rparr>) v b
          else set_time (\<lambda>x r. r\<lparr>br_ExpiresAt := x\<rparr>) v b)"

definition decode_bootstrap :: "string \<Rightarrow> bootstrap_response option" where
  "decode_bootstrap s =
     Option.bind (decode_first s) (\<lambda>v. case v of
         JNull \<Rightarrow> Some zero_bootstrap
       | JObj kvs \<Rightarrow> members bootstrap_member kvs zero_bootstrap
       | _ \<Rightarrow> None)"

text \<open>
  \<^verbatim>\<open>bootstrapHandler\<close>. \<open>tls\<close> is the TLS state of the request: the common names along each
  verified chain. \<^verbatim>\<open>VerifiedChains[0][0]\<close> of an empty chain would panic.
\<close>

definition bootstrapHandler :: "echo \<Rightarrow> string \<Rightarrow> tokener \<Rightarrow> revocation_list \<Rightarrow> instant \<Rightarrow>
    string list list option \<Rightarrow> (api_error + http_response) outcome" where
  "bootstrapHandler E brokerURL T R now tls =
     (case tls of
        None \<Rightarrow> Ret (Inl (HTTPError 401 ''client certificate required'' None))
      | Some [] \<Rightarrow> Ret (Inl (HTTPError 401 ''client certificate required'' None))
      | Some ([] # _) \<Rightarrow> Panic
      | Some ((cn # _) # _) \<Rightarrow>
          if IsRevoked R cn then Ret (Inl (HTTPError 403 ''device revoked'' None))
          else let (token, expiresAt) = issue T now cn
               in Ret (eo_json E 200 (map_option jtext
                    (bootstrap_json \<lparr>br_BrokerURL = brokerURL, br_Token = token, br_ExpiresAt = expiresAt\<rparr>))))"

text \<open>The token lifetime \<^verbatim>\<open>NewManager\<close> uses: fifteen minutes unless a positive one is configured.\<close>

definition token_ttl :: "duration \<Rightarrow> duration" where
  "token_ttl configured = (if configured \<le> 0 then 15 * 60 * Second else configured)"

section \<open>The handshake of a worker\<close>

type_synonym 'm bootstrap_net = "ctx \<Rightarrow> 'm \<Rightarrow> ((go_error + http_response) \<times> 'm) outcome"

text \<open>\<open>bad_url\<close> is the error \<^verbatim>\<open>http.NewRequestWithContext\<close> reports for the configured URL.\<close>

definition doBootstrapOnce :: "go_error option \<Rightarrow> 'm bootstrap_net \<Rightarrow> ctx \<Rightarrow> 'm \<Rightarrow>
    ((go_error + bootstrap_response) \<times> 'm) outcome" where
  "doBootstrapOnce bad_url net x m =
     (case bad_url of
        Some e \<Rightarrow> Ret (Inl e, m)
      | None \<Rightarrow>
          obind (net x m) (\<lambda>(r, m1).
            case r of
              Inl e \<Rightarrow> Ret (Inl e, m1)
            | Inr resp \<Rightarrow>
                if rs_Status resp \<noteq> 200
                then Ret (Inl (Errorf (''bootstrap endpoint returned '' @ int_text (rs_Status resp) @ '': '' @ rs_Body resp)), m1)
                else (case decode_bootstrap (rs_Body resp) of
                        None \<Rightarrow> Ret (Inl (Errorf ''decode bootstrap response: ''), m1)
                      | Some b \<Rightarrow> Ret (Inr b, m1))))"

text \<open>
  \<^verbatim>\<open>doBootstrapWithRetry\<close>: the contexts at the check, the wait and the call of each attempt,
  counted from \<open>attempt\<close> with \<open>left\<close> attempts to go. The result carries the waits that elapsed.
\<close>

record attempt_env =
  ae_check :: ctx
  ae_wait :: ctx
  ae_call :: ctx

fun bootstrap_attempts :: "go_error option \<Rightarrow> 'm bootstrap_net \<Rightarrow> (nat \<Rightarrow> attempt_env) \<Rightarrow> nat \<Rightarrow> nat \<Rightarrow> go_error \<Rightarrow>
    'm \<Rightarrow> ((duration list \<times> (go_error + bootstrap_response)) \<times> 'm) outcome" where
  "bootstrap_attempts bad net env attempt 0 lastErr m =
     Ret (([], Inl (Errorf (''bootstrap failed after 5 attempts: '' @ error_text lastErr))), m)"
| "bootstrap_attempts bad net env attempt (Suc left) lastErr m =
     (let e = env attempt;
          call = (\<lambda>ds m. obind (doBootstrapOnce bad net (ae_call e) m) (\<lambda>(r, m1).
             case r of
               Inr b \<Rightarrow> Ret ((ds, Inr b), m1)
             | Inl err \<Rightarrow> omap (\<lambda>((ds', r'), m2). ((ds @ ds', r'), m2))
                   (bootstrap_attempts bad net env (Suc attempt) left err m1)))
      in if ctx_done (ae_check e) then Ret (([], Inl (ctx_err (ae_check e))), m)
         else if attempt > 0 then
           obind (select (ctx_pick (ae_wait e)) (on_done (ae_wait e) True @ [False])) (\<lambda>stop.
             if stop then Ret (([], Inl (ctx_err (ae_wait e))), m)
             else call [int attempt * (500 * Millisecond)] m)
         else call [] m)"

definition doBootstrapWithRetry :: "go_error option \<Rightarrow> 'm bootstrap_net \<Rightarrow> (nat \<Rightarrow> attempt_env) \<Rightarrow> 'm \<Rightarrow>
    ((duration list \<times> (go_error + bootstrap_response)) \<times> 'm) outcome" where
  "doBootstrapWithRetry bad net env m = bootstrap_attempts bad net env 0 5 (Errorf []) m"

section \<open>Renewal\<close>

text \<open>
  \<^verbatim>\<open>time.Duration(float64(d) * 0.8)\<close>. A non-negative \<^verbatim>\<open>float64\<close> is a pair of an integer of at most
  53 bits and an exponent of two; \<open>fl_round\<close> rounds to it, to nearest and ties to even. The
  constant is the \<^verbatim>\<open>float64\<close> nearest to 0.8; the conversion back truncates towards zero.
\<close>

function excess_bits :: "int \<Rightarrow> nat" where
  "excess_bits m = (if m < 2 ^ 53 then 0 else Suc (excess_bits (m div 2)))"
  by auto
termination by (relation "measure nat") simp_all

declare excess_bits.simps [simp del]

definition fl_round :: "int \<Rightarrow> int \<times> nat" where
  "fl_round m =
     (let k = excess_bits m; q = m div 2 ^ k; r = m mod 2 ^ k
      in (if 2 * r > 2 ^ k \<or> 2 * r = 2 ^ k \<and> odd q then q + 1 else q, k))"

definition fl_four_fifths :: "int \<Rightarrow> int" where
  "fl_four_fifths d =
     (let (m, e) = fl_round \<bar>d\<bar>;
          (m', e') = fl_round (m * 3602879701896397)
      in sgn d * (m' * 2 ^ (e + e') div 2 ^ 52))"

definition renew_in :: "duration \<Rightarrow> duration" where
  "renew_in remaining = max (fl_four_fifths remaining) Second"

text \<open>
  The renewal goroutine over the turns given: the time it reads, the context of the wait and
  those of the handshake. It returns when the context ends; a failed handshake keeps the
  current response. The result: whether it still runs, the waits, the current response.
\<close>

record renew_turn =
  rn_now :: instant
  rn_wait :: ctx
  rn_env :: "nat \<Rightarrow> attempt_env"

fun renew_loop :: "go_error option \<Rightarrow> 'm bootstrap_net \<Rightarrow> renew_turn list \<Rightarrow> bootstrap_response \<Rightarrow> 'm \<Rightarrow>
    ((bool \<times> duration list \<times> bootstrap_response) \<times> 'm) outcome" where
  "renew_loop bad net [] current m = Ret ((True, [], current), m)"
| "renew_loop bad net (t # ts) current m =
     (let renewIn = renew_in (br_ExpiresAt current - rn_now t)
      in obind (select (ctx_pick (rn_wait t)) (on_done (rn_wait t) True @ [False])) (\<lambda>stop.
           if stop then Ret ((False, [], current), m)
           else obind (doBootstrapWithRetry bad net (rn_env t) m) (\<lambda>((ds, r), m1).
                  omap (\<lambda>((go, ws, cur), m2). ((go, renewIn # ws, cur), m2))
                    (renew_loop bad net ts (case r of Inl err \<Rightarrow> current | Inr b \<Rightarrow> b) m1))))"

section \<open>Tokens: what is accepted\<close>

lemma claims_round:
  assumes "valid_utf8 cn" and "in_int64 n"
  shows "unmarshal_claims (jtext (claims_json \<lparr>cl_DeviceCN = cn, cl_ExpiresAt = n\<rparr>)) =
    Some \<lparr>cl_DeviceCN = cn, cl_ExpiresAt = n\<rparr>"
proof -
  have idx: "field_index claims_fields ''sub'' = Some 0" "field_index claims_fields ''exp'' = Some 1"
    by code_simp+
  let ?v = "claims_json \<lparr>cl_DeviceCN = cn, cl_ExpiresAt = n\<rparr>"
  have "valid_utf8 ''sub''" "valid_utf8 ''exp''" by simp_all
  then have "jwf ?v" using assms by (auto simp: claims_json_def)
  moreover have "(10000::nat) = Suc (Suc 9998)" by simp
  then have "jdepth_le 10000 ?v" by (simp add: claims_json_def)
  ultimately have "parse_json (jtext ?v) = Some ?v" by (rule parse_json_jtext)
  then show ?thesis
    using assms by (simp add: unmarshal_claims_def) (simp add: claims_json_def claims_member_def idx set_string_def set_int_def parse_int64_int_text)
qed

lemma split_dot_once:
  assumes "\<forall>c \<in> set a. c \<noteq> CHR ''.''"
  shows "split_dot (a @ ''.'' @ b) = [a, b]"
  using assms by (simp add: split_dot_def)

lemma split_dot_two: "split_dot s = [a, b] \<Longrightarrow> s = a @ ''.'' @ b"
proof -
  assume "split_dot s = [a, b]"
  then have r: "dropWhile (\<lambda>c. c \<noteq> CHR ''.'') s \<noteq> []" "a = takeWhile (\<lambda>c. c \<noteq> CHR ''.'') s"
    "b = tl (dropWhile (\<lambda>c. c \<noteq> CHR ''.'') s)"
    by (auto simp: split_dot_def Let_def split: if_splits)
  then have "hd (dropWhile (\<lambda>c. c \<noteq> CHR ''.'') s) = CHR ''.''" using hd_dropWhile by blast
  with r have "dropWhile (\<lambda>c. c \<noteq> CHR ''.'') s = ''.'' @ b" by (metis append_Cons append_Nil list.collapse)
  with r(2) takeWhile_dropWhile_id [of "\<lambda>c. c \<noteq> CHR ''.''" s] show "s = a @ ''.'' @ b" by simp
qed

lemma validate_issue:
  assumes "valid_utf8 cn" and "in_int64 (unix_seconds (t0 + tk_ttl T))"
  shows "validate T now (fst (issue T t0 cn)) =
    (if unix_seconds now > unix_seconds (t0 + tk_ttl T) then Inl (Errorf ''token expired'') else Inr cn)"
proof -
  have "split_dot (b64_encode p @ ''.'' @ sg) = [b64_encode p, sg]" for p sg
    by (rule split_dot_once) (blast dest: b64_encode_alphabet)
  then show ?thesis
    by (simp add: validate_def issue_def Let_def b64_decode_encode claims_round [OF assms])
qed

text \<open>A token is accepted exactly when it carries the secret's code over its own payload and is not too old.\<close>

lemma validate_iff:
  "validate T now token = Inr cn \<longleftrightarrow>
     (\<exists>enc payload c. split_dot token = [enc, sign enc (tk_secret T)] \<and> b64_decode enc = Some payload \<and>
        unmarshal_claims payload = Some c \<and> cn = cl_DeviceCN c \<and> unix_seconds now \<le> cl_ExpiresAt c)"
  by (auto simp: validate_def split: list.splits option.splits if_splits)

section \<open>The deny-list as a set\<close>

lemma map_of_updates:
  "map_of (rl_revoked (foldl (\<lambda>r cn. r\<lparr>rl_revoked := AList.update cn () (rl_revoked r)\<rparr>) r cns)) cn \<noteq> None \<longleftrightarrow>
     cn \<in> set cns \<or> map_of (rl_revoked r) cn \<noteq> None"
  by (induction cns arbitrary: r) (auto simp: AList.update_conv')

lemma is_revoked_iff:
  "IsRevoked (fold Revoke cns (NewRevocationList initial)) cn \<longleftrightarrow> cn \<in> set initial \<union> set cns"
proof -
  have "IsRevoked (fold Revoke cns r) cn \<longleftrightarrow> cn \<in> set cns \<or> IsRevoked r cn" for r
    by (induction cns arbitrary: r) (auto simp: IsRevoked_def Revoke_def AList.update_conv')
  moreover have "IsRevoked (NewRevocationList initial) cn \<longleftrightarrow> cn \<in> set initial"
    unfolding IsRevoked_def NewRevocationList_def map_of_updates by simp
  ultimately show ?thesis by auto
qed

section \<open>The renewal delay\<close>

lemma excess_bits_bound: "0 \<le> m \<Longrightarrow> 0 < excess_bits m \<Longrightarrow> 2 ^ excess_bits m * 2 ^ 52 \<le> m"
proof (induction m rule: excess_bits.induct)
  case (1 m)
  then have big: "\<not> m < 2 ^ 53" by (auto simp: excess_bits.simps [of m] split: if_splits)
  then have e: "excess_bits m = Suc (excess_bits (m div 2))" by (simp add: excess_bits.simps [of m])
  show ?case
  proof (cases "excess_bits (m div 2) = 0")
    case True
    with e big show ?thesis by simp
  next
    case False
    with 1(1) [OF big] 1(2) have "2 ^ excess_bits (m div 2) * 2 ^ 52 \<le> m div 2" by simp
    with e show ?thesis by simp
  qed
qed

text \<open>Rounding to 53 bits changes a number by a relative error of at most one in 2 to the 53.\<close>

lemma fl_round_bound:
  assumes "0 \<le> m" and "fl_round m = (q', k)"
  shows "0 \<le> q'" "\<bar>q' * 2 ^ k - m\<bar> * 2 ^ 53 \<le> m"
proof -
  define q r where q: "q = m div 2 ^ k" and r: "r = m mod 2 ^ k"
  have k: "k = excess_bits m" and q': "q' = (if 2 * r > 2 ^ k \<or> 2 * r = 2 ^ k \<and> odd q then q + 1 else q)"
    using assms(2) by (auto simp: fl_round_def Let_def q r split: if_splits)
  have m: "m = q * 2 ^ k + r" unfolding q r by (rule div_mult_mod_eq [symmetric])
  have rk: "0 \<le> r" "r < 2 ^ k" by (simp_all add: r)
  have "0 \<le> q" using assms(1) by (simp add: q pos_imp_zdiv_nonneg_iff)
  then show "0 \<le> q'" by (simp add: q')
  have err: "2 * \<bar>q' * 2 ^ k - m\<bar> \<le> 2 ^ k"
  proof (cases "2 * r > 2 ^ k \<or> 2 * r = 2 ^ k \<and> odd q")
    case True
    then have "q' * 2 ^ k - m = 2 ^ k - r" by (simp add: q' m algebra_simps)
    with rk True show ?thesis by auto
  next
    case False
    then have "q' * 2 ^ k - m = - r" by (simp add: q' m)
    with rk False show ?thesis by auto
  qed
  show "\<bar>q' * 2 ^ k - m\<bar> * 2 ^ 53 \<le> m"
  proof (cases "k = 0")
    case True
    then have "r = 0" using rk by simp
    with True assms(1) show ?thesis by (simp add: q' m)
  next
    case False
    then have "2 ^ k * 2 ^ 52 \<le> m" using excess_bits_bound [OF assms(1)] k by simp
    with err show ?thesis by simp
  qed
qed

lemma abs_scaled:
  fixes a b c :: int
  assumes "\<bar>a - b\<bar> * 2 ^ n \<le> c"
  shows "(a - b) * 2 ^ n \<le> c" "(b - a) * 2 ^ n \<le> c"
proof -
  have "(a - b) * 2 ^ n \<le> \<bar>a - b\<bar> * 2 ^ n" "(b - a) * 2 ^ n \<le> \<bar>a - b\<bar> * 2 ^ n"
    by (rule mult_right_mono, simp_all)+
  with assms show "(a - b) * 2 ^ n \<le> c" "(b - a) * 2 ^ n \<le> c" by linarith+
qed

lemma fl_four_fifths_bounds:
  assumes "0 \<le> d"
  shows "0 \<le> fl_four_fifths d" "100 * fl_four_fifths d \<le> 81 * d" "79 * d \<le> 100 * fl_four_fifths d + 100"
proof -
  obtain m e where m: "fl_round d = (m, e)" by (cases "fl_round d")
  obtain m' e' where m': "fl_round (m * 3602879701896397) = (m', e')" by (cases "fl_round (m * 3602879701896397)")
  note b = fl_round_bound [OF assms m]
  have "0 \<le> m * 3602879701896397" using b(1) by simp
  note b' = fl_round_bound [OF this m']
  define x y where x: "x = m * 2 ^ e" and y: "y = m' * 2 ^ (e + e')"
  have xd: "\<bar>x - d\<bar> * 2 ^ 53 \<le> d" using b(2) by (simp add: x)
  have "\<bar>y - x * 3602879701896397\<bar> * 2 ^ 53 = \<bar>m' * 2 ^ e' - m * 3602879701896397\<bar> * 2 ^ 53 * 2 ^ e"
  proof -
    have "y - x * 3602879701896397 = (m' * 2 ^ e' - m * 3602879701896397) * 2 ^ e"
      by (simp add: x y power_add algebra_simps)
    then show ?thesis by (simp add: abs_mult)
  qed
  also have "\<dots> \<le> m * 3602879701896397 * 2 ^ e" using b'(2) by (simp add: mult_right_mono)
  finally have yx: "\<bar>y - x * 3602879701896397\<bar> * 2 ^ 53 \<le> x * 3602879701896397" by (simp add: x mult_ac)
  have f: "fl_four_fifths d = y div 2 ^ 52"
  proof (cases "d = 0")
    case True
    with xd have "x = 0" by simp
    with yx True show ?thesis by (simp add: fl_four_fifths_def m m')
  qed (use assms m m' in \<open>simp add: fl_four_fifths_def y\<close>)
  define z where z: "z = y div 4503599627370496"
  have fz: "fl_four_fifths d = z" by (simp add: f z)
  have "4503599627370496 * z \<le> y" "y < 4503599627370496 * z + 4503599627370496" unfolding z by linarith+
  moreover have "9007199254740992 * x \<le> 9007199254740993 * d" "9007199254740991 * d \<le> 9007199254740992 * x"
    using abs_scaled [OF xd] by (simp_all add: left_diff_distrib)
  moreover have "9007199254740992 * y \<le> 9007199254740993 * (3602879701896397 * x)"
    "9007199254740991 * (3602879701896397 * x) \<le> 9007199254740992 * y"
    using abs_scaled [OF yx] by (simp_all add: left_diff_distrib)
  ultimately have "0 \<le> z \<and> 100 * z \<le> 81 * d \<and> 79 * d \<le> 100 * z + 100"
    using assms by (intro conjI; linarith)
  then show "0 \<le> fl_four_fifths d" "100 * fl_four_fifths d \<le> 81 * d" "79 * d \<le> 100 * fl_four_fifths d + 100"
    by (simp_all add: fz)
qed

text \<open>
  The worker never waits less than a second, and while more than a second is left it renews
  before the token runs out.
\<close>

lemma renew_in_bounds:
  shows "Second \<le> renew_in d" and "Second < d \<Longrightarrow> renew_in d < d"
    and "2 * Second \<le> d \<Longrightarrow> 79 * d \<le> 100 * renew_in d + 100 \<and> 100 * renew_in d \<le> 81 * d"
  using fl_four_fifths_bounds [of d] by (auto simp: renew_in_def max_def)

section \<open>The handshake, both sides\<close>

lemma bootstrap_field_index:
  "field_index bootstrap_fields ''brokerURL'' = Some 0" "field_index bootstrap_fields ''token'' = Some 1"
  "field_index bootstrap_fields ''expiresAt'' = Some 2"
  by code_simp+

lemma decode_bootstrap_json:
  assumes "bootstrap_json b = Some v" and "valid_utf8 (br_BrokerURL b)" and "valid_utf8 (br_Token b)"
  shows "decode_bootstrap (jtext v @ [newline]) = Some b"
proof -
  obtain at where at: "time_text (br_ExpiresAt b) = Some at"
    and v: "v = JObj [(''brokerURL'', JStr (br_BrokerURL b)), (''token'', JStr (br_Token b)), (''expiresAt'', JStr at)]"
    using assms(1) by (auto simp: bootstrap_json_def time_json_def)
  have "valid_utf8 ''brokerURL''" "valid_utf8 ''token''" "valid_utf8 ''expiresAt''" by simp_all
  with v assms time_text_valid [OF at] have "jwf v" by simp
  moreover have "(10000::nat) = Suc (Suc 9998)" by simp
  then have "jdepth_le 10000 v" by (simp add: v)
  ultimately have "decode_first (jtext v @ [newline]) = Some v" by (rule decode_first_jtext) simp
  with v parse_time_text [OF at] show ?thesis
    by (simp add: decode_bootstrap_def bootstrap_member_def bootstrap_field_index set_string_def set_time_def)
qed

lemma ascii_valid_utf8: "list_all (\<lambda>c. byte c < 128) s \<Longrightarrow> valid_utf8 s"
  by (induction s rule: valid_utf8.induct) (auto simp: utf8_len_def list_all_iff split: if_splits dest: in_set_dropD)

lemma issue_utf8: "valid_utf8 (fst (issue T now cn))"
  by (rule ascii_valid_utf8) (simp add: issue_def Let_def sign_def b64_encode_ascii)

text \<open>The endpoint reached without loss by a device with the given verified chains.\<close>

definition handshake_net :: "echo \<Rightarrow> string \<Rightarrow> tokener \<Rightarrow> revocation_list \<Rightarrow> instant \<Rightarrow> string list list option \<Rightarrow>
    'm bootstrap_net" where
  "handshake_net E url T R now tls x m = omap (\<lambda>r. (Inr (serve E r), m)) (bootstrapHandler E url T R now tls)"

lemma bootstrap_once_refused:
  assumes "echo_ok E" and "bootstrapHandler E url T R now tls = Ret (Inl (HTTPError code msg None))" and "code \<noteq> 200"
  shows "\<exists>err. doBootstrapOnce None (handshake_net E url T R now tls) x m = Ret (Inl err, m)"
  using assms echo_laws(3) [OF assms(1)] by (simp add: doBootstrapOnce_def handshake_net_def)

lemma bootstrap_once_handler:
  assumes E: "echo_ok E" and utf: "valid_utf8 url" and time: "time_text (now + tk_ttl T) \<noteq> None"
    and cn: "\<not> IsRevoked R cn"
  shows "doBootstrapOnce None (handshake_net E url T R now (Some ((cn # cns) # rest))) x m =
    Ret (Inr \<lparr>br_BrokerURL = url, br_Token = fst (issue T now cn), br_ExpiresAt = now + tk_ttl T\<rparr>, m)"
proof -
  let ?b = "\<lparr>br_BrokerURL = url, br_Token = fst (issue T now cn), br_ExpiresAt = now + tk_ttl T\<rparr>"
  obtain at where at: "time_text (now + tk_ttl T) = Some at" using time by blast
  then obtain v where v: "bootstrap_json ?b = Some v" by (simp add: bootstrap_json_def time_json_def)
  have "snd (issue T now cn) = now + tk_ttl T" by (simp add: issue_def Let_def)
  then have "bootstrapHandler E url T R now (Some ((cn # cns) # rest)) = Ret (Inr (response 200 (jtext v @ [newline])))"
    using cn v echo_laws(1) [OF E] by (simp add: bootstrapHandler_def case_prod_beta)
  moreover have "decode_bootstrap (jtext v @ [newline]) = Some ?b"
    by (rule decode_bootstrap_json [OF v]) (simp_all add: utf issue_utf8)
  ultimately show ?thesis by (simp add: doBootstrapOnce_def handshake_net_def)
qed

section \<open>The retries\<close>

text \<open>One attempt, after the wait.\<close>

lemma bootstrap_attempt_call:
  assumes "obind (doBootstrapOnce bad net x m) (\<lambda>(r, m1).
      case r of
        Inr b \<Rightarrow> Ret ((ws, Inr b), m1)
      | Inl err \<Rightarrow> omap (\<lambda>((ds', r'), m2). ((ws @ ds', r'), m2)) (f err m1)) = Ret ((ds, r), m')"
  obtains "ds = ws" | ds' err m1 where "ds = ws @ ds'" "f err m1 = Ret ((ds', r), m')"
proof (cases "doBootstrapOnce bad net x m")
  case (Ret rm)
  obtain q m1 where rm: "rm = (q, m1)" by (cases rm)
  show ?thesis
  proof (cases q)
    case (Inl err)
    with assms Ret rm obtain ds' where "ds = ws @ ds'" "f err m1 = Ret ((ds', r), m')" by auto
    then show ?thesis by (rule that(2))
  qed (use assms Ret rm that(1) in auto)
qed (use assms in auto)

lemma bootstrap_attempts_waits:
  "0 < attempt \<Longrightarrow> bootstrap_attempts bad net env attempt left err m = Ret ((ds, r), m') \<Longrightarrow>
     length ds \<le> left \<and> ds = map (\<lambda>i. int (attempt + i) * (500 * Millisecond)) [0..<length ds]"
proof (induction left arbitrary: attempt err m ds)
  case (Suc left)
  show ?case
  proof (cases "ds = []")
    case False
    with Suc.prems have "obind (doBootstrapOnce bad net (ae_call (env attempt)) m) (\<lambda>(r, m1).
        case r of
          Inr b \<Rightarrow> Ret (([int attempt * (500 * Millisecond)], Inr b), m1)
        | Inl err \<Rightarrow> omap (\<lambda>((ds', r'), m2). (([int attempt * (500 * Millisecond)] @ ds', r'), m2))
            (bootstrap_attempts bad net env (Suc attempt) left err m1)) = Ret ((ds, r), m')"
      by (auto simp: Let_def simp del: obind_eq_Ret split: if_splits)
        (auto simp: select_def split: if_splits)
    then show ?thesis
    proof (rule bootstrap_attempt_call)
      fix ds' err1 m1
      assume "ds = [int attempt * (500 * Millisecond)] @ ds'"
        "bootstrap_attempts bad net env (Suc attempt) left err1 m1 = Ret ((ds', r), m')"
      with Suc.IH [of "Suc attempt" err1 m1 ds'] show ?thesis by (simp add: map_upt_Suc algebra_simps del: upt_Suc)
    qed simp
  qed simp
qed simp

lemma bootstrap_retry_waits:
  assumes "doBootstrapWithRetry bad net env m = Ret ((ds, r), m')"
  shows "length ds \<le> 4 \<and> ds = map (\<lambda>i. int (Suc i) * (500 * Millisecond)) [0..<length ds]"
proof (cases "ds = []")
  case False
  have "bootstrap_attempts bad net env 0 (Suc 4) (Errorf []) m = Ret ((ds, r), m')"
    using assms by (simp add: doBootstrapWithRetry_def del: bootstrap_attempts.simps)
  with False have "obind (doBootstrapOnce bad net (ae_call (env 0)) m) (\<lambda>(r, m1).
        case r of
          Inr b \<Rightarrow> Ret (([], Inr b), m1)
        | Inl err \<Rightarrow> omap (\<lambda>((ds', r'), m2). (([] @ ds', r'), m2))
            (bootstrap_attempts bad net env (Suc 0) 4 err m1)) = Ret ((ds, r), m')"
    unfolding bootstrap_attempts.simps Let_def by (simp del: obind_eq_Ret split: if_splits)
  then show ?thesis
  proof (rule bootstrap_attempt_call)
    fix ds' err1 m1
    assume "ds = [] @ ds'" "bootstrap_attempts bad net env (Suc 0) 4 err1 m1 = Ret ((ds', r), m')"
    with bootstrap_attempts_waits [of "Suc 0" bad net env 4 err1 m1 ds' r m'] show ?thesis by simp
  qed simp
qed simp

lemma bootstrap_attempts_return:
  assumes "\<And>x m. \<exists>r m1. net x m = Ret (r, m1)"
  shows "\<exists>r m'. bootstrap_attempts bad net env attempt left err m = Ret (r, m')"
proof (induction left arbitrary: attempt err m)
  case (Suc left)
  have once: "\<exists>r m1. doBootstrapOnce bad net x m = Ret (r, m1)" for x m
  proof (cases bad)
    case None
    obtain q m1 where q: "net x m = Ret (q, m1)" using assms by blast
    with None show ?thesis by (cases q) (simp_all add: doBootstrapOnce_def split: option.split)
  qed (simp add: doBootstrapOnce_def)
  have stop: "\<exists>b. select (ctx_pick x) (on_done x True @ [False]) = Ret b" for x
    by (simp add: select_def)
  show ?case
  proof (cases "ctx_done (ae_check (env attempt))")
    case False
    obtain r m1 where r: "doBootstrapOnce bad net (ae_call (env attempt)) m = Ret (r, m1)" using once by blast
    obtain b where b: "select (ctx_pick (ae_wait (env attempt))) (on_done (ae_wait (env attempt)) True @ [False]) = Ret b"
      using stop by blast
    obtain rr m2 where "bootstrap_attempts bad net env (Suc attempt) left (case r of Inl e \<Rightarrow> e | Inr _ \<Rightarrow> err) m1 = Ret (rr, m2)"
      using Suc.IH by blast
    with False r b show ?thesis by (cases r) (auto simp: Let_def split: prod.split)
  qed simp
qed simp

end
