(* ===== verification/Postgres.thy ===== *)
theory Postgres
  imports TaskJson Store
begin

text \<open>
  The PostgreSQL store of patterns 5, 6 and 7, \<^verbatim>\<open>patterns/p05/internal/postgres/store.go\<close> (the
  two copies in p06 and p07 are the same file).

  The database and its driver are not part of the repository: \<open>sql\<close> has one operation per
  statement of the code, and the locale \<open>sql_table\<close> states the documented behaviour of those
  statements on the table of the code's schema: a primary key, updates that touch the row
  with the given key if there is one, \<^verbatim>\<open>TIMESTAMPTZ\<close> columns that hold a time to \<open>at_us\<close>, and a
  \<^verbatim>\<open>JSONB\<close> column that keeps a JSON value up to the order of object members.

  \<^item> \<open>pg_run_spec\<close>: over any sequence of operations the store observes what a map does in
    which times are rounded and updates of unknown IDs are ignored.
  \<^item> \<open>rows_table\<close> is a table of this kind; it interprets the locale.
\<close>

section \<open>Statements\<close>

record row =
  rw_id :: string
  rw_name :: string
  rw_status :: string
  rw_user_id :: string
  rw_stages :: string
  rw_submitted_at :: instant
  rw_dispatched_at :: "instant option"
  rw_completed_at :: "instant option"

text \<open>
  In order: the schema; \<^verbatim>\<open>INSERT INTO tasks\<close>; \<^verbatim>\<open>SELECT ... WHERE id = $1\<close>; \<^verbatim>\<open>SELECT ... ORDER BY
  submitted_at\<close>, a failing query or rows that may each fail to scan; \<^verbatim>\<open>UPDATE tasks SET status =
  $1, completed_at = $2 WHERE id = $3\<close>; \<^verbatim>\<open>UPDATE tasks SET dispatched_at = $1 WHERE id = $2\<close>.
\<close>

record 'db sql =
  sq_schema :: "'db \<Rightarrow> go_error option \<times> 'db"
  sq_insert :: "row \<Rightarrow> 'db \<Rightarrow> go_error option \<times> 'db"
  sq_select :: "string \<Rightarrow> 'db \<Rightarrow> go_error + row"
  sq_select_all :: "'db \<Rightarrow> go_error + (go_error + row) list"
  sq_update_status :: "string \<Rightarrow> instant option \<Rightarrow> string \<Rightarrow> 'db \<Rightarrow> go_error option \<times> 'db"
  sq_update_dispatched :: "instant \<Rightarrow> string \<Rightarrow> 'db \<Rightarrow> go_error option \<times> 'db"

section \<open>The store\<close>

definition pg_New :: "'db sql \<Rightarrow> 'db \<Rightarrow> (go_error + unit) \<times> 'db" where
  "pg_New Q db =
     (case sq_schema Q db of
        (Some e, db1) \<Rightarrow> (Inl (Errorf (''migrate schema: '' @ error_text e)), db1)
      | (None, db1) \<Rightarrow> (Inr (), db1))"

definition stages_text :: "stage list \<Rightarrow> string" where
  "stages_text ss = jtext (JArr (map stage_json ss))"

definition task_row :: "task \<Rightarrow> row" where
  "task_row t =
     \<lparr>rw_id = task_ID t, rw_name = task_Name t, rw_status = task_Status t, rw_user_id = task_UserID t,
      rw_stages = stages_text (task_Stages t), rw_submitted_at = task_SubmittedAt t,
      rw_dispatched_at = task_DispatchedAt t, rw_completed_at = task_CompletedAt t\<rparr>"

definition pg_create :: "'db sql \<Rightarrow> task \<Rightarrow> 'db \<Rightarrow> go_error option \<times> 'db" where
  "pg_create Q t db = sq_insert Q (task_row t) db"

definition scanTask :: "go_error + row \<Rightarrow> task option" where
  "scanTask x =
     (case x of
        Inl e \<Rightarrow> None
      | Inr r \<Rightarrow>
          Option.bind (parse_json (rw_stages r)) (\<lambda>v.
            set_stages v
              \<lparr>task_ID = rw_id r, task_Name = rw_name r, task_Status = rw_status r, task_UserID = rw_user_id r,
               task_SubmittedAt = rw_submitted_at r, task_DispatchedAt = rw_dispatched_at r,
               task_CompletedAt = rw_completed_at r, task_Stages = []\<rparr>))"

definition pg_get :: "'db sql \<Rightarrow> string \<Rightarrow> 'db \<Rightarrow> task option" where
  "pg_get Q i db = scanTask (sq_select Q i db)"

definition pg_list :: "'db sql \<Rightarrow> nat \<Rightarrow> 'db \<Rightarrow> task list" where
  "pg_list Q p db =
     (case sq_select_all Q db of Inl e \<Rightarrow> [] | Inr rs \<Rightarrow> List.map_filter scanTask rs)"

definition pg_set_status :: "'db sql \<Rightarrow> instant \<Rightarrow> string \<Rightarrow> string \<Rightarrow> 'db \<Rightarrow> go_error option \<times> 'db" where
  "pg_set_status Q now i st db =
     sq_update_status Q st (if st = TaskCompleted \<or> st = TaskFailed then Some now else None) i db"

definition pg_set_dispatched_at :: "'db sql \<Rightarrow> string \<Rightarrow> instant \<Rightarrow> 'db \<Rightarrow> go_error option \<times> 'db" where
  "pg_set_dispatched_at Q i at db = sq_update_dispatched Q at i db"

definition pg_store_ops :: "'db sql \<Rightarrow> 'db task_store" where
  "pg_store_ops Q =
     \<lparr>ts_create = pg_create Q, ts_get = pg_get Q, ts_list = pg_list Q, ts_set_status = pg_set_status Q,
      ts_set_dispatched_at = pg_set_dispatched_at Q\<rparr>"

section \<open>The table\<close>

text \<open>The tasks the table can hold: encodable, without a zero byte in a text.\<close>

definition no_nul :: "string \<Rightarrow> bool" where
  "no_nul s \<longleftrightarrow> (\<forall>c \<in> set s. byte c \<noteq> 0)"

definition pg_storable :: "task \<Rightarrow> bool" where
  "pg_storable t \<longleftrightarrow> task_encodable t \<and> no_nul (task_ID t) \<and> no_nul (task_Name t) \<and> no_nul (task_Status t) \<and>
     no_nul (task_UserID t) \<and> list_all (\<lambda>s. no_nul (stage_Name s)) (task_Stages t)"

text \<open>What is read back for a column: times to the resolution \<open>at_us\<close>, the stages as \<open>jsonb\<close> of the text.\<close>

definition stored_row :: "(instant \<Rightarrow> instant) \<Rightarrow> (string \<Rightarrow> string) \<Rightarrow> row \<Rightarrow> row" where
  "stored_row at_us jsonb r =
     r\<lparr>rw_stages := jsonb (rw_stages r), rw_submitted_at := at_us (rw_submitted_at r),
       rw_dispatched_at := map_option at_us (rw_dispatched_at r),
       rw_completed_at := map_option at_us (rw_completed_at r)\<rparr>"

locale sql_table =
  fixes Q :: "'db sql"
    and up :: "'db \<Rightarrow> bool"
    and rows :: "'db \<Rightarrow> string \<Rightarrow> row option"
    and at_us :: "instant \<Rightarrow> instant"
    and jsonb :: "string \<Rightarrow> string"
  assumes insert: "up db \<Longrightarrow> \<exists>e db'. sq_insert Q r db = (e, db') \<and> up db' \<and>
        rows db' = (if e = None then (rows db)(rw_id r \<mapsto> stored_row at_us jsonb r) else rows db)"
    and insert_new: "up db \<Longrightarrow> pg_storable t \<Longrightarrow> rows db (task_ID t) = None \<Longrightarrow> fst (sq_insert Q (task_row t) db) = None"
    and insert_dup: "up db \<Longrightarrow> fst (sq_insert Q r db) = None \<Longrightarrow> rows db (rw_id r) = None"
    and select_found: "up db \<Longrightarrow> rows db i = Some r \<Longrightarrow> sq_select Q i db = Inr r"
    and select_absent: "up db \<Longrightarrow> rows db i = None \<Longrightarrow> \<exists>e. sq_select Q i db = Inl e"
    and select_all: "up db \<Longrightarrow>
      \<exists>rs. sq_select_all Q db = Inr (map Inr rs) \<and> distinct (map rw_id rs) \<and> set rs = ran (rows db) \<and>
        sorted (map rw_submitted_at rs)"
    and row_keys: "up db \<Longrightarrow> rows db i = Some r \<Longrightarrow> rw_id r = i"
    and finite_rows: "up db \<Longrightarrow> finite (dom (rows db))"
    and update_status: "up db \<Longrightarrow>
      \<exists>db'. sq_update_status Q st c i db = (None, db') \<and> up db' \<and>
        rows db' = (case rows db i of None \<Rightarrow> rows db
          | Some r \<Rightarrow> (rows db)(i \<mapsto> r\<lparr>rw_status := st, rw_completed_at := map_option at_us c\<rparr>))"
    and update_dispatched: "up db \<Longrightarrow>
      \<exists>db'. sq_update_dispatched Q at i db = (None, db') \<and> up db' \<and>
        rows db' = (case rows db i of None \<Rightarrow> rows db
          | Some r \<Rightarrow> (rows db)(i \<mapsto> r\<lparr>rw_dispatched_at := Some (at_us at)\<rparr>))"
    and jsonb_members: "parse_json s = Some (JArr (map JObj os)) \<Longrightarrow> list_all (\<lambda>kvs. distinct (map fst kvs)) os \<Longrightarrow>
      \<exists>os'. parse_json (jsonb s) = Some (JArr (map JObj os')) \<and> list_all2 (\<lambda>o1 o2. mset o1 = mset o2) os os'"

section \<open>The stages column\<close>

definition stage_members :: "stage \<Rightarrow> (string \<times> json) list" where
  "stage_members s = [(''index'', JNum (int_text (stage_Index s))), (''name'', JStr (stage_Name s))]"

lemma stage_json_members: "stage_json s = JObj (stage_members s)"
  by (simp add: stage_json_def stage_members_def)

lemma stage_of_members:
  assumes "stage_encodable s" and "mset kvs = mset (stage_members s)"
  shows "stage_of_json (JObj kvs) = Some s"
proof -
  have "length kvs = 2" using arg_cong [OF assms(2), of size] by (simp add: stage_members_def)
  then obtain a b where kvs: "kvs = [a, b]" by (auto simp: length_Suc_conv numeral_2_eq_2)
  with assms(2) have "a = (''index'', JNum (int_text (stage_Index s))) \<and> b = (''name'', JStr (stage_Name s)) \<or>
      b = (''index'', JNum (int_text (stage_Index s))) \<and> a = (''name'', JStr (stage_Name s))"
    by (auto simp: stage_members_def add_eq_conv_diff split: if_splits)
  with assms(1) show ?thesis
    by (auto simp: kvs stage_of_json_def stage_member_def stage_field_index zero_stage_def stage_encodable_def
        set_string_def set_int_def parse_int64_int_text)
qed

lemma parse_stages_text:
  assumes "list_all stage_encodable ss"
  shows "parse_json (stages_text ss) = Some (JArr (map JObj (map stage_members ss)))"
proof -
  have ten: "(10000::nat) = Suc (Suc 9998)" by simp
  have "list_all (\<lambda>v. jwf v \<and> jdepth_le (Suc 9998) v) (map stage_json ss)"
    using assms stage_json_wf [of _ 9998] by (auto simp: list_all_iff)
  then have "jwf (JArr (map stage_json ss))" "jdepth_le 10000 (JArr (map stage_json ss))"
    unfolding ten by (auto simp: list_all_iff)
  then show ?thesis unfolding stages_text_def by (subst parse_json_jtext) (simp_all add: stage_json_members)
qed

lemma stages_of_members:
  assumes "list_all stage_encodable ss" and "list_all2 (\<lambda>s kvs. mset kvs = mset (stage_members s)) ss os"
  shows "map_all stage_of_json (map JObj os) = Some ss"
  using assms(2,1) by (induction rule: list_all2_induct) (auto simp: stage_of_members)

section \<open>The reference: a map with the column types of the table\<close>

definition column_times :: "(instant \<Rightarrow> instant) \<Rightarrow> task \<Rightarrow> task" where
  "column_times at_us t =
     t\<lparr>task_SubmittedAt := at_us (task_SubmittedAt t), task_DispatchedAt := map_option at_us (task_DispatchedAt t),
       task_CompletedAt := map_option at_us (task_CompletedAt t)\<rparr>"

fun table_op :: "(instant \<Rightarrow> instant) \<Rightarrow> store_op \<Rightarrow> task_map \<Rightarrow> store_obs \<times> task_map" where
  "table_op f (OpCreate t) m = (ObsFailed (m (task_ID t) \<noteq> None), spec_create (column_times f t) m)"
| "table_op f (OpGet i) m = (ObsTask (m i), m)"
| "table_op f (OpList p) m = (ObsTasks (ran m) (card (dom m)), m)"
| "table_op f (OpSetStatus now i st) m =
     (ObsFailed False,
      case m i of None \<Rightarrow> m
      | Some t \<Rightarrow> m(i \<mapsto> t\<lparr>task_Status := st,
          task_CompletedAt := if terminal_status st then Some (f now) else None\<rparr>))"
| "table_op f (OpSetDispatchedAt i at) m = (ObsFailed False, spec_dispatched i (f at) m)"

fun table_run :: "(instant \<Rightarrow> instant) \<Rightarrow> store_op list \<Rightarrow> task_map \<Rightarrow> store_obs list \<times> task_map" where
  "table_run f [] m = ([], m)"
| "table_run f (x # xs) m =
     (let (b, m1) = table_op f x m; (bs, m2) = table_run f xs m1 in (b # bs, m2))"

fun pg_op :: "'db sql \<Rightarrow> store_op \<Rightarrow> 'db \<Rightarrow> store_obs \<times> 'db" where
  "pg_op Q (OpCreate t) s = (let (e, s') = pg_create Q t s in (ObsFailed (e \<noteq> None), s'))"
| "pg_op Q (OpGet i) s = (ObsTask (pg_get Q i s), s)"
| "pg_op Q (OpList p) s = (ObsTasks (set (pg_list Q p s)) (length (pg_list Q p s)), s)"
| "pg_op Q (OpSetStatus now i st) s =
     (let (e, s') = pg_set_status Q now i st s in (ObsFailed (e \<noteq> None), s'))"
| "pg_op Q (OpSetDispatchedAt i at) s =
     (let (e, s') = pg_set_dispatched_at Q i at s in (ObsFailed (e \<noteq> None), s'))"

fun pg_run :: "'db sql \<Rightarrow> store_op list \<Rightarrow> 'db \<Rightarrow> store_obs list \<times> 'db" where
  "pg_run Q [] s = ([], s)"
| "pg_run Q (x # xs) s =
     (let (b, s1) = pg_op Q x s; (bs, s2) = pg_run Q xs s1 in (b # bs, s2))"

fun storable_op :: "store_op \<Rightarrow> bool" where
  "storable_op (OpCreate t) = pg_storable t"
| "storable_op _ = True"

section \<open>The store over a table\<close>

definition row_tasks :: "('db \<Rightarrow> string \<Rightarrow> row option) \<Rightarrow> 'db \<Rightarrow> task_map" where
  "row_tasks rows db i = Option.bind (rows db i) (\<lambda>r. scanTask (Inr r))"

text \<open>Every row holds a task the store can read back.\<close>

definition rows_scan :: "('db \<Rightarrow> string \<Rightarrow> row option) \<Rightarrow> 'db \<Rightarrow> bool" where
  "rows_scan rows db \<longleftrightarrow> (\<forall>i r. rows db i = Some r \<longrightarrow> scanTask (Inr r) \<noteq> None)"

lemma scanTask_columns: "scanTask (Inr r) = Some t \<Longrightarrow> task_ID t = rw_id r \<and> task_SubmittedAt t = rw_submitted_at r"
  by (auto simp: scanTask_def set_stages_def split: Option.bind_splits json.splits)

lemma scanTask_update:
  "scanTask (Inr (r\<lparr>rw_status := st, rw_completed_at := c\<rparr>)) =
     map_option (\<lambda>t. t\<lparr>task_Status := st, task_CompletedAt := c\<rparr>) (scanTask (Inr r))"
  "scanTask (Inr (r\<lparr>rw_dispatched_at := c\<rparr>)) = map_option (\<lambda>t. t\<lparr>task_DispatchedAt := c\<rparr>) (scanTask (Inr r))"
  by (auto simp: scanTask_def set_stages_def option.map_comp comp_def split: Option.bind_splits json.splits)

context sql_table
begin

abbreviation tasks :: "'db \<Rightarrow> task_map" where
  "tasks \<equiv> row_tasks rows"

lemma scan_stored:
  assumes enc: "list_all stage_encodable (task_Stages t)"
  shows "scanTask (Inr (stored_row at_us jsonb (task_row t))) = Some (column_times at_us t)"
proof -
  have "list_all (\<lambda>kvs. distinct (map fst kvs)) (map stage_members (task_Stages t))"
    by (simp add: list_all_iff stage_members_def)
  from jsonb_members [OF parse_stages_text [OF enc] this] obtain os' where
    os': "parse_json (jsonb (stages_text (task_Stages t))) = Some (JArr (map JObj os'))"
    and perm: "list_all2 (\<lambda>o1 o2. mset o1 = mset o2) (map stage_members (task_Stages t)) os'" by blast
  have "list_all2 (\<lambda>s kvs. mset kvs = mset (stage_members s)) (task_Stages t) os'"
    using perm by (simp add: list_all2_map1) (metis (mono_tags, lifting) list_all2_mono)
  with stages_of_members [OF enc] os' show ?thesis
    by (simp add: scanTask_def stored_row_def task_row_def set_stages_def column_times_def)
qed

lemma get_tasks: "up db \<Longrightarrow> pg_get Q i db = tasks db i"
  using select_found [of db i] select_absent [of db i]
  by (cases "rows db i") (auto simp: pg_get_def row_tasks_def scanTask_def)

lemma list_tasks:
  assumes "up db" and "rows_scan rows db"
  shows "set (pg_list Q p db) = ran (tasks db)" "length (pg_list Q p db) = card (dom (tasks db))"
    "sorted (map task_SubmittedAt (pg_list Q p db))"
proof -
  obtain rs where rs: "sq_select_all Q db = Inr (map Inr rs)" "distinct (map rw_id rs)" "set rs = ran (rows db)"
      "sorted (map rw_submitted_at rs)"
    using select_all [OF assms(1)] by blast
  have scan: "\<forall>r \<in> set rs. scanTask (Inr r) \<noteq> None"
    using assms(2) rs(3) by (auto simp: rows_scan_def ran_def)
  have l: "pg_list Q p db = map (\<lambda>r. the (scanTask (Inr r))) rs"
    using scan by (simp add: pg_list_def rs(1) List.map_filter_def comp_def)
  have "set (pg_list Q p db) = (\<lambda>r. the (scanTask (Inr r))) ` ran (rows db)" by (simp add: l rs(3))
  also have "\<dots> = ran (tasks db)"
    using assms(2) by (force simp: ran_def row_tasks_def rows_scan_def image_iff split: Option.bind_splits)
  finally show "set (pg_list Q p db) = ran (tasks db)" .
  have d: "dom (tasks db) = dom (rows db)" using assms(2) by (auto simp: dom_def row_tasks_def rows_scan_def Option.bind_eq_Some_conv)
  have "rw_id ` set rs = dom (rows db)" using row_keys [OF assms(1)] rs(3) by (force simp: ran_def image_iff)
  with rs(2) d have "length rs = card (dom (tasks db))" by (metis distinct_card length_map set_map)
  then show "length (pg_list Q p db) = card (dom (tasks db))" by (simp add: l)
  have "task_SubmittedAt (the (scanTask (Inr r))) = rw_submitted_at r" if "r \<in> set rs" for r
    using scan that scanTask_columns [of r] by fastforce
  with rs(4) show "sorted (map task_SubmittedAt (pg_list Q p db))" by (simp add: l comp_def cong: map_cong)
qed

lemma rows_tasks_upd:
  "rows db' = (rows db)(i \<mapsto> r) \<Longrightarrow> scanTask (Inr r) = Some t \<Longrightarrow> tasks db' = (tasks db)(i \<mapsto> t)"
  by (auto simp: row_tasks_def fun_eq_iff)

lemma rows_scan_upd:
  "rows_scan rows db \<Longrightarrow> rows db' = (rows db)(i \<mapsto> r) \<Longrightarrow> scanTask (Inr r) = Some t \<Longrightarrow> rows_scan rows db'"
  by (auto simp: rows_scan_def)

lemma pg_storable_stages: "pg_storable t \<Longrightarrow> list_all stage_encodable (task_Stages t)"
  by (simp add: pg_storable_def task_encodable_def)

text \<open>Whatever the task, it is stored with the times of the columns, or nothing changes.\<close>

lemma pg_create_cases:
  assumes up: "up db" and scan: "rows_scan rows db" and t: "list_all stage_encodable (task_Stages t)"
    and c: "pg_create Q t db = (e, db')"
  shows "up db' \<and> rows_scan rows db' \<and>
    (if e = None then tasks db (task_ID t) = None \<and> tasks db' = (tasks db)(task_ID t \<mapsto> column_times at_us t)
     else tasks db' = tasks db)"
proof -
  have id: "rw_id (task_row t) = task_ID t" by (simp add: task_row_def)
  from insert [OF up, of "task_row t"] c id have db': "up db'"
    "rows db' = (if e = None then (rows db)(task_ID t \<mapsto> stored_row at_us jsonb (task_row t)) else rows db)"
    by (auto simp: pg_create_def)
  show ?thesis
  proof (cases e)
    case None
    with insert_dup [OF up, of "task_row t"] c id have "rows db (task_ID t) = None" by (auto simp: pg_create_def)
    moreover have "rows db' = (rows db)(task_ID t \<mapsto> stored_row at_us jsonb (task_row t))" using db'(2) None by simp
    from rows_scan_upd [OF scan this scan_stored [OF t]] rows_tasks_upd [OF this scan_stored [OF t]]
    have "rows_scan rows db'" "tasks db' = (tasks db)(task_ID t \<mapsto> column_times at_us t)" .
    ultimately show ?thesis using db'(1) None by (simp add: row_tasks_def)
  next
    case (Some x)
    with db' scan show ?thesis by (simp add: rows_scan_def row_tasks_def fun_eq_iff)
  qed
qed

lemma pg_create_spec:
  assumes up: "up db" and scan: "rows_scan rows db" and t: "pg_storable t" and c: "pg_create Q t db = (e, db')"
  shows "up db' \<and> rows_scan rows db' \<and> tasks db' = spec_create (column_times at_us t) (tasks db) \<and>
    (e = None \<longleftrightarrow> tasks db (task_ID t) = None)"
proof -
  have "tasks db (task_ID t) = None \<longleftrightarrow> rows db (task_ID t) = None"
    using scan by (auto simp: row_tasks_def rows_scan_def split: Option.bind_splits)
  then have "e = None \<longleftrightarrow> tasks db (task_ID t) = None"
    using insert_new [OF up t] insert_dup [OF up, of "task_row t"] c by (auto simp: pg_create_def task_row_def)
  with pg_create_cases [OF up scan pg_storable_stages [OF t] c] show ?thesis
    by (cases e) (auto simp: spec_create_def column_times_def)
qed

lemma pg_set_status_spec:
  assumes up: "up db" and scan: "rows_scan rows db" and c: "pg_set_status Q now i st db = (e, db')"
  shows "up db' \<and> rows_scan rows db' \<and> e = None \<and> tasks db' = snd (table_op at_us (OpSetStatus now i st) (tasks db))"
proof -
  note u = update_status [OF up, of st "if st = TaskCompleted \<or> st = TaskFailed then Some now else None" i]
  show ?thesis
  proof (cases "rows db i")
    case None
    with u c have "e = None" "up db'" "rows db' = rows db" by (auto simp: pg_set_status_def)
    with None scan show ?thesis by (simp add: row_tasks_def rows_scan_def fun_eq_iff)
  next
    case (Some r)
    define r' where r': "r' = r\<lparr>rw_status := st, rw_completed_at := if terminal_status st then Some (at_us now) else None\<rparr>"
    with u c Some have e: "e = None" "up db'" "rows db' = (rows db)(i \<mapsto> r')"
      by (auto simp: pg_set_status_def terminal_status_def)
    obtain t where t: "scanTask (Inr r) = Some t" using Some scan by (auto simp: rows_scan_def)
    have "scanTask (Inr r') = Some (t\<lparr>task_Status := st,
        task_CompletedAt := if terminal_status st then Some (at_us now) else None\<rparr>)"
      unfolding r' scanTask_update t by simp
    moreover have "tasks db i = Some t" by (simp add: row_tasks_def Some t)
    ultimately show ?thesis using e rows_scan_upd [OF scan] rows_tasks_upd by simp
  qed
qed

lemma pg_set_dispatched_spec:
  assumes up: "up db" and scan: "rows_scan rows db" and c: "pg_set_dispatched_at Q i at db = (e, db')"
  shows "up db' \<and> rows_scan rows db' \<and> e = None \<and> tasks db' = spec_dispatched i (at_us at) (tasks db)"
proof (cases "rows db i")
  case None
  with update_dispatched [OF up, of at i] c have "e = None" "up db'" "rows db' = rows db"
    by (auto simp: pg_set_dispatched_at_def)
  with None scan show ?thesis by (simp add: row_tasks_def rows_scan_def fun_eq_iff spec_dispatched_def)
next
  case (Some r)
  with update_dispatched [OF up, of at i] c
  have e: "e = None" "up db'" "rows db' = (rows db)(i \<mapsto> r\<lparr>rw_dispatched_at := Some (at_us at)\<rparr>)"
    by (auto simp: pg_set_dispatched_at_def)
  obtain t where t: "scanTask (Inr r) = Some t" using Some scan by (auto simp: rows_scan_def)
  have "tasks db i = Some t" by (simp add: row_tasks_def Some t)
  then show ?thesis using e rows_scan_upd [OF scan e(3)] rows_tasks_upd [OF e(3)] by (simp add: scanTask_update t)
qed

lemma pg_op_spec:
  assumes "up db" and "rows_scan rows db" and "storable_op x" and "pg_op Q x db = (b, db')"
  shows "up db' \<and> rows_scan rows db' \<and> table_op at_us x (tasks db) = (b, tasks db')"
proof (cases x)
  case (OpCreate t)
  obtain e d where c: "pg_create Q t db = (e, d)" by (cases "pg_create Q t db")
  from pg_create_spec [OF assms(1,2) _ c] assms(3,4) OpCreate c show ?thesis by auto
next
  case (OpGet i)
  with assms get_tasks show ?thesis by auto
next
  case (OpList p)
  with assms list_tasks show ?thesis by auto
next
  case (OpSetStatus now i st)
  obtain e d where c: "pg_set_status Q now i st db = (e, d)" by (cases "pg_set_status Q now i st db")
  from pg_set_status_spec [OF assms(1,2) c] assms(4) OpSetStatus c show ?thesis by auto
next
  case (OpSetDispatchedAt i at)
  obtain e d where c: "pg_set_dispatched_at Q i at db = (e, d)" by (cases "pg_set_dispatched_at Q i at db")
  from pg_set_dispatched_spec [OF assms(1,2) c] assms(4) OpSetDispatchedAt c show ?thesis by auto
qed

lemma pg_run_spec:
  assumes "up db" and "rows_scan rows db" and "list_all storable_op xs"
  shows "fst (pg_run Q xs db) = fst (table_run at_us xs (tasks db))"
  using assms
proof (induction xs arbitrary: db)
  case (Cons x xs)
  obtain b db1 where x: "pg_op Q x db = (b, db1)" by (cases "pg_op Q x db")
  from pg_op_spec [OF Cons.prems(1,2) _ x] Cons.prems(3)
  have "up db1" "rows_scan rows db1" "table_op at_us x (tasks db) = (b, tasks db1)" by simp_all
  with Cons.IH [of db1] Cons.prems(3) x show ?case by (auto split: prod.splits)
qed simp

end

section \<open>A table of this kind\<close>

text \<open>A list of rows in insertion order, with times cut to microseconds.\<close>

definition micros :: "instant \<Rightarrow> instant" where
  "micros i = i div 1000 * 1000"

definition find_row :: "row list \<Rightarrow> string \<Rightarrow> row option" where
  "find_row db i = find (\<lambda>r. rw_id r = i) db"

definition update_row :: "string \<Rightarrow> (row \<Rightarrow> row) \<Rightarrow> row list \<Rightarrow> row list" where
  "update_row i f db = map (\<lambda>r. if rw_id r = i then f r else r) db"

definition rows_table :: "row list sql" where
  "rows_table =
     \<lparr>sq_schema = (\<lambda>db. (None, db)),
      sq_insert = (\<lambda>r db. if find_row db (rw_id r) \<noteq> None
        then (Some (Errorf ''duplicate key value violates unique constraint''), db)
        else (None, db @ [stored_row micros (\<lambda>s. s) r])),
      sq_select = (\<lambda>i db. case find_row db i of
        None \<Rightarrow> Inl (Errorf ''no rows in result set'') | Some r \<Rightarrow> Inr r),
      sq_select_all = (\<lambda>db. Inr (map Inr (sort_key rw_submitted_at db))),
      sq_update_status = (\<lambda>st c i db.
        (None, update_row i (\<lambda>r. r\<lparr>rw_status := st, rw_completed_at := map_option micros c\<rparr>) db)),
      sq_update_dispatched = (\<lambda>at i db. (None, update_row i (\<lambda>r. r\<lparr>rw_dispatched_at := Some (micros at)\<rparr>) db))\<rparr>"

lemma find_row_append: "find_row (db @ [r]) i = (case find_row db i of None \<Rightarrow> if rw_id r = i then Some r else None | Some x \<Rightarrow> Some x)"
  by (induction db) (simp_all add: find_row_def)

lemma find_row_id: "find_row db i = Some r \<Longrightarrow> rw_id r = i"
  by (auto simp: find_row_def find_Some_iff)

lemma find_row_set: "distinct (map rw_id db) \<Longrightarrow> find_row db i = Some r \<longleftrightarrow> r \<in> set db \<and> rw_id r = i"
  by (induction db) (auto simp: find_row_def)

lemma find_row_None: "find_row db i = None \<longleftrightarrow> i \<notin> rw_id ` set db"
  by (auto simp: find_row_def find_None_iff)

lemma find_update_row:
  assumes "\<And>r. rw_id (f r) = rw_id r"
  shows "find_row (update_row i f db) =
    (case find_row db i of None \<Rightarrow> find_row db | Some r \<Rightarrow> (find_row db)(i \<mapsto> f r))"
proof
  fix j
  show "find_row (update_row i f db) j =
    (case find_row db i of None \<Rightarrow> find_row db | Some r \<Rightarrow> (find_row db)(i \<mapsto> f r)) j"
    by (induction db) (auto simp: find_row_def update_row_def assms split: option.splits)
qed

lemma update_row_ids: "(\<And>r. rw_id (f r) = rw_id r) \<Longrightarrow> map rw_id (update_row i f db) = map rw_id db"
  by (simp add: update_row_def)

interpretation rows: sql_table rows_table "\<lambda>db. distinct (map rw_id db)" find_row micros "\<lambda>s. s"
proof unfold_locales
  fix db :: "row list" and r :: row
  assume d: "distinct (map rw_id db)"
  show "\<exists>e db'. sq_insert rows_table r db = (e, db') \<and> distinct (map rw_id db') \<and>
      find_row db' = (if e = None then (find_row db)(rw_id r \<mapsto> stored_row micros (\<lambda>s. s) r) else find_row db)"
  proof (cases "find_row db (rw_id r)")
    case None
    then have "rw_id r \<notin> rw_id ` set db" by (simp only: find_row_None not_False_eq_True)
    with d None show ?thesis
      by (auto simp: rows_table_def stored_row_def find_row_append fun_eq_iff split: option.split)
  qed (use d in \<open>simp add: rows_table_def\<close>)
next
  fix db :: "row list"
  assume d: "distinct (map rw_id db)"
  have "ran (find_row db) = set db" using find_row_set [OF d] by (auto simp: ran_def)
  then show "\<exists>rs. sq_select_all rows_table db = Inr (map Inr rs) \<and> distinct (map rw_id rs) \<and> set rs = ran (find_row db) \<and>
      sorted (map rw_submitted_at rs)"
    using d by (intro exI [of _ "sort_key rw_submitted_at db"])
      (auto simp: rows_table_def distinct_map intro: inj_on_subset)
  show "finite (dom (find_row db))"
    by (rule finite_subset [of _ "rw_id ` set db"]) (auto simp: find_row_def find_Some_iff)
next
  fix s os
  assume "parse_json s = Some (JArr (map JObj os))"
  then show "\<exists>os'. parse_json s = Some (JArr (map JObj os')) \<and> list_all2 (\<lambda>o1 o2. mset o1 = mset o2) os os'"
    by (intro exI [of _ os]) (simp add: list_all2_refl)
qed (auto simp: rows_table_def find_row_id find_update_row update_row_ids task_row_def split: if_splits)

section \<open>The two stores compared\<close>

text \<open>Updates of IDs created before, with final statuses: what the manager does.\<close>

fun owned_ops :: "store_op list \<Rightarrow> string set \<Rightarrow> bool" where
  "owned_ops [] ids = True"
| "owned_ops (OpCreate t # xs) ids = owned_ops xs (insert (task_ID t) ids)"
| "owned_ops (OpSetStatus now i st # xs) ids = (i \<in> ids \<and> terminal_status st \<and> owned_ops xs ids)"
| "owned_ops (OpSetDispatchedAt i at # xs) ids = (i \<in> ids \<and> owned_ops xs ids)"
| "owned_ops (_ # xs) ids = owned_ops xs ids"

fun column_op :: "(instant \<Rightarrow> instant) \<Rightarrow> store_op \<Rightarrow> store_op" where
  "column_op f (OpCreate t) = OpCreate (column_times f t)"
| "column_op f (OpSetStatus now i st) = OpSetStatus (f now) i st"
| "column_op f (OpSetDispatchedAt i at) = OpSetDispatchedAt i (f at)"
| "column_op f x = x"

lemma column_times_ID [simp]: "task_ID (column_times f t) = task_ID t"
  by (simp add: column_times_def)

lemma dom_spec_create [simp]: "dom (spec_create t m) = insert (task_ID t) (dom m)"
  by (auto simp: spec_create_def)

lemma table_run_map:
  "owned_ops xs (dom m) \<Longrightarrow> fst (table_run f xs m) = fst (map_run (map (column_op f) xs) m)"
proof (induction xs "dom m" arbitrary: m rule: owned_ops.induct)
  case (2 t xs)
  then show ?case by (simp add: case_prod_beta)
next
  case (3 now i st xs)
  then obtain t where t: "m i = Some t" by auto
  with 3 have "fst (table_run f xs (m(i \<mapsto> with_status (f now) st t))) =
      fst (map_run (map (column_op f) xs) (m(i \<mapsto> with_status (f now) st t)))"
    by (simp add: insert_absorb)
  with 3 t show ?case by (simp add: case_prod_beta with_status_def)
next
  case (4 i at xs)
  then show ?case by (auto simp: case_prod_beta)
qed (simp_all add: case_prod_beta)

end
