(* ===== verification/Inbox.thy ===== *)
theory Inbox
  imports Channel TaskJson
begin

text \<open>
  Dispatchers whose events wait in a channel of their own: what the brokers of patterns 5, 6
  and 7 have in common. \<open>channel_inbox\<close> asks for the shape of \<^verbatim>\<open>ReceiveEvent\<close> and for what
  \<^verbatim>\<open>Dispatch\<close> does to the broker, and gives the dispatcher contract. \<open>texts_tasks\<close> reads the
  tasks off a bag of JSON texts.
\<close>

section \<open>The tasks in a bag of texts\<close>

text \<open>A text that does not decode holds no task.\<close>

definition texts_tasks :: "string multiset \<Rightarrow> task multiset" where
  "texts_tasks M = image_mset (\<lambda>s. the (unmarshal_task s)) (filter_mset (\<lambda>s. unmarshal_task s \<noteq> None) M)"

lemma texts_tasks_empty [simp]: "texts_tasks {#} = {#}"
  by (simp add: texts_tasks_def)

lemma texts_tasks_add [simp]:
  "texts_tasks (add_mset s M) =
     (case unmarshal_task s of None \<Rightarrow> texts_tasks M | Some t \<Rightarrow> add_mset t (texts_tasks M))"
  by (simp add: texts_tasks_def split: option.split)

section \<open>Reading a channel unless the context ends\<close>

lemma recv_or_done_cases:
  assumes "select (ctx_pick x) (on_done x a @ on_recv zero ch k) = Ret r" and "\<not> ch_closed ch"
  shows "(ctx_done x \<and> r = a) \<or>
    (\<exists>v ch'. r = k v ch' \<and> ch_buf ch = v # ch_buf ch' \<and> \<not> ch_closed ch' \<and> ch_cap ch' = ch_cap ch)"
proof (cases "ch_buf ch")
  case Nil
  with assms show ?thesis by (auto simp: on_done_def on_recv_open dest!: select_in split: if_splits)
next
  case (Cons v vs)
  with assms have "(ctx_done x \<and> r = a) \<or> r = k v (ch\<lparr>ch_buf := vs\<rparr>)"
    by (auto simp: on_done_def on_recv_open dest!: select_in split: if_splits)
  with Cons assms(2) show ?thesis by (auto intro!: exI [of _ "ch\<lparr>ch_buf := vs\<rparr>"])
qed

lemma recv_or_done_blocks:
  "\<not> ch_closed ch \<Longrightarrow>
     select (ctx_pick x) (on_done x a @ on_recv zero ch k) = Block \<longleftrightarrow> \<not> ctx_done x \<and> ch_buf ch = []"
  by (auto simp: select_def on_done_def on_recv_def chan_recv_def split: list.splits)

section \<open>The contract\<close>

text \<open>\<open>chan_of\<close> and \<open>with_chan\<close> read and replace the channel of events.\<close>

locale channel_inbox =
  fixes TD :: "'d task_dispatcher"
    and dinv :: "'d \<Rightarrow> bool"
    and queued :: "'d \<Rightarrow> task multiset"
    and chan_of :: "'d \<Rightarrow> task_event chan"
    and with_chan :: "task_event chan \<Rightarrow> 'd \<Rightarrow> 'd"
    and sendable :: "task \<Rightarrow> bool"
  assumes receive_eq: "td_receive_event TD x d =
      select (ctx_pick x) (on_done x (Inl (ctx_err x), d) @
        on_recv zero_event (chan_of d) (\<lambda>ev ch. (Inr ev, with_chan ch d)))"
    and inbox_open: "dinv d \<Longrightarrow> \<not> ch_closed (chan_of d)"
    and chan_with_chan: "chan_of (with_chan ch d) = ch"
    and queued_with_chan: "queued (with_chan ch d) = queued d"
    and pop_inv: "dinv d \<Longrightarrow> ch_buf (chan_of d) = v # ch_buf ch \<Longrightarrow> \<not> ch_closed ch \<Longrightarrow>
      ch_cap ch = ch_cap (chan_of d) \<Longrightarrow> dinv (with_chan ch d)"
    and dispatch_spec: "dinv d \<Longrightarrow> \<exists>err d'. td_dispatch TD x t d = Ret (err, d') \<and> dinv d' \<and>
      chan_of d' = chan_of d \<and>
      (err = None \<longrightarrow> sendable t \<longrightarrow> queued d' = add_mset t (queued d)) \<and>
      (err \<noteq> None \<longrightarrow> queued d' = queued d)"
begin

lemma receive_cases:
  assumes "td_receive_event TD x d = Ret (r, d')" and "dinv d"
  shows "case r of Inl e \<Rightarrow> ctx_done x \<and> e = ctx_err x \<and> d' = d
    | Inr ev \<Rightarrow> \<exists>ch. d' = with_chan ch d \<and> ch_buf (chan_of d) = ev # ch_buf ch \<and> \<not> ch_closed ch \<and>
        ch_cap ch = ch_cap (chan_of d)"
  using recv_or_done_cases [OF assms(1) [unfolded receive_eq] inbox_open [OF assms(2)]] by auto

end

sublocale channel_inbox \<subseteq> dispatcher_contract TD dinv queued "\<lambda>d. ch_buf (chan_of d)" sendable
proof unfold_locales
  fix x t d
  assume "dinv d"
  from dispatch_spec [OF this, of x t] show "\<exists>r. td_dispatch TD x t d = Ret r" by blast
next
  fix x ev d d'
  assume d: "dinv d" "td_receive_event TD x d = Ret (Inr ev, d')"
  with receive_cases [OF d(2,1)]
  show "ch_buf (chan_of d) = ev # ch_buf (chan_of d') \<and> queued d' = queued d \<and> dinv d'"
    by (auto simp: chan_with_chan queued_with_chan pop_inv)
next
  fix x e d d'
  assume d: "dinv d" "td_receive_event TD x d = Ret (Inl e, d')"
  from receive_cases [OF d(2,1)] show "ctx_done x \<and> e = ctx_err x \<and> d' = d" by simp
next
  fix x d
  assume "dinv d"
  then show "td_receive_event TD x d = Block \<longleftrightarrow> \<not> ctx_done x \<and> ch_buf (chan_of d) = []"
    unfolding receive_eq by (intro recv_or_done_blocks inbox_open)
next
  fix x d
  show "td_receive_event TD x d \<noteq> Panic" by (simp add: receive_eq select_def)
next
  fix x t d e d'
  assume d: "dinv d" and r: "td_dispatch TD x t d = Ret (e, d')"
  from dispatch_spec [OF d, of x t] r show "dinv d'" "ch_buf (chan_of d') = ch_buf (chan_of d)" by auto
next
  fix x t d d'
  assume "dinv d" "sendable t" "td_dispatch TD x t d = Ret (None, d')"
  with dispatch_spec [of d x t] show "queued d' = add_mset t (queued d)" by auto
next
  fix x t d e d'
  assume "dinv d" "td_dispatch TD x t d = Ret (Some e, d')"
  with dispatch_spec [of d x t] show "queued d' = queued d" by auto
qed

end
