(* ===== verification/Pubsub.thy ===== *)
theory Pubsub
  imports Inbox TaskJson
begin

text \<open>
  Patterns 6 and 7, the transport over a message broker: \<^verbatim>\<open>patterns/p06/internal/pubsub\<close>
  (\<^verbatim>\<open>dispatcher.go\<close>, \<^verbatim>\<open>consumer.go\<close>, \<^verbatim>\<open>bridge.go\<close>; the files of p07 differ in layout only).

  The broker and its driver (\<^verbatim>\<open>gocloud.dev/pubsub\<close>) are not part of the repository: a \<open>topic\<close>
  and a \<open>subscription\<close> are tables of the operations the code calls, over a state \<open>'b\<close> of the
  broker. A received message carries the number by which it is acknowledged.

  The receive loop of the dispatcher runs in its own goroutine, between a message and the
  channel: \<open>recv_pc\<close> is where it stands. \<open>ps_step\<close> interleaves any number of such loops with
  the manager's reads, its dispatches and whatever else happens to the broker.

  \<^item> \<open>ps_one_loop\<close>: a single loop hands events over in the order of delivery, and every final one.
  \<^item> \<open>two_loops_swap\<close>: two loops may hand a final event over before an earlier one.
  \<^item> \<open>fifo_topic\<close>, \<open>fifo_subscription\<close>: a broker that keeps messages in order, for the examples.
\<close>

section \<open>The broker\<close>

record message =
  ms_Body :: string
  ms_Metadata :: "(string \<times> string) list"

record 'b topic =
  tp_send :: "ctx \<Rightarrow> message \<Rightarrow> 'b \<Rightarrow> (go_error option \<times> 'b) outcome"
  tp_shutdown :: "ctx \<Rightarrow> 'b \<Rightarrow> 'b"

record 'b subscription =
  su_receive :: "ctx \<Rightarrow> 'b \<Rightarrow> ((go_error + nat \<times> message) \<times> 'b) outcome"
  su_ack :: "nat \<Rightarrow> 'b \<Rightarrow> 'b"
  su_shutdown :: "ctx \<Rightarrow> 'b \<Rightarrow> 'b"

section \<open>Dispatcher\<close>

record 'b pubsub_dispatcher =
  pd_broker :: 'b
  pd_internal :: "task_event chan"
  pd_loops :: nat

definition NewPubSubDispatcher :: "'b \<Rightarrow> 'b pubsub_dispatcher" where
  "NewPubSubDispatcher b = \<lparr>pd_broker = b, pd_internal = make_chan 256, pd_loops = 0\<rparr>"

text \<open>Every call of \<^verbatim>\<open>Start\<close> starts a receive loop.\<close>

definition ps_start :: "ctx \<Rightarrow> 'b pubsub_dispatcher \<Rightarrow> go_error option \<times> 'b pubsub_dispatcher" where
  "ps_start x d = (None, d\<lparr>pd_loops := Suc (pd_loops d)\<rparr>)"

definition ps_dispatch :: "'b topic \<Rightarrow> ctx \<Rightarrow> task \<Rightarrow> 'b pubsub_dispatcher \<Rightarrow>
    (go_error option \<times> 'b pubsub_dispatcher) outcome" where
  "ps_dispatch T x t d =
     (case marshal_task t of
        None \<Rightarrow> Ret (Some (Errorf ''json: error calling MarshalJSON''), d)
      | Some body \<Rightarrow>
          omap (\<lambda>(err, b). (err, d\<lparr>pd_broker := b\<rparr>))
            (tp_send T x \<lparr>ms_Body = body, ms_Metadata = [(''task_id'', task_ID t)]\<rparr> (pd_broker d)))"

definition ps_receive_event :: "ctx \<Rightarrow> 'b pubsub_dispatcher \<Rightarrow>
    ((go_error + task_event) \<times> 'b pubsub_dispatcher) outcome" where
  "ps_receive_event x d =
     select (ctx_pick x)
       (on_done x (Inl (ctx_err x), d) @
        on_recv zero_event (pd_internal d) (\<lambda>ev ch. (Inr ev, d\<lparr>pd_internal := ch\<rparr>)))"

definition pubsub_dispatcher_ops :: "'b topic \<Rightarrow> 'b pubsub_dispatcher task_dispatcher" where
  "pubsub_dispatcher_ops T =
     \<lparr>td_start = ps_start, td_dispatch = ps_dispatch T, td_receive_event = ps_receive_event\<rparr>"

text \<open>\<^verbatim>\<open>Shutdown\<close> of the two resources that are there.\<close>

definition ps_shutdown :: "'b topic option \<Rightarrow> 'b subscription option \<Rightarrow> ctx \<Rightarrow> 'b \<Rightarrow> 'b" where
  "ps_shutdown T S x b =
     (let b1 = (case T of None \<Rightarrow> b | Some t \<Rightarrow> tp_shutdown t x b)
      in case S of None \<Rightarrow> b1 | Some s \<Rightarrow> su_shutdown s x b1)"

text \<open>
  \<^verbatim>\<open>receiveLoop\<close>: fetching a message, decoding and acknowledging it; then, with the event in
  hand, the send to the channel.
\<close>

datatype recv_pc = Fetching | Pushing task_event | Exited

definition ps_fetch :: "'b subscription \<Rightarrow> ctx \<Rightarrow> 'b \<Rightarrow> (recv_pc \<times> 'b) outcome" where
  "ps_fetch S x b =
     omap (\<lambda>(r, b1).
       case r of
         Inl err \<Rightarrow> (Exited, b1)
       | Inr (k, msg) \<Rightarrow>
           (case unmarshal_event (ms_Body msg) of
              None \<Rightarrow> (Fetching, su_ack S k b1)
            | Some ev \<Rightarrow> (Pushing ev, su_ack S k b1)))
       (su_receive S x b)"

definition ps_push :: "ctx \<Rightarrow> task_event \<Rightarrow> task_event chan \<Rightarrow> (recv_pc \<times> task_event chan) outcome" where
  "ps_push x ev ch =
     (if ev_Type ev = EventTaskStatus \<and> (ev_Status ev = TaskCompleted \<or> ev_Status ev = TaskFailed)
      then if ch_closed ch then Panic
           else select (ctx_pick x) (on_send ev ch (\<lambda>c. (Fetching, c)) @ on_done x (Exited, ch))
      else omap (\<lambda>(_, c). (Fetching, c)) (chan_try_send ev ch))"

section \<open>Consumer\<close>

definition ps_connect :: "ctx \<Rightarrow> 'b \<Rightarrow> (go_error option \<times> 'b) outcome" where
  "ps_connect x b = Ret (None, b)"

text \<open>
  \<^verbatim>\<open>Receive\<close> calls itself after a message that does not decode: over the given number of calls;
  with none left it is still receiving.
\<close>

primrec ps_receive :: "'b subscription \<Rightarrow> nat \<Rightarrow> ctx \<Rightarrow> 'b \<Rightarrow> ((go_error + task) \<times> 'b) outcome" where
  "ps_receive S 0 x b = Block"
| "ps_receive S (Suc n) x b =
     obind (su_receive S x b) (\<lambda>(r, b1).
       case r of
         Inl err \<Rightarrow> Ret (Inl err, b1)
       | Inr (k, msg) \<Rightarrow>
           (case unmarshal_task (ms_Body msg) of
              None \<Rightarrow> ps_receive S n x (su_ack S k b1)
            | Some t \<Rightarrow> Ret (Inr t, su_ack S k b1)))"

definition event_message :: "task_event \<Rightarrow> message" where
  "event_message ev =
     \<lparr>ms_Body = marshal_event ev, ms_Metadata = [(''task_id'', ev_TaskID ev), (''type'', ev_Type ev)]\<rparr>"

definition ps_emit :: "'b topic \<Rightarrow> ctx \<Rightarrow> task_event \<Rightarrow> 'b \<Rightarrow> (go_error option \<times> 'b) outcome" where
  "ps_emit T x ev b = tp_send T x (event_message ev) b"

definition pubsub_consumer_ops :: "'b subscription \<Rightarrow> 'b topic \<Rightarrow> nat \<Rightarrow> 'b task_consumer" where
  "pubsub_consumer_ops S T n = \<lparr>tc_connect = ps_connect, tc_receive = ps_receive S n, tc_emit = ps_emit T\<rparr>"

section \<open>Event bridge\<close>

text \<open>\<^verbatim>\<open>Publish\<close> logs the error of the send and drops it.\<close>

definition ps_publish :: "'b topic \<Rightarrow> task_event \<Rightarrow> 'b \<Rightarrow> 'b outcome" where
  "ps_publish T ev b = omap snd (tp_send T Background (event_message ev) b)"

definition pubsub_bridge_ops :: "'b topic \<Rightarrow> 'b event_publisher" where
  "pubsub_bridge_ops T = \<lparr>ep_publish = \<lambda>p. ps_publish T\<rparr>"

section \<open>The receive loops, interleaved\<close>

text \<open>
  \<open>pw_fetched\<close> and \<open>pw_read\<close> record the events the loops have taken from the broker and those
  the manager has read, in the order it happened.
\<close>

record 'b ps_world =
  pw_disp :: "'b pubsub_dispatcher"
  pw_loops :: "recv_pc list"
  pw_fetched :: "task_event list"
  pw_read :: "task_event list"

definition pending :: "recv_pc \<Rightarrow> task_event list" where
  "pending pc = (case pc of Pushing ev \<Rightarrow> [ev] | _ \<Rightarrow> [])"

inductive ps_step :: "'b subscription \<Rightarrow> 'b ps_world \<Rightarrow> 'b ps_world \<Rightarrow> bool" for S where
  step_fetch:
    "i < length (pw_loops w) \<Longrightarrow> pw_loops w ! i = Fetching \<Longrightarrow>
     ps_fetch S x (pd_broker (pw_disp w)) = Ret (pc, b) \<Longrightarrow>
     ps_step S w (w\<lparr>pw_disp := (pw_disp w)\<lparr>pd_broker := b\<rparr>, pw_loops := (pw_loops w)[i := pc],
       pw_fetched := pw_fetched w @ pending pc\<rparr>)"
| step_push:
    "i < length (pw_loops w) \<Longrightarrow> pw_loops w ! i = Pushing ev \<Longrightarrow>
     ps_push x ev (pd_internal (pw_disp w)) = Ret (pc, ch) \<Longrightarrow>
     ps_step S w (w\<lparr>pw_disp := (pw_disp w)\<lparr>pd_internal := ch\<rparr>, pw_loops := (pw_loops w)[i := pc]\<rparr>)"
| step_read:
    "ps_receive_event x (pw_disp w) = Ret (Inr ev, d) \<Longrightarrow>
     ps_step S w (w\<lparr>pw_disp := d, pw_read := pw_read w @ [ev]\<rparr>)"
| step_broker:
    "ps_step S w (w\<lparr>pw_disp := (pw_disp w)\<lparr>pd_broker := b\<rparr>\<rparr>)"

definition ps_world_start :: "nat \<Rightarrow> 'b \<Rightarrow> 'b ps_world" where
  "ps_world_start n b =
     \<lparr>pw_disp = (NewPubSubDispatcher b)\<lparr>pd_loops := n\<rparr>, pw_loops = replicate n Fetching, pw_fetched = [], pw_read = []\<rparr>"

text \<open>What has reached the manager or its channel, in order.\<close>

definition ps_delivered :: "'b ps_world \<Rightarrow> task_event list" where
  "ps_delivered w = pw_read w @ ch_buf (pd_internal (pw_disp w))"

section \<open>One loop\<close>

definition ps_one_inv :: "'b ps_world \<Rightarrow> bool" where
  "ps_one_inv w \<longleftrightarrow> (\<exists>pc. pw_loops w = [pc] \<and> \<not> ch_closed (pd_internal (pw_disp w)) \<and>
     (if pc = Exited then subseq (ps_delivered w) (pw_fetched w)
      else \<exists>zs. pw_fetched w = zs @ pending pc \<and> subseq (ps_delivered w) zs \<and>
        filter is_terminal (ps_delivered w) = filter is_terminal zs))"

lemma ps_push_cases:
  assumes "ps_push x ev ch = Ret (pc, ch')" and "\<not> ch_closed ch"
  shows "(pc = Fetching \<and> ch' = chan_push ev ch) \<or> (pc = Fetching \<and> ch' = ch \<and> \<not> is_terminal ev) \<or>
    (pc = Exited \<and> ch' = ch)"
  using assms
  by (auto simp: ps_push_def is_terminal_def on_send_def on_done_def chan_try_send_Ret dest!: select_in
      split: if_splits)

lemma ps_fetch_pc: "ps_fetch S x b = Ret (pc, b') \<Longrightarrow> pc = Exited \<or> pc = Fetching \<or> (\<exists>ev. pc = Pushing ev)"
  by (cases pc) auto

lemma ps_receive_event_open:
  assumes "ps_receive_event x d = Ret (Inr ev, d')" and "\<not> ch_closed (pd_internal d)"
  shows "\<exists>ch. d' = d\<lparr>pd_internal := ch\<rparr> \<and> ch_buf (pd_internal d) = ev # ch_buf ch \<and> \<not> ch_closed ch"
  using recv_or_done_cases [OF assms(1) [unfolded ps_receive_event_def] assms(2)] by auto

lemma pending_simps [simp]: "pending Fetching = []" "pending Exited = []" "pending (Pushing ev) = [ev]"
  by (simp_all add: pending_def)

lemma ps_one_inv_cong:
  "ps_one_inv w \<Longrightarrow> pw_loops w' = pw_loops w \<Longrightarrow> pw_fetched w' = pw_fetched w \<Longrightarrow>
     ps_delivered w' = ps_delivered w \<Longrightarrow>
     ch_closed (pd_internal (pw_disp w')) = ch_closed (pd_internal (pw_disp w)) \<Longrightarrow> ps_one_inv w'"
  by (simp only: ps_one_inv_def)

lemma ps_one_step:
  assumes "ps_step S w w'" and inv: "ps_one_inv w"
  shows "ps_one_inv w'"
  using assms(1)
proof cases
  case (step_fetch i x pc b)
  with inv obtain zs where w: "pw_loops w = [Fetching]" "i = 0" "\<not> ch_closed (pd_internal (pw_disp w))"
    "pw_fetched w = zs" "subseq (ps_delivered w) zs" "filter is_terminal (ps_delivered w) = filter is_terminal zs"
    by (auto simp: ps_one_inv_def)
  with step_fetch(1) show ?thesis
    by (cases pc) (auto simp: ps_one_inv_def ps_delivered_def)
next
  case (step_push i ev x pc ch)
  with inv obtain zs where w: "pw_loops w = [Pushing ev]" "i = 0" "\<not> ch_closed (pd_internal (pw_disp w))"
    "pw_fetched w = zs @ [ev]" "subseq (ps_delivered w) zs" "filter is_terminal (ps_delivered w) = filter is_terminal zs"
    by (auto simp: ps_one_inv_def)
  from ps_push_cases [OF step_push(4) w(3)] consider
    "pc = Fetching" "ch = chan_push ev (pd_internal (pw_disp w))"
    | "pc = Fetching" "ch = pd_internal (pw_disp w)" "\<not> is_terminal ev"
    | "pc = Exited" "ch = pd_internal (pw_disp w)" by blast
  then show ?thesis
  proof cases
    case 1
    have "subseq (ps_delivered w @ [ev]) (zs @ [ev])" using w(5) by simp
    with 1 w step_push(1) show ?thesis
      by (auto simp: ps_one_inv_def ps_delivered_def chan_push_def intro!: exI [of _ "zs @ [ev]"])
  next
    case 2
    have "subseq (ps_delivered w) (zs @ [ev])" using w(5) by (rule list_emb_prefix)
    with 2 w step_push(1) show ?thesis
      by (auto simp: ps_one_inv_def ps_delivered_def intro!: exI [of _ "zs @ [ev]"])
  next
    case 3
    have "subseq (ps_delivered w) (zs @ [ev])" using w(5) by (rule list_emb_prefix)
    with 3 w step_push(1) show ?thesis by (auto simp: ps_one_inv_def ps_delivered_def)
  qed
next
  case (step_read x ev d)
  have op: "\<not> ch_closed (pd_internal (pw_disp w))" using inv by (auto simp: ps_one_inv_def)
  from ps_receive_event_open [OF step_read(2) this] obtain ch where
    "d = (pw_disp w)\<lparr>pd_internal := ch\<rparr>" "ch_buf (pd_internal (pw_disp w)) = ev # ch_buf ch" "\<not> ch_closed ch" by blast
  then have "ps_delivered w' = ps_delivered w" "\<not> ch_closed (pd_internal (pw_disp w'))"
    "pw_loops w' = pw_loops w" "pw_fetched w' = pw_fetched w"
    using step_read(1) by (simp_all add: ps_delivered_def)
  moreover note op
  ultimately show ?thesis by (intro ps_one_inv_cong [OF inv]) simp_all
next
  case (step_broker b)
  then show ?thesis by (intro ps_one_inv_cong [OF inv]) (simp_all add: ps_delivered_def)
qed

lemma ps_one_start: "ps_one_inv (ps_world_start 1 b)"
  unfolding ps_one_inv_def
  by (simp add: ps_world_start_def NewPubSubDispatcher_def ps_delivered_def make_chan_def)

text \<open>
  A single loop: what the manager gets is a subsequence of what was delivered, and while the
  loop runs, every final event is there or in the loop's hands.
\<close>

lemma ps_one_loop:
  assumes "(ps_step S)\<^sup>*\<^sup>* (ps_world_start 1 b) w"
  shows "ps_one_inv w"
  using assms
proof (induction rule: rtranclp_induct)
  case base
  show ?case by (rule ps_one_start)
next
  case (step w w')
  from step(2,3) show ?case by (rule ps_one_step)
qed

lemma ps_one_inv_summary:
  assumes "ps_one_inv w"
  shows "subseq (ps_delivered w) (pw_fetched w) \<and>
    (Exited \<notin> set (pw_loops w) \<longrightarrow>
      filter is_terminal (pw_fetched w) = filter is_terminal (ps_delivered w @ concat (map pending (pw_loops w))))"
proof -
  from assms obtain pc where pc: "pw_loops w = [pc]" "if pc = Exited then subseq (ps_delivered w) (pw_fetched w)
      else \<exists>zs. pw_fetched w = zs @ pending pc \<and> subseq (ps_delivered w) zs \<and>
        filter is_terminal (ps_delivered w) = filter is_terminal zs"
    by (auto simp: ps_one_inv_def)
  show ?thesis
  proof (cases "pc = Exited")
    case False
    with pc obtain zs where "pw_fetched w = zs @ pending pc" "subseq (ps_delivered w) zs"
      "filter is_terminal (ps_delivered w) = filter is_terminal zs" by auto
    moreover from this have "subseq (ps_delivered w) (zs @ pending pc)" by (intro list_emb_prefix)
    ultimately show ?thesis using pc(1) by simp
  qed (use pc in simp)
qed

section \<open>A broker in memory\<close>

definition fifo_topic :: "message list topic" where
  "fifo_topic = \<lparr>tp_send = (\<lambda>x msg b. Ret (None, b @ [msg])), tp_shutdown = (\<lambda>x b. b)\<rparr>"

definition fifo_subscription :: "message list subscription" where
  "fifo_subscription =
     \<lparr>su_receive = (\<lambda>x b. case b of
        msg # b' \<Rightarrow> Ret (Inr (0, msg), b')
      | [] \<Rightarrow> if ctx_done x then Ret (Inl (ctx_err x), []) else Block),
      su_ack = (\<lambda>k b. b), su_shutdown = (\<lambda>x b. b)\<rparr>"

section \<open>Two loops\<close>

lemma unmarshal_event_message: "event_encodable ev \<Longrightarrow> unmarshal_event (ms_Body (event_message ev)) = Some ev"
  by (simp add: event_message_def unmarshal_marshal)

lemma fifo_fetch:
  "event_encodable ev \<Longrightarrow> ps_fetch fifo_subscription x (event_message ev # b) = Ret (Pushing ev, b)"
  by (simp add: ps_fetch_def fifo_subscription_def unmarshal_event_message)

lemma ps_push_room: "\<not> ch_closed ch \<Longrightarrow> chan_room ch \<Longrightarrow> ps_push Background ev ch = Ret (Fetching, chan_push ev ch)"
  by (simp add: ps_push_def on_send_def on_done_def Background_def select_def chan_try_send_open)

text \<open>
  Two loops: one fetches the first of two messages, the other the second and pushes it first.
\<close>

lemma two_loops_swap:
  assumes "event_encodable e1" and "event_encodable e2"
  shows "\<exists>w. (ps_step fifo_subscription)\<^sup>*\<^sup>* (ps_world_start 2 [event_message e1, event_message e2]) w \<and>
    pw_fetched w = [e1, e2] \<and> ps_delivered w = [e2, e1]"
proof -
  let ?S = "ps_step fifo_subscription"
  let ?w0 = "ps_world_start 2 [event_message e1, event_message e2]"
  let ?c = "make_chan 256"
  define w1 where "w1 = ?w0\<lparr>pw_disp := (pw_disp ?w0)\<lparr>pd_broker := [event_message e2]\<rparr>,
    pw_loops := [Pushing e1, Fetching], pw_fetched := [e1]\<rparr>"
  define w2 where "w2 = w1\<lparr>pw_disp := (pw_disp w1)\<lparr>pd_broker := []\<rparr>, pw_loops := [Pushing e1, Pushing e2],
    pw_fetched := [e1, e2]\<rparr>"
  define w3 where "w3 = w2\<lparr>pw_disp := (pw_disp w2)\<lparr>pd_internal := chan_push e2 ?c\<rparr>, pw_loops := [Pushing e1, Fetching]\<rparr>"
  define w4 where "w4 = w3\<lparr>pw_disp := (pw_disp w3)\<lparr>pd_internal := chan_push e1 (chan_push e2 ?c)\<rparr>,
    pw_loops := [Fetching, Fetching]\<rparr>"
  have loops: "pw_loops ?w0 = [Fetching, Fetching]" by (simp add: ps_world_start_def numeral_2_eq_2)
  have "?S ?w0 w1"
    using ps_step.step_fetch [of 0 ?w0 fifo_subscription Background "Pushing e1" "[event_message e2]"] fifo_fetch [OF assms(1)]
    by (simp add: loops w1_def) (simp add: ps_world_start_def NewPubSubDispatcher_def)
  moreover have "?S w1 w2"
    using ps_step.step_fetch [of 1 w1 fifo_subscription Background "Pushing e2" "[]"] fifo_fetch [OF assms(2)]
    by (simp add: w2_def) (simp add: w1_def ps_world_start_def NewPubSubDispatcher_def)
  moreover have "?S w2 w3"
    using ps_step.step_push [of 1 w2 e2 Background Fetching "chan_push e2 ?c" fifo_subscription]
    by (simp add: w3_def) (simp add: w2_def w1_def ps_world_start_def NewPubSubDispatcher_def ps_push_room make_chan_def chan_room_def)
  moreover have "?S w3 w4"
    using ps_step.step_push [of 0 w3 e1 Background Fetching "chan_push e1 (chan_push e2 ?c)" fifo_subscription]
    by (simp add: w4_def) (simp add: w3_def w2_def ps_push_room make_chan_def chan_room_def chan_push_def)
  ultimately have "?S\<^sup>*\<^sup>* ?w0 w4" by (meson converse_rtranclp_into_rtranclp rtranclp.rtrancl_refl)
  moreover have "pw_fetched w4 = [e1, e2]" "ps_delivered w4 = [e2, e1]"
    by (simp_all add: w4_def w3_def w2_def w1_def ps_delivered_def ps_world_start_def chan_push_def make_chan_def)
  ultimately show ?thesis by blast
qed

section \<open>The broker's promises\<close>

text \<open>
  A topic that keeps a bag of messages: a successful send adds the message, a failed one adds
  nothing. A subscription to it: a received and acknowledged message is taken away.
\<close>

locale job_topic =
  fixes T :: "'b topic"
    and binv :: "'b \<Rightarrow> bool"
    and msgs :: "'b \<Rightarrow> message multiset"
  assumes send: "binv b \<Longrightarrow> \<exists>err b'. tp_send T x m b = Ret (err, b') \<and> binv b' \<and>
      msgs b' = (if err = None then add_mset m (msgs b) else msgs b)"

locale work_topic = job_topic T binv msgs
  for T :: "'b topic" and S :: "'b subscription" and binv msgs +
  assumes receive: "binv b \<Longrightarrow> su_receive S x b = Ret (Inr (k, m), b') \<Longrightarrow>
      binv (su_ack S k b') \<and> msgs b = add_mset m (msgs (su_ack S k b'))"
    and receive_fails: "binv b \<Longrightarrow> su_receive S x b = Ret (Inl err, b') \<Longrightarrow> binv b' \<and> msgs b' = msgs b"

definition tasks_in :: "message multiset \<Rightarrow> task multiset" where
  "tasks_in M = texts_tasks (image_mset ms_Body M)"

definition pubsub_inv :: "('b \<Rightarrow> bool) \<Rightarrow> 'b pubsub_dispatcher \<Rightarrow> bool" where
  "pubsub_inv binv d \<longleftrightarrow> binv (pd_broker d) \<and> \<not> ch_closed (pd_internal d) \<and> chan_ok (pd_internal d)"

definition pubsub_queued :: "('b \<Rightarrow> message multiset) \<Rightarrow> 'b pubsub_dispatcher \<Rightarrow> task multiset" where
  "pubsub_queued msgs d = tasks_in (msgs (pd_broker d))"

lemma tasks_in_add [simp]:
  "tasks_in (add_mset m M) =
     (case unmarshal_task (ms_Body m) of None \<Rightarrow> tasks_in M | Some t \<Rightarrow> add_mset t (tasks_in M))"
  by (simp add: tasks_in_def split: option.split)

lemma pubsub_dispatcher_ops_simps [simp]:
  "td_start (pubsub_dispatcher_ops T) = ps_start" "td_dispatch (pubsub_dispatcher_ops T) = ps_dispatch T"
  "td_receive_event (pubsub_dispatcher_ops T) = ps_receive_event"
  by (simp_all add: pubsub_dispatcher_ops_def)

context job_topic
begin

lemma dispatch_spec:
  assumes "pubsub_inv binv d"
  shows "\<exists>err d'. ps_dispatch T x t d = Ret (err, d') \<and> pubsub_inv binv d' \<and> pd_internal d' = pd_internal d \<and>
    (err = None \<longrightarrow> task_encodable t \<longrightarrow> pubsub_queued msgs d' = add_mset t (pubsub_queued msgs d)) \<and>
    (err \<noteq> None \<longrightarrow> pubsub_queued msgs d' = pubsub_queued msgs d)"
proof (cases "marshal_task t")
  case None
  with assms show ?thesis using unmarshal_marshal_task [of t] by (auto simp: ps_dispatch_def)
next
  case (Some body)
  have "binv (pd_broker d)" using assms by (simp add: pubsub_inv_def)
  from send [OF this, of x "\<lparr>ms_Body = body, ms_Metadata = [(''task_id'', task_ID t)]\<rparr>"]
  obtain err b' where b': "tp_send T x \<lparr>ms_Body = body, ms_Metadata = [(''task_id'', task_ID t)]\<rparr> (pd_broker d) = Ret (err, b')"
    "binv b'" "msgs b' = (if err = None then add_mset \<lparr>ms_Body = body, ms_Metadata = [(''task_id'', task_ID t)]\<rparr> (msgs (pd_broker d))
      else msgs (pd_broker d))" by blast
  have "task_encodable t \<Longrightarrow> unmarshal_task body = Some t" using unmarshal_marshal_task [of t] Some by auto
  with b' Some assms show ?thesis
    by (auto simp: ps_dispatch_def pubsub_inv_def pubsub_queued_def)
qed

end

sublocale job_topic \<subseteq> ps: channel_inbox "pubsub_dispatcher_ops T" "pubsub_inv binv" "pubsub_queued msgs"
    pd_internal "\<lambda>ch d. d\<lparr>pd_internal := ch\<rparr>" task_encodable
proof unfold_locales
  fix x t d
  assume "pubsub_inv binv d"
  from dispatch_spec [OF this, of x t] show "\<exists>err d'. td_dispatch (pubsub_dispatcher_ops T) x t d = Ret (err, d') \<and>
      pubsub_inv binv d' \<and> pd_internal d' = pd_internal d \<and>
      (err = None \<longrightarrow> task_encodable t \<longrightarrow> pubsub_queued msgs d' = add_mset t (pubsub_queued msgs d)) \<and>
      (err \<noteq> None \<longrightarrow> pubsub_queued msgs d' = pubsub_queued msgs d)" by simp
qed (auto simp: ps_receive_event_def pubsub_inv_def pubsub_queued_def chan_ok_def)

context work_topic
begin

text \<open>A worker takes one task; messages that do not decode are thrown away, tasks are not.\<close>

lemma receive_takes:
  "binv b \<Longrightarrow> ps_receive S n x b = Ret (r, b') \<Longrightarrow> binv b' \<and>
     tasks_in (msgs b) = (case r of Inl e \<Rightarrow> tasks_in (msgs b') | Inr t \<Rightarrow> add_mset t (tasks_in (msgs b')))"
proof (induction n arbitrary: b)
  case (Suc n)
  then obtain q b1 where q: "su_receive S x b = Ret (q, b1)" by auto
  show ?case
  proof (cases q)
    case (Inl err)
    with Suc.prems q receive_fails [OF Suc.prems(1), of x err b1] show ?thesis by auto
  next
    case (Inr km)
    obtain k m where km: "km = (k, m)" by (cases km)
    note rec = receive [OF Suc.prems(1), of x k m b1]
    show ?thesis
    proof (cases "unmarshal_task (ms_Body m)")
      case None
      with Suc.prems(2) q Inr km have "ps_receive S n x (su_ack S k b1) = Ret (r, b')" by simp
      with Suc.IH [of "su_ack S k b1"] rec q Inr km None show ?thesis by simp
    next
      case (Some t)
      with Suc.prems(2) q Inr km rec show ?thesis by auto
    qed
  qed
qed simp

end

interpretation fifo_work: work_topic fifo_topic fifo_subscription "\<lambda>_. True" mset
  by unfold_locales (auto simp: fifo_topic_def fifo_subscription_def split: list.splits if_splits)

text \<open>A topic that keeps what was sent in order, and whose sends succeed.\<close>

locale ordered_topic =
  fixes T :: "'b topic"
    and binv :: "'b \<Rightarrow> bool"
    and sent :: "'b \<Rightarrow> message list"
  assumes send_ok: "binv b \<Longrightarrow> \<exists>b'. tp_send T x m b = Ret (None, b') \<and> binv b' \<and> sent b' = sent b @ [m]"

sublocale ordered_topic \<subseteq> reliable_emitter "pubsub_consumer_ops S T n" binv sent event_message "\<lambda>_. True" "\<lambda>_. True" for S n
proof unfold_locales
  fix x ev b e b'
  assume b: "binv b"
  obtain c where c: "tp_send T x (event_message ev) b = Ret (None, c)" "binv c" "sent c = sent b @ [event_message ev]"
    using send_ok [OF b] by blast
  then have emit: "tc_emit (pubsub_consumer_ops S T n) x ev b = Ret (None, c)"
    by (simp add: pubsub_consumer_ops_def ps_emit_def)
  then show "tc_emit (pubsub_consumer_ops S T n) x ev b \<noteq> Panic" by simp
  from emit c show "\<exists>e c. tc_emit (pubsub_consumer_ops S T n) x ev b = Ret (e, c) \<and>
      (sent c = sent b \<or> sent c = sent b @ [event_message ev])" by blast
  assume "tc_emit (pubsub_consumer_ops S T n) x ev b = Ret (e, b')"
  with emit c show "binv b'" "sent b' = sent b @ [event_message ev]" by auto
qed

interpretation fifo_order: ordered_topic fifo_topic "\<lambda>_. True" "\<lambda>b. b"
  by unfold_locales (simp add: fifo_topic_def)

end
