(* ===== verification/BrokerSetup.thy ===== *)
theory BrokerSetup
  imports Pubsub "HOL-Library.Sublist"
begin

text \<open>
  Which topics and subscriptions the processes of patterns 6 and 7 open:
  \<^verbatim>\<open>patterns/p06/internal/pubsub/setup.go\<close> and \<^verbatim>\<open>aws.go\<close> (the files of p07 differ in comments
  only).

  \<^verbatim>\<open>pubsub.OpenTopic\<close> and \<^verbatim>\<open>pubsub.OpenSubscription\<close> are the arguments \<open>topic\<close> and \<open>subs\<close>, the
  calls of the AWS SDK the record \<open>aws\<close>; the environment variables are the record \<open>aws_env\<close>.

  \<^item> \<open>urls_agree\<close>: for every broker URL the three processes agree on whether it is supported and
    on the queues they share, and the manager does not listen to what it publishes.
\<close>

section \<open>URLs\<close>

record aws_env =
  ax_endpoint :: string
  ax_region :: string

text \<open>\<^verbatim>\<open>strings.Split(s, "://")[0]\<close> and \<^verbatim>\<open>strings.TrimPrefix\<close>.\<close>

fun before_scheme_sep :: "string \<Rightarrow> string" where
  "before_scheme_sep [] = []"
| "before_scheme_sep (c # cs) = (if take 3 (c # cs) = ''://'' then [] else c # before_scheme_sep cs)"

definition trim_prefix :: "string \<Rightarrow> string \<Rightarrow> string" where
  "trim_prefix p s = (if take (length p) s = p then drop (length p) s else s)"

definition unsupported :: "string \<Rightarrow> go_error" where
  "unsupported scheme =
     Errorf (''unsupported broker scheme: '' @ scheme @ '' (supported: nats, kafka, awssqs)'')"

definition sqs_endpoint :: "aws_env \<Rightarrow> string" where
  "sqs_endpoint A = trim_prefix ''https://'' (trim_prefix ''http://'' (ax_endpoint A))"

definition sqs_url :: "aws_env \<Rightarrow> string \<Rightarrow> string" where
  "sqs_url A queue = ''awssqs://'' @ sqs_endpoint A @ ''/000000000000/'' @ queue @ ''?region='' @ ax_region A"

definition topic_arn :: "string \<Rightarrow> string" where
  "topic_arn region = ''arn:aws:sns:'' @ region @ '':000000000000:api-events''"

record manager_urls =
  mu_tasksTopic :: string
  mu_eventsSub :: string
  mu_apiEventsTopic :: string

definition manager_urls_of :: "aws_env \<Rightarrow> string \<Rightarrow> go_error + manager_urls" where
  "manager_urls_of A brokerURL =
     (let scheme = before_scheme_sep brokerURL
      in if scheme = ''nats'' then
           Inr \<lparr>mu_tasksTopic = brokerURL @ ''/tasks.new?stream_name=TASKS'',
             mu_eventsSub = brokerURL @ ''/events.workers?stream_name=EVENTS&consumer_durable_name=manager-events'',
             mu_apiEventsTopic = brokerURL @ ''/events.api?stream_name=EVENTS''\<rparr>
         else if scheme = ''kafka'' then
           Inr \<lparr>mu_tasksTopic = ''kafka://tasks'', mu_eventsSub = ''kafka://manager?topic=worker_events'',
             mu_apiEventsTopic = ''kafka://api_events''\<rparr>
         else if scheme = ''awssqs'' \<or> scheme = ''awssnssqs'' then
           Inr \<lparr>mu_tasksTopic = sqs_url A ''worker-tasks'', mu_eventsSub = sqs_url A ''manager-events'',
             mu_apiEventsTopic = ''awssns:///'' @ topic_arn (ax_region A) @ ''?region='' @ ax_region A @
               ''&endpoint='' @ ax_endpoint A\<rparr>
         else Inl (unsupported scheme))"

text \<open>The tasks subscription and the events topic of a worker.\<close>

definition worker_urls_of :: "aws_env \<Rightarrow> string \<Rightarrow> go_error + string \<times> string" where
  "worker_urls_of A brokerURL =
     (let scheme = before_scheme_sep brokerURL
      in if scheme = ''nats'' then
           Inr (brokerURL @ ''/tasks.new?stream_name=TASKS&consumer_durable_name=workers'',
                brokerURL @ ''/events.workers?stream_name=EVENTS'')
         else if scheme = ''kafka'' then Inr (''kafka://workers?topic=tasks'', ''kafka://worker_events'')
         else if scheme = ''awssqs'' \<or> scheme = ''awssnssqs'' then
           Inr (sqs_url A ''worker-tasks'', sqs_url A ''manager-events'')
         else Inl (unsupported scheme))"

section \<open>Opening the resources\<close>

type_synonym 'r opener = "string \<Rightarrow> go_error + 'r"

definition OpenManagerResources :: "'t opener \<Rightarrow> 's opener \<Rightarrow> aws_env \<Rightarrow> string \<Rightarrow> go_error + 't \<times> 's \<times> 't" where
  "OpenManagerResources topic subs A brokerURL =
     (case manager_urls_of A brokerURL of
        Inl e \<Rightarrow> Inl e
      | Inr u \<Rightarrow>
          (case topic (mu_tasksTopic u) of
             Inl e \<Rightarrow> Inl e
           | Inr tasksTopic \<Rightarrow>
               (case subs (mu_eventsSub u) of
                  Inl e \<Rightarrow> Inl e
                | Inr eventsSub \<Rightarrow>
                    (case topic (mu_apiEventsTopic u) of
                       Inl e \<Rightarrow> Inl e
                     | Inr apiEventsTopic \<Rightarrow> Inr (tasksTopic, eventsSub, apiEventsTopic)))))"

definition OpenWorkerResources :: "'t opener \<Rightarrow> 's opener \<Rightarrow> aws_env \<Rightarrow> string \<Rightarrow> go_error + 's \<times> 't" where
  "OpenWorkerResources topic subs A brokerURL =
     (case worker_urls_of A brokerURL of
        Inl e \<Rightarrow> Inl e
      | Inr (tasksSubURL, eventsTopicURL) \<Rightarrow>
          (case subs tasksSubURL of
             Inl e \<Rightarrow> Inl e
           | Inr tasksSub \<Rightarrow>
               (case topic eventsTopicURL of Inl e \<Rightarrow> Inl e | Inr eventsTopic \<Rightarrow> Inr (tasksSub, eventsTopic))))"

text \<open>
  The queue of an API process on AWS: the SDK's calls, each with its possible error. \<open>aw_attrs\<close>
  gives the attributes of the queue as a map; a missing entry reads as the empty string.
\<close>

record 'a aws =
  aw_config :: "string \<Rightarrow> string option \<Rightarrow> 'a \<Rightarrow> go_error option \<times> 'a"
  aw_create :: "string \<Rightarrow> 'a \<Rightarrow> (go_error + string) \<times> 'a"
  aw_attrs :: "string \<Rightarrow> 'a \<Rightarrow> (go_error + (string \<rightharpoonup> string)) \<times> 'a"
  aw_policy :: "string \<Rightarrow> string \<Rightarrow> 'a \<Rightarrow> go_error option \<times> 'a"
  aw_subscribe :: "string \<Rightarrow> string \<Rightarrow> 'a \<Rightarrow> go_error option \<times> 'a"

definition quoted :: "string \<Rightarrow> string" where
  "quoted s = dquote # s @ [dquote]"

abbreviation tab :: char where
  "tab \<equiv> CHR 0x09"

definition policy_text :: "string \<Rightarrow> string \<Rightarrow> string" where
  "policy_text arn region =
     ''{'' @ [newline, tab, tab] @ quoted ''Statement'' @ '': [{'' @
     [newline, tab, tab, tab] @ quoted ''Effect'' @ '': '' @ quoted ''Allow'' @ '','' @
     [newline, tab, tab, tab] @ quoted ''Principal'' @ '': {'' @ quoted ''Service'' @ '': '' @ quoted ''sns.amazonaws.com'' @ ''},'' @
     [newline, tab, tab, tab] @ quoted ''Action'' @ '': '' @ quoted ''sqs:SendMessage'' @ '','' @
     [newline, tab, tab, tab] @ quoted ''Resource'' @ '': '' @ quoted arn @ '','' @
     [newline, tab, tab, tab] @ quoted ''Condition'' @ '': {'' @
     [newline, tab, tab, tab, tab] @ quoted ''ArnEquals'' @ '': {'' @ quoted ''aws:SourceArn'' @ '': '' @
       quoted (topic_arn region) @ ''}'' @
     [newline, tab, tab, tab] @ ''}'' @ [newline, tab, tab] @ ''}]'' @ [newline, tab] @ ''}''"

definition awssqs_url :: "string \<Rightarrow> string \<Rightarrow> string" where
  "awssqs_url queueURL region =
     (let sqsURL = (if take 7 queueURL = ''http://'' then drop 7 queueURL
                    else if take 8 queueURL = ''https://'' then drop 8 queueURL else queueURL)
      in ''awssqs://'' @ sqsURL @ ''?region='' @ region)"

definition wrap_error :: "string \<Rightarrow> go_error \<Rightarrow> go_error" where
  "wrap_error what e = Errorf (what @ '': '' @ error_text e)"

definition api_queue_name :: "go_error + string \<Rightarrow> nat \<Rightarrow> string" where
  "api_queue_name host nano = ''api-events-'' @ (case host of Inr h \<Rightarrow> h | Inl e \<Rightarrow> ''api-'' @ itoa nano)"

definition openAWSAPISubscription :: "'a aws \<Rightarrow> 's opener \<Rightarrow> aws_env \<Rightarrow> go_error + string \<Rightarrow> nat \<Rightarrow> 'a \<Rightarrow>
    (go_error + 's) \<times> 'a" where
  "openAWSAPISubscription W subs A host nano a0 =
     (case aw_config W (ax_region A) (if ax_endpoint A = [] then None else Some (ax_endpoint A)) a0 of
        (Some e, a1) \<Rightarrow> (Inl (wrap_error ''aws config'' e), a1)
      | (None, a1) \<Rightarrow>
     (case aw_create W (api_queue_name host nano) a1 of
        (Inl e, a2) \<Rightarrow> (Inl (wrap_error ''create queue'' e), a2)
      | (Inr queueURL, a2) \<Rightarrow>
     (case aw_attrs W queueURL a2 of
        (Inl e, a3) \<Rightarrow> (Inl (wrap_error ''get queue arn'' e), a3)
      | (Inr attrs, a3) \<Rightarrow>
          let queueARN = (case attrs ''QueueArn'' of None \<Rightarrow> [] | Some v \<Rightarrow> v)
          in (case aw_policy W queueURL (policy_text queueARN (ax_region A)) a3 of
                (Some e, a4) \<Rightarrow> (Inl (wrap_error ''set queue policy'' e), a4)
              | (None, a4) \<Rightarrow>
             (case aw_subscribe W (topic_arn (ax_region A)) queueARN a4 of
                (Some e, a5) \<Rightarrow> (Inl (wrap_error ''subscribe to sns'' e), a5)
              | (None, a5) \<Rightarrow> (subs (awssqs_url queueURL (ax_region A)), a5))))))"

definition OpenAPIResources :: "'a aws \<Rightarrow> 's opener \<Rightarrow> aws_env \<Rightarrow> go_error + string \<Rightarrow> nat \<Rightarrow> string \<Rightarrow> 'a \<Rightarrow>
    (go_error + 's) \<times> 'a" where
  "OpenAPIResources W subs A host nano brokerURL a =
     (let scheme = before_scheme_sep brokerURL
      in if scheme = ''nats'' then (subs (brokerURL @ ''/events.api?stream_name=EVENTS''), a)
         else if scheme = ''kafka'' then
           (subs (''kafka://api-'' @ (case host of Inr h \<Rightarrow> h | Inl e \<Rightarrow> itoa nano) @ ''?topic=api_events''), a)
         else if scheme = ''awssqs'' \<or> scheme = ''awssnssqs'' then openAWSAPISubscription W subs A host nano a
         else (Inl (unsupported scheme), a))"

section \<open>Agreement\<close>

text \<open>A subscription URL that reads what a topic URL writes, in the three notations.\<close>

definition reads_topic :: "string \<Rightarrow> string \<Rightarrow> bool" where
  "reads_topic sub topic \<longleftrightarrow> sub = topic \<or> prefix (topic @ ''&consumer_durable_name='') sub \<or>
     (\<exists>g q. topic = ''kafka://'' @ q \<and> sub = ''kafka://'' @ g @ ''?topic='' @ q)"

lemma urls_agree:
  "(case manager_urls_of A u of
     Inl e \<Rightarrow> worker_urls_of A u = Inl e
   | Inr m \<Rightarrow> \<exists>tasksSub eventsTopic. worker_urls_of A u = Inr (tasksSub, eventsTopic) \<and>
       reads_topic tasksSub (mu_tasksTopic m) \<and> reads_topic (mu_eventsSub m) eventsTopic \<and>
       \<not> reads_topic (mu_eventsSub m) (mu_apiEventsTopic m))"
proof -
  consider "before_scheme_sep u = ''nats''" | "before_scheme_sep u = ''kafka''"
    | "before_scheme_sep u = ''awssqs'' \<or> before_scheme_sep u = ''awssnssqs''"
    | "before_scheme_sep u \<notin> {''nats'', ''kafka'', ''awssqs'', ''awssnssqs''}" by blast
  then show ?thesis
  proof cases
    case 1
    then obtain r where u: "u = ''n'' @ r" by (cases u) (auto split: if_splits)
    show ?thesis using 1
      by (simp add: manager_urls_of_def worker_urls_of_def Let_def reads_topic_def) (simp add: u)
  next
    case 2
    then show ?thesis
      by (simp add: manager_urls_of_def worker_urls_of_def Let_def reads_topic_def)
  next
    case 3
    then show ?thesis
      by (elim disjE) (simp_all add: manager_urls_of_def worker_urls_of_def Let_def reads_topic_def sqs_url_def)
  next
    case 4
    then show ?thesis
      by (simp add: manager_urls_of_def worker_urls_of_def OpenAPIResources_def Let_def)
  qed
qed

text \<open>The API's subscription reads the manager's topic; on AWS a queue is subscribed to it by the SDK.\<close>

lemma api_url_unsupported: "manager_urls_of A u = Inl e \<Longrightarrow> OpenAPIResources W subs A host nano u a = (Inl e, a)"
  by (auto simp: manager_urls_of_def OpenAPIResources_def Let_def split: if_splits)

lemma api_url_agrees:
  assumes "manager_urls_of A u = Inr m"
  shows "before_scheme_sep u \<in> {''awssqs'', ''awssnssqs''} \<or>
    (\<exists>v. OpenAPIResources W subs A host nano u a = (subs v, a) \<and> reads_topic v (mu_apiEventsTopic m))"
proof -
  let ?id = "case host of Inr h \<Rightarrow> h | Inl e \<Rightarrow> itoa nano"
  consider "before_scheme_sep u = ''nats''" | "before_scheme_sep u = ''kafka''"
    | "before_scheme_sep u \<in> {''awssqs'', ''awssnssqs''}"
    using assms by (auto simp: manager_urls_of_def Let_def split: if_splits)
  then show ?thesis
  proof cases
    case 1
    with assms show ?thesis
      by (intro disjI2 exI [of _ "u @ ''/events.api?stream_name=EVENTS''"])
        (auto simp: manager_urls_of_def OpenAPIResources_def reads_topic_def Let_def)
  next
    case 2
    have "reads_topic (''kafka://'' @ (''api-'' @ ?id) @ ''?topic='' @ ''api_events'') (''kafka://'' @ ''api_events'')"
      unfolding reads_topic_def by blast
    with 2 assms show ?thesis
      by (intro disjI2 exI [of _ "''kafka://'' @ (''api-'' @ ?id) @ ''?topic='' @ ''api_events''"])
        (auto simp: manager_urls_of_def OpenAPIResources_def Let_def)
  qed simp
qed

end
