(* ===== verification/Nats.thy ===== *)
theory Nats
  imports Pubsub
begin

text \<open>
  Pattern 5, the transport over NATS: \<^verbatim>\<open>patterns/p05/internal/nats\<close> and the event bridge of
  \<^verbatim>\<open>shared/events/nats.go\<close>.

  The connection (\<^verbatim>\<open>nats.go\<close>) is the record \<open>nats\<close>, over a state \<open>'b\<close>: what the code calls of it.
  What the library calls back is a function of its own (\<open>nats_on_event\<close>, \<open>nats_on_task\<close>,
  \<open>bridge_callback\<close>): the library runs the callbacks of one subscription one after another.

  \<^item> \<open>nats_deliver_spec\<close>: the manager's callback keeps the order and every final event.
  \<^item> \<open>nats_task_acked\<close>: a task is acknowledged while it is still in the buffer.
  \<^item> \<open>nats_sub_subseq\<close>, \<open>nats_sub_panics\<close>: what a bridge subscriber reads, and the race between a
    running callback and the closing of its channel.
  \<^item> \<open>work_stream\<close>: what JetStream promises of published and acknowledged messages; from it the
    dispatcher contract, and that a worker's callback loses no task. \<open>core_publish\<close>: what a
    connection promises of plain publishing; from it the delivery of a worker's events.
    \<open>stream_conn\<close> is a connection of this kind and interprets both.
\<close>

section \<open>The connection\<close>

text \<open>
  In order: \<^verbatim>\<open>nc.Publish\<close>, \<^verbatim>\<open>js.Publish\<close>, \<^verbatim>\<open>msg.Ack\<close>, \<^verbatim>\<open>msg.Nak\<close>, \<^verbatim>\<open>QueueSubscribe\<close> (subject and
  queue group), \<^verbatim>\<open>Unsubscribe\<close>, \<^verbatim>\<open>js.AddStream\<close> (name and subject).
\<close>

record 'b nats =
  nt_publish :: "string \<Rightarrow> string \<Rightarrow> 'b \<Rightarrow> go_error option \<times> 'b"
  nt_js_publish :: "string \<Rightarrow> string \<Rightarrow> 'b \<Rightarrow> go_error option \<times> 'b"
  nt_ack :: "nat \<Rightarrow> 'b \<Rightarrow> go_error option \<times> 'b"
  nt_nak :: "nat \<Rightarrow> 'b \<Rightarrow> go_error option \<times> 'b"
  nt_queue_subscribe :: "string \<Rightarrow> string \<Rightarrow> 'b \<Rightarrow> go_error option \<times> 'b"
  nt_unsubscribe :: "'b \<Rightarrow> go_error option \<times> 'b"
  nt_add_stream :: "string \<Rightarrow> string \<Rightarrow> 'b \<Rightarrow> go_error option \<times> 'b"

definition StreamName :: string where
  "StreamName = ''TASKS''"

definition StreamSubj :: string where
  "StreamSubj = ''tasks.>''"

definition ConsumerDur :: string where
  "ConsumerDur = ''workers''"

text \<open>\<^verbatim>\<open>SetupJetStream\<close> logs the error of the call and returns nil.\<close>

definition SetupJetStream :: "'b nats \<Rightarrow> 'b \<Rightarrow> go_error option \<times> 'b" where
  "SetupJetStream N b = (None, snd (nt_add_stream N StreamName StreamSubj b))"

section \<open>Dispatcher\<close>

record 'b nats_dispatcher =
  nd_conn :: 'b
  nd_events :: "task_event chan"

definition NewNATSDispatcher :: "'b \<Rightarrow> 'b nats_dispatcher" where
  "NewNATSDispatcher b = \<lparr>nd_conn = b, nd_events = make_chan 256\<rparr>"

definition nats_start :: "'b nats \<Rightarrow> ctx \<Rightarrow> 'b nats_dispatcher \<Rightarrow> go_error option \<times> 'b nats_dispatcher" where
  "nats_start N x d =
     (let (err, b) = nt_queue_subscribe N ''worker.events.*'' ''managers'' (nd_conn d)
      in (err, d\<lparr>nd_conn := b\<rparr>))"

text \<open>The callback of that subscription.\<close>

definition nats_on_event :: "string \<Rightarrow> task_event chan \<Rightarrow> task_event chan outcome" where
  "nats_on_event data ch =
     (case unmarshal_event data of
        None \<Rightarrow> Ret ch
      | Some ev \<Rightarrow>
          if ev_Type ev = EventTaskStatus \<and> (ev_Status ev = TaskCompleted \<or> ev_Status ev = TaskFailed)
          then chan_send ev ch
          else omap snd (chan_try_send ev ch))"

definition nats_dispatch :: "'b nats \<Rightarrow> ctx \<Rightarrow> task \<Rightarrow> 'b nats_dispatcher \<Rightarrow>
    (go_error option \<times> 'b nats_dispatcher) outcome" where
  "nats_dispatch N x t d =
     (case marshal_task t of
        None \<Rightarrow> Ret (Some (Errorf ''json: error calling MarshalJSON''), d)
      | Some payload \<Rightarrow>
          let (err, b) = nt_js_publish N ''tasks.new'' payload (nd_conn d)
          in Ret (err, d\<lparr>nd_conn := b\<rparr>))"

definition nats_receive_event :: "ctx \<Rightarrow> 'b nats_dispatcher \<Rightarrow>
    ((go_error + task_event) \<times> 'b nats_dispatcher) outcome" where
  "nats_receive_event x d =
     select (ctx_pick x)
       (on_done x (Inl (ctx_err x), d) @
        on_recv zero_event (nd_events d) (\<lambda>ev ch. (Inr ev, d\<lparr>nd_events := ch\<rparr>)))"

definition nats_dispatcher_ops :: "'b nats \<Rightarrow> 'b nats_dispatcher task_dispatcher" where
  "nats_dispatcher_ops N =
     \<lparr>td_start = nats_start N, td_dispatch = nats_dispatch N, td_receive_event = nats_receive_event\<rparr>"

section \<open>Consumer\<close>

record 'b nats_consumer =
  nk_conn :: 'b
  nk_tasks :: "task chan"

definition NewNATSConsumer :: "'b \<Rightarrow> 'b nats_consumer" where
  "NewNATSConsumer b = \<lparr>nk_conn = b, nk_tasks = make_chan 1\<rparr>"

text \<open>\<^verbatim>\<open>Connect\<close> only starts the goroutine \<^verbatim>\<open>subscribe\<close>, which subscribes and waits for the context.\<close>

definition nats_connect :: "ctx \<Rightarrow> 'b nats_consumer \<Rightarrow> (go_error option \<times> 'b nats_consumer) outcome" where
  "nats_connect x c = Ret (None, c)"

text \<open>The start of \<^verbatim>\<open>subscribe\<close> (an error ends it), and its end when the context is done.\<close>

definition nats_subscribe :: "'b nats \<Rightarrow> 'b nats_consumer \<Rightarrow> bool \<times> 'b nats_consumer" where
  "nats_subscribe N c =
     (let (err, b) = nt_queue_subscribe N ''tasks.new'' ConsumerDur (nk_conn c)
      in (err = None, c\<lparr>nk_conn := b\<rparr>))"

definition nats_subscribe_end :: "'b nats \<Rightarrow> 'b nats_consumer \<Rightarrow> 'b nats_consumer" where
  "nats_subscribe_end N c = c\<lparr>nk_conn := snd (nt_unsubscribe N (nk_conn c))\<rparr>"

text \<open>The callback for the message number \<open>k\<close>; the errors of \<^verbatim>\<open>Ack\<close> and \<^verbatim>\<open>Nak\<close> are logged only.\<close>

definition nats_on_task :: "'b nats \<Rightarrow> ctx \<Rightarrow> nat \<Rightarrow> string \<Rightarrow> 'b nats_consumer \<Rightarrow> 'b nats_consumer outcome" where
  "nats_on_task N x k data c =
     (case unmarshal_task data of
        None \<Rightarrow> Ret (c\<lparr>nk_conn := snd (nt_nak N k (nk_conn c))\<rparr>)
      | Some t \<Rightarrow>
          if ch_closed (nk_tasks c) then Panic
          else select (ctx_pick x)
            (on_send t (nk_tasks c) (\<lambda>ch. c\<lparr>nk_tasks := ch, nk_conn := snd (nt_ack N k (nk_conn c))\<rparr>) @
             on_done x c))"

definition nats_receive :: "ctx \<Rightarrow> 'b nats_consumer \<Rightarrow> ((go_error + task) \<times> 'b nats_consumer) outcome" where
  "nats_receive x c =
     select (ctx_pick x)
       (on_done x (Inl (ctx_err x), c) @
        on_recv zero_task (nk_tasks c) (\<lambda>t ch. (Inr t, c\<lparr>nk_tasks := ch\<rparr>)))"

definition nats_emit :: "'b nats \<Rightarrow> ctx \<Rightarrow> task_event \<Rightarrow> 'b nats_consumer \<Rightarrow>
    (go_error option \<times> 'b nats_consumer) outcome" where
  "nats_emit N x ev c =
     (let (err, b) = nt_publish N (''worker.events.'' @ ev_TaskID ev) (marshal_event ev) (nk_conn c)
      in Ret (err, c\<lparr>nk_conn := b\<rparr>))"

definition nats_consumer_ops :: "'b nats \<Rightarrow> 'b nats_consumer task_consumer" where
  "nats_consumer_ops N = \<lparr>tc_connect = nats_connect, tc_receive = nats_receive, tc_emit = nats_emit N\<rparr>"

section \<open>Event bridge\<close>

record 'b nats_bridge =
  nb_conn :: 'b
  nb_prefix :: string

definition NewNATSBridge :: "'b \<Rightarrow> string \<Rightarrow> 'b nats_bridge" where
  "NewNATSBridge b p = \<lparr>nb_conn = b, nb_prefix = (if p = [] then ''task.events'' else p)\<rparr>"

definition nats_publish :: "'b nats \<Rightarrow> task_event \<Rightarrow> 'b nats_bridge \<Rightarrow> 'b nats_bridge" where
  "nats_publish N ev b =
     b\<lparr>nb_conn := snd (nt_publish N (nb_prefix b @ ''.'' @ ev_TaskID ev) (marshal_event ev) (nb_conn b))\<rparr>"

definition nats_bridge_ops :: "'b nats \<Rightarrow> 'b nats_bridge event_publisher" where
  "nats_bridge_ops N = \<lparr>ep_publish = (\<lambda>p ev b. Ret (nats_publish N ev b))\<rparr>"

text \<open>\<^verbatim>\<open>Subscribe\<close>: the subject it listens on and the channel it returns.\<close>

definition nats_bridge_subscribe :: "'b nats_bridge \<Rightarrow> string \<times> task_event chan" where
  "nats_bridge_subscribe b = (nb_prefix b @ ''.*'', make_chan 256)"

text \<open>
  A subscriber: its channel, the event a running callback has decoded and not yet sent, and
  how far the goroutine that ends the subscription has come. The library delivers a message
  when no callback runs and the subscription stands; \<^verbatim>\<open>Unsubscribe\<close> does not wait for a callback.
\<close>

datatype sub_phase = Subscribed | Unsubscribed | Closed

record nats_sub =
  ns_chan :: "task_event chan"
  ns_running :: "task_event option"
  ns_phase :: sub_phase
  ns_delivered :: "task_event list"
  ns_read :: "task_event list"

definition nats_sub_start :: nats_sub where
  "nats_sub_start = \<lparr>ns_chan = make_chan 256, ns_running = None, ns_phase = Subscribed, ns_delivered = [], ns_read = []\<rparr>"

definition bridge_callback :: "task_event \<Rightarrow> task_event chan \<Rightarrow> (bool \<times> task_event chan) outcome" where
  "bridge_callback ev ch = chan_try_send ev ch"

inductive nats_sub_step :: "nats_sub \<Rightarrow> nats_sub \<Rightarrow> bool" where
  step_deliver:
    "ns_phase s = Subscribed \<Longrightarrow> ns_running s = None \<Longrightarrow> unmarshal_event data = Some ev \<Longrightarrow>
     nats_sub_step s (s\<lparr>ns_running := Some ev, ns_delivered := ns_delivered s @ [ev]\<rparr>)"
| step_callback:
    "ns_running s = Some ev \<Longrightarrow> bridge_callback ev (ns_chan s) = Ret (ok, ch) \<Longrightarrow>
     nats_sub_step s (s\<lparr>ns_running := None, ns_chan := ch\<rparr>)"
| step_unsubscribe:
    "ns_phase s = Subscribed \<Longrightarrow> nats_sub_step s (s\<lparr>ns_phase := Unsubscribed\<rparr>)"
| step_close:
    "ns_phase s = Unsubscribed \<Longrightarrow> chan_close (ns_chan s) = Ret ch \<Longrightarrow>
     nats_sub_step s (s\<lparr>ns_phase := Closed, ns_chan := ch\<rparr>)"
| step_read:
    "chan_recv (ns_chan s) = Ret (Some ev, ch) \<Longrightarrow>
     nats_sub_step s (s\<lparr>ns_chan := ch, ns_read := ns_read s @ [ev]\<rparr>)"

section \<open>The manager's callback\<close>

fun nats_deliver :: "string list \<Rightarrow> task_event chan \<Rightarrow> task_event chan outcome" where
  "nats_deliver [] ch = Ret ch"
| "nats_deliver (data # ds) ch = obind (nats_on_event data ch) (nats_deliver ds)"

lemma nats_on_event_cases:
  assumes "nats_on_event data ch = Ret ch'" and "unmarshal_event data = Some ev"
  shows "ch_buf ch' = ch_buf ch @ [ev] \<or> (\<not> is_terminal ev \<and> ch' = ch)"
  using assms
  by (auto simp: nats_on_event_def is_terminal_def chan_try_send_Ret chan_send_def chan_push_def split: if_splits)

lemma nats_deliver_spec:
  "nats_deliver ds ch = Ret ch' \<Longrightarrow> list_all2 (\<lambda>data ev. unmarshal_event data = Some ev) ds evs \<Longrightarrow>
     \<exists>ys. ch_buf ch' = ch_buf ch @ ys \<and> subseq ys evs \<and> filter is_terminal ys = filter is_terminal evs"
proof (induction ds arbitrary: ch evs)
  case (Cons data ds)
  then obtain ev evs' where evs: "evs = ev # evs'" "unmarshal_event data = Some ev"
    "list_all2 (\<lambda>data ev. unmarshal_event data = Some ev) ds evs'" by (auto simp: list_all2_Cons1)
  from Cons.prems(1) obtain ch1 where ch1: "nats_on_event data ch = Ret ch1" "nats_deliver ds ch1 = Ret ch'" by auto
  from Cons.IH [OF ch1(2) evs(3)] obtain ys where ys: "ch_buf ch' = ch_buf ch1 @ ys" "subseq ys evs'"
    "filter is_terminal ys = filter is_terminal evs'" by blast
  from nats_on_event_cases [OF ch1(1) evs(2)] show ?case
  proof
    assume "ch_buf ch1 = ch_buf ch @ [ev]"
    with ys evs(1) show ?thesis by (intro exI [of _ "ev # ys"]) auto
  next
    assume "\<not> is_terminal ev \<and> ch1 = ch"
    with ys evs(1) show ?thesis by (intro exI [of _ ys]) auto
  qed
qed simp

text \<open>A task is acknowledged when it enters the one-place buffer, before any \<^verbatim>\<open>Receive\<close>.\<close>

lemma nats_task_acked:
  assumes "unmarshal_task data = Some t" and "\<not> ctx_done x"
  shows "nats_on_task N x k data (NewNATSConsumer b) =
    Ret \<lparr>nk_conn = snd (nt_ack N k b), nk_tasks = chan_push t (make_chan 1)\<rparr>"
  using assms by (simp add: nats_on_task_def NewNATSConsumer_def on_send_def on_done_def select_def make_chan_def chan_room_def)

section \<open>The subscriber\<close>

definition nats_sub_inv :: "nats_sub \<Rightarrow> bool" where
  "nats_sub_inv s \<longleftrightarrow> (ch_closed (ns_chan s) \<longleftrightarrow> ns_phase s = Closed) \<and>
     (case ns_running s of
        None \<Rightarrow> subseq (ns_read s @ ch_buf (ns_chan s)) (ns_delivered s)
      | Some ev \<Rightarrow> \<exists>zs. ns_delivered s = zs @ [ev] \<and> subseq (ns_read s @ ch_buf (ns_chan s)) zs)"

lemma nats_sub_step_inv:
  assumes "nats_sub_step s s'" and inv: "nats_sub_inv s"
  shows "nats_sub_inv s'"
  using assms(1)
proof cases
  case (step_callback ev ok ch)
  with inv obtain zs where zs: "ns_delivered s = zs @ [ev]" "subseq (ns_read s @ ch_buf (ns_chan s)) zs"
    and open': "ch_closed (ns_chan s) \<longleftrightarrow> ns_phase s = Closed" by (auto simp: nats_sub_inv_def)
  have "ch = ns_chan s \<or> ch = chan_push ev (ns_chan s)"
    using step_callback(3) by (auto simp: bridge_callback_def chan_try_send_Ret split: if_splits)
  then show ?thesis
  proof
    assume "ch = ns_chan s"
    with step_callback zs open' show ?thesis by (simp add: nats_sub_inv_def list_emb_prefix)
  next
    assume ch: "ch = chan_push ev (ns_chan s)"
    have "subseq ((ns_read s @ ch_buf (ns_chan s)) @ [ev]) (zs @ [ev])" using zs(2) by (subst subseq_append) simp
    with ch step_callback zs open' show ?thesis by (simp add: nats_sub_inv_def chan_push_def)
  qed
next
  case (step_read ev ch)
  then have "ch_buf (ns_chan s) = ev # ch_buf ch" "ch_closed ch = ch_closed (ns_chan s)"
    by (auto simp: chan_recv_def split: list.splits if_splits)
  with step_read inv show ?thesis by (auto simp: nats_sub_inv_def split: option.splits)
qed (use inv in \<open>auto simp: nats_sub_inv_def chan_close_def split: if_splits option.splits\<close>)

text \<open>A subscriber reads a subsequence of what was delivered to it, in order.\<close>

lemma nats_sub_subseq:
  assumes "nats_sub_step\<^sup>*\<^sup>* nats_sub_start s"
  shows "subseq (ns_read s) (ns_delivered s)" "ns_phase s \<noteq> Closed \<Longrightarrow> bridge_callback ev (ns_chan s) \<noteq> Panic"
proof -
  have inv: "nats_sub_inv s"
    using assms
  proof (induction rule: rtranclp_induct)
    case base
    show ?case by (simp add: nats_sub_inv_def nats_sub_start_def make_chan_def)
  next
    case (step s s')
    from step(2,3) show ?case by (rule nats_sub_step_inv)
  qed
  show "subseq (ns_read s) (ns_delivered s)"
  proof (cases "ns_running s")
    case None
    with inv have "subseq (ns_read s @ ch_buf (ns_chan s)) (ns_delivered s)" by (simp add: nats_sub_inv_def)
    then show ?thesis by (rule subseq_order.trans [rotated]) (rule list_emb_prefix, simp)
  next
    case (Some ev)
    with inv obtain zs where "ns_delivered s = zs @ [ev]" "subseq (ns_read s @ ch_buf (ns_chan s)) zs"
      by (auto simp: nats_sub_inv_def)
    moreover have "subseq (ns_read s) (ns_read s @ ch_buf (ns_chan s))" by (rule list_emb_prefix) simp
    ultimately show ?thesis by (auto intro: list_emb_prefix subseq_order.trans)
  qed
  show "ns_phase s \<noteq> Closed \<Longrightarrow> bridge_callback ev (ns_chan s) \<noteq> Panic"
    using inv by (simp add: nats_sub_inv_def bridge_callback_def chan_try_send_def)
qed

text \<open>The race: a callback that was running when the subscription ended sends on the closed channel.\<close>

lemma nats_sub_panics:
  assumes "unmarshal_event data = Some ev"
  shows "\<exists>s. nats_sub_step\<^sup>*\<^sup>* nats_sub_start s \<and> ns_running s = Some ev \<and> bridge_callback ev (ns_chan s) = Panic"
proof -
  let ?s1 = "nats_sub_start\<lparr>ns_running := Some ev, ns_delivered := [ev]\<rparr>"
  let ?s2 = "?s1\<lparr>ns_phase := Unsubscribed\<rparr>"
  let ?s3 = "?s2\<lparr>ns_phase := Closed, ns_chan := (make_chan 256)\<lparr>ch_closed := True\<rparr>\<rparr>"
  have "nats_sub_step nats_sub_start ?s1"
    using nats_sub_step.step_deliver [of nats_sub_start data ev] assms by (simp add: nats_sub_start_def)
  moreover have "nats_sub_step ?s1 ?s2" by (rule nats_sub_step.step_unsubscribe) (simp add: nats_sub_start_def)
  moreover have "nats_sub_step ?s2 ?s3"
    by (rule nats_sub_step.step_close) (simp_all add: nats_sub_start_def chan_close_def make_chan_def)
  ultimately have "nats_sub_step\<^sup>*\<^sup>* nats_sub_start ?s3" by (meson converse_rtranclp_into_rtranclp rtranclp.rtrancl_refl)
  then show ?thesis
    by (intro exI [of _ ?s3]) (simp add: bridge_callback_def chan_try_send_def)
qed

section \<open>The promises of the connection\<close>

text \<open>
  \<open>jobs\<close> are the texts on \<^verbatim>\<open>tasks.new\<close> that are not acknowledged, \<open>held\<close> the text of a message
  that has been handed to a callback. A failed acknowledgement may or may not have been noted.
\<close>

locale work_stream =
  fixes N :: "'b nats"
    and binv :: "'b \<Rightarrow> bool"
    and jobs :: "'b \<Rightarrow> string multiset"
    and held :: "'b \<Rightarrow> nat \<Rightarrow> string option"
  assumes js_publish: "binv b \<Longrightarrow> nt_js_publish N ''tasks.new'' data b = (err, b') \<Longrightarrow>
      binv b' \<and> jobs b' = (if err = None then add_mset data (jobs b) else jobs b)"
    and ack: "binv b \<Longrightarrow> held b k = Some data \<Longrightarrow> nt_ack N k b = (err, b') \<Longrightarrow>
      binv b' \<and> (jobs b = add_mset data (jobs b') \<or> err \<noteq> None \<and> jobs b' = jobs b)"
    and nak: "binv b \<Longrightarrow> nt_nak N k b = (err, b') \<Longrightarrow> binv b' \<and> jobs b' = jobs b"

definition nats_inv :: "('b \<Rightarrow> bool) \<Rightarrow> 'b nats_dispatcher \<Rightarrow> bool" where
  "nats_inv binv d \<longleftrightarrow> binv (nd_conn d) \<and> \<not> ch_closed (nd_events d) \<and> chan_ok (nd_events d)"

definition nats_queued :: "('b \<Rightarrow> string multiset) \<Rightarrow> 'b nats_dispatcher \<Rightarrow> task multiset" where
  "nats_queued jobs d = texts_tasks (jobs (nd_conn d))"

text \<open>The tasks of a worker process: on the stream, or in the consumer's buffer.\<close>

definition nats_tasks :: "('b \<Rightarrow> string multiset) \<Rightarrow> 'b nats_consumer \<Rightarrow> task multiset" where
  "nats_tasks jobs c = texts_tasks (jobs (nk_conn c)) + mset (ch_buf (nk_tasks c))"

context work_stream
begin

lemma dispatch_spec:
  assumes "nats_inv binv d"
  shows "\<exists>err d'. nats_dispatch N x t d = Ret (err, d') \<and> nats_inv binv d' \<and> nd_events d' = nd_events d \<and>
    (err = None \<longrightarrow> task_encodable t \<longrightarrow> nats_queued jobs d' = add_mset t (nats_queued jobs d)) \<and>
    (err \<noteq> None \<longrightarrow> nats_queued jobs d' = nats_queued jobs d)"
proof (cases "marshal_task t")
  case None
  with assms show ?thesis using unmarshal_marshal_task [of t] by (auto simp: nats_dispatch_def)
next
  case (Some body)
  have "binv (nd_conn d)" using assms by (simp add: nats_inv_def)
  obtain err b' where b': "nt_js_publish N ''tasks.new'' body (nd_conn d) = (err, b')" by fastforce
  have "task_encodable t \<Longrightarrow> unmarshal_task body = Some t" using unmarshal_marshal_task [of t] Some by auto
  with b' Some assms js_publish [OF \<open>binv (nd_conn d)\<close> b'] show ?thesis
    by (auto simp: nats_dispatch_def nats_inv_def nats_queued_def)
qed

text \<open>The callback of a worker loses no task, and without errors takes none twice.\<close>

lemma on_task_keeps:
  assumes "binv (nk_conn c)" and "held (nk_conn c) k = Some data" and "nats_on_task N x k data c = Ret c'"
  shows "binv (nk_conn c') \<and> nats_tasks jobs c \<subseteq># nats_tasks jobs c'"
proof (cases "unmarshal_task data")
  case None
  with assms nak [OF assms(1), of k] show ?thesis
    by (cases "nt_nak N k (nk_conn c)") (auto simp: nats_on_task_def nats_tasks_def)
next
  case (Some t)
  obtain err b' where b': "nt_ack N k (nk_conn c) = (err, b')" by fastforce
  from assms(3) Some b' have "c' = c \<or> c' = c\<lparr>nk_tasks := chan_push t (nk_tasks c), nk_conn := b'\<rparr>"
    by (auto simp: nats_on_task_def on_send_def on_done_def dest!: select_in split: if_splits)
  with ack [OF assms(1,2) b'] assms(1) Some show ?thesis
    by (auto simp: nats_tasks_def chan_push_def)
qed

end

sublocale work_stream \<subseteq> disp: channel_inbox "nats_dispatcher_ops N" "nats_inv binv" "nats_queued jobs"
    nd_events "\<lambda>ch d. d\<lparr>nd_events := ch\<rparr>" task_encodable
proof unfold_locales
  fix x t d
  assume "nats_inv binv d"
  from dispatch_spec [OF this, of x t] show "\<exists>err d'. td_dispatch (nats_dispatcher_ops N) x t d = Ret (err, d') \<and>
      nats_inv binv d' \<and> nd_events d' = nd_events d \<and>
      (err = None \<longrightarrow> task_encodable t \<longrightarrow> nats_queued jobs d' = add_mset t (nats_queued jobs d)) \<and>
      (err \<noteq> None \<longrightarrow> nats_queued jobs d' = nats_queued jobs d)" by (simp add: nats_dispatcher_ops_def)
qed (auto simp: nats_dispatcher_ops_def nats_receive_event_def nats_inv_def nats_queued_def chan_ok_def)

context work_stream
begin

lemma contract:
  "dispatcher_contract (nats_dispatcher_ops N) (nats_inv binv) (nats_queued jobs) (\<lambda>d. ch_buf (nd_events d)) task_encodable"
  by (rule disp.dispatcher_contract_axioms)

end

locale core_publish =
  fixes N :: "'b nats"
    and binv :: "'b \<Rightarrow> bool"
    and sent :: "'b \<Rightarrow> (string \<times> string) list"
  assumes publish_ok: "binv b \<Longrightarrow> \<exists>b'. nt_publish N subj data b = (None, b') \<and> binv b' \<and> sent b' = sent b @ [(subj, data)]"

definition nats_event_message :: "task_event \<Rightarrow> string \<times> string" where
  "nats_event_message ev = (''worker.events.'' @ ev_TaskID ev, marshal_event ev)"

sublocale core_publish \<subseteq> reliable_emitter "nats_consumer_ops N" "\<lambda>c. binv (nk_conn c)" "\<lambda>c. sent (nk_conn c)"
    nats_event_message "\<lambda>_. True" "\<lambda>_. True"
proof unfold_locales
  fix x ev e and c c' :: "'b nats_consumer"
  assume c: "binv (nk_conn c)"
  obtain b where b: "nt_publish N (''worker.events.'' @ ev_TaskID ev) (marshal_event ev) (nk_conn c) = (None, b)"
    "binv b" "sent b = sent (nk_conn c) @ [nats_event_message ev]"
    using publish_ok [OF c] unfolding nats_event_message_def by blast
  then have emit: "tc_emit (nats_consumer_ops N) x ev c = Ret (None, c\<lparr>nk_conn := b\<rparr>)"
    by (simp add: nats_consumer_ops_def nats_emit_def)
  then show "tc_emit (nats_consumer_ops N) x ev c \<noteq> Panic" by simp
  from emit b(3) show "\<exists>e c'. tc_emit (nats_consumer_ops N) x ev c = Ret (e, c') \<and>
      (sent (nk_conn c') = sent (nk_conn c) \<or> sent (nk_conn c') = sent (nk_conn c) @ [nats_event_message ev])" by auto
  assume "tc_emit (nats_consumer_ops N) x ev c = Ret (e, c')"
  with emit b show "binv (nk_conn c')" "sent (nk_conn c') = sent (nk_conn c) @ [nats_event_message ev]" by auto
qed

text \<open>A connection to a server that never fails.\<close>

record stream_state =
  st_next :: nat
  st_jobs :: "(nat \<times> string) list"
  st_sent :: "(string \<times> string) list"

definition stream_conn :: "stream_state nats" where
  "stream_conn =
     \<lparr>nt_publish = (\<lambda>subj data b. (None, b\<lparr>st_sent := st_sent b @ [(subj, data)]\<rparr>)),
      nt_js_publish = (\<lambda>subj data b. (None, b\<lparr>st_next := Suc (st_next b), st_jobs := st_jobs b @ [(st_next b, data)]\<rparr>)),
      nt_ack = (\<lambda>k b. (None, b\<lparr>st_jobs := AList.delete k (st_jobs b)\<rparr>)),
      nt_nak = (\<lambda>k b. (None, b)),
      nt_queue_subscribe = (\<lambda>subj grp b. (None, b)),
      nt_unsubscribe = (\<lambda>b. (None, b)),
      nt_add_stream = (\<lambda>name subj b. (None, b))\<rparr>"

definition stream_ok :: "stream_state \<Rightarrow> bool" where
  "stream_ok b \<longleftrightarrow> distinct (map fst (st_jobs b)) \<and> (\<forall>(k, s) \<in> set (st_jobs b). k < st_next b)"

lemma mset_delete:
  "distinct (map fst xs) \<Longrightarrow> map_of xs k = Some v \<Longrightarrow>
     mset (map snd xs) = add_mset v (mset (map snd (AList.delete k xs)))"
proof (induction xs)
  case (Cons x xs)
  show ?case
  proof (cases "fst x = k")
    case True
    with Cons.prems(1) have "AList.delete k xs = xs" by (intro AList.delete_id) auto
    with Cons.prems(2) True show ?thesis by (cases x) auto
  next
    case False
    with Cons show ?thesis by (cases x) auto
  qed
qed simp

interpretation stream: work_stream stream_conn stream_ok "\<lambda>b. mset (map snd (st_jobs b))" "\<lambda>b. map_of (st_jobs b)"
proof unfold_locales
  fix b b' data err
  assume b: "stream_ok b" "nt_js_publish stream_conn ''tasks.new'' data b = (err, b')"
  then have "st_next b \<notin> fst ` set (st_jobs b)" by (auto simp: stream_ok_def)
  with b show "stream_ok b' \<and> mset (map snd (st_jobs b')) =
      (if err = None then add_mset data (mset (map snd (st_jobs b))) else mset (map snd (st_jobs b)))"
    by (fastforce simp: stream_conn_def stream_ok_def)
next
  fix b b' k data err
  assume b: "stream_ok b" "map_of (st_jobs b) k = Some data" "nt_ack stream_conn k b = (err, b')"
  moreover have "set (AList.delete k (st_jobs b)) \<subseteq> set (st_jobs b)" by (auto simp: AList.delete_eq)
  ultimately show "stream_ok b' \<and> (mset (map snd (st_jobs b)) = add_mset data (mset (map snd (st_jobs b'))) \<or>
      err \<noteq> None \<and> mset (map snd (st_jobs b')) = mset (map snd (st_jobs b)))"
    using mset_delete [of "st_jobs b" k data]
    by (fastforce simp: stream_conn_def stream_ok_def AList.distinct_delete)
qed (simp add: stream_conn_def)

interpretation stream_core: core_publish stream_conn "\<lambda>_. True" st_sent
  by unfold_locales (simp add: stream_conn_def)

section \<open>From a worker to its manager\<close>

context core_publish
begin

lemma emit_all_publishes:
  "binv (nk_conn c) \<Longrightarrow> \<exists>c'. emit_all (nats_consumer_ops N) cx k evs c = Ret c' \<and> binv (nk_conn c') \<and>
     sent (nk_conn c') = sent (nk_conn c) @ map nats_event_message evs \<and> nk_tasks c' = nk_tasks c"
proof (induction evs arbitrary: c k)
  case (Cons ev evs)
  obtain b where b: "nt_publish N (''worker.events.'' @ ev_TaskID ev) (marshal_event ev) (nk_conn c) = (None, b)"
    "binv b" "sent b = sent (nk_conn c) @ [nats_event_message ev]"
    using publish_ok [OF Cons.prems] unfolding nats_event_message_def by blast
  from Cons.IH [of "c\<lparr>nk_conn := b\<rparr>" "Suc k"] b show ?case
    by (auto simp: emit_ignored_def nats_consumer_ops_def nats_emit_def)
qed simp

end

lemma nats_decodes:
  "list_all event_encodable evs \<Longrightarrow>
     list_all2 (\<lambda>data ev. unmarshal_event data = Some ev) (map (\<lambda>ev. snd (nats_event_message ev)) evs) evs"
  by (simp add: nats_event_message_def list_all2_map1 list_all2_same list_all_iff unmarshal_marshal)

lemma nats_deliver_room:
  "list_all2 (\<lambda>data ev. unmarshal_event data = Some ev) ds evs \<Longrightarrow> \<not> ch_closed ch \<Longrightarrow>
     length (ch_buf ch) + length evs \<le> ch_cap ch \<Longrightarrow> nats_deliver ds ch = Ret (ch\<lparr>ch_buf := ch_buf ch @ evs\<rparr>)"
proof (induction ds evs arbitrary: ch rule: list_all2_induct)
  case (Cons data ds ev evs)
  then have room: "chan_room ch" by (simp add: chan_room_def)
  with Cons.hyps(1) Cons.prems(1) have "nats_on_event data ch = Ret (chan_push ev ch)"
    by (simp add: nats_on_event_def chan_send_def chan_try_send_open)
  with Cons.IH [of "chan_push ev ch"] Cons.prems show ?case by (simp add: chan_push_def)
qed simp

section \<open>A worker and the stream, interleaved\<close>

text \<open>
  The consumer, and the tasks its loop has started; the stream may take in more jobs, and may
  see any other use that leaves this worker's jobs there.
\<close>

inductive nats_worker_step :: "'b nats \<Rightarrow> ('b \<Rightarrow> bool) \<Rightarrow> ('b \<Rightarrow> string multiset) \<Rightarrow> ('b \<Rightarrow> nat \<Rightarrow> string option) \<Rightarrow>
    'b nats_consumer \<times> task multiset \<Rightarrow> 'b nats_consumer \<times> task multiset \<Rightarrow> bool"
  for N binv jobs held where
  step_task:
    "held (nk_conn c) k = Some data \<Longrightarrow> nats_on_task N x k data c = Ret c' \<Longrightarrow>
     nats_worker_step N binv jobs held (c, started) (c', started)"
| step_receive:
    "nats_receive x c = Ret (Inr t, c') \<Longrightarrow>
     nats_worker_step N binv jobs held (c, started) (c', add_mset t started)"
| step_stream:
    "binv b \<Longrightarrow> jobs (nk_conn c) \<subseteq># jobs b \<Longrightarrow>
     nats_worker_step N binv jobs held (c, started) (c\<lparr>nk_conn := b\<rparr>, started)"

lemma texts_tasks_mono: "M \<subseteq># M' \<Longrightarrow> texts_tasks M \<subseteq># texts_tasks M'"
  by (simp add: texts_tasks_def image_mset_subseteq_mono multiset_filter_mono)

lemma nats_receive_cases:
  assumes "nats_receive x c = Ret (Inr t, c')" and "\<not> ch_closed (nk_tasks c)"
  shows "\<exists>ch. c' = c\<lparr>nk_tasks := ch\<rparr> \<and> ch_buf (nk_tasks c) = t # ch_buf ch \<and> \<not> ch_closed ch"
  using recv_or_done_cases [OF assms(1) [unfolded nats_receive_def] assms(2)] by auto

lemma nats_on_task_open:
  "nats_on_task N x k data c = Ret c' \<Longrightarrow> \<not> ch_closed (nk_tasks c) \<Longrightarrow> \<not> ch_closed (nk_tasks c')"
  by (auto simp: nats_on_task_def on_send_def on_done_def chan_push_def dest!: select_in split: option.splits if_splits)

context work_stream
begin

lemma worker_step_keeps:
  assumes "nats_worker_step N binv jobs held s s'" and "binv (nk_conn (fst s))" and "\<not> ch_closed (nk_tasks (fst s))"
  shows "binv (nk_conn (fst s')) \<and> \<not> ch_closed (nk_tasks (fst s')) \<and>
    nats_tasks jobs (fst s) + snd s \<subseteq># nats_tasks jobs (fst s') + snd s'"
  using assms(1)
proof cases
  case (step_task c k data x c' started)
  with on_task_keeps [of c k data x c'] nats_on_task_open [of N x k data c c'] assms(2,3) show ?thesis by simp
next
  case (step_receive x c t c' started)
  with nats_receive_cases [of x c t c'] assms(2,3) show ?thesis by (auto simp: nats_tasks_def)
next
  case (step_stream b c started)
  with assms(3) texts_tasks_mono [of "jobs (nk_conn c)" "jobs b"] show ?thesis by (simp add: nats_tasks_def)
qed

lemma worker_keeps:
  assumes "(nats_worker_step N binv jobs held)\<^sup>*\<^sup>* s s'" and "binv (nk_conn (fst s))" and "\<not> ch_closed (nk_tasks (fst s))"
  shows "nats_tasks jobs (fst s) + snd s \<subseteq># nats_tasks jobs (fst s') + snd s'"
proof -
  have "binv (nk_conn (fst s')) \<and> \<not> ch_closed (nk_tasks (fst s')) \<and>
      nats_tasks jobs (fst s) + snd s \<subseteq># nats_tasks jobs (fst s') + snd s'"
    using assms
  proof (induction rule: rtranclp_induct)
    case (step y z)
    with worker_step_keeps [OF step.hyps(2)] show ?case by (auto intro: subset_mset.order_trans)
  qed simp
  then show ?thesis by blast
qed

end

end
