(* ===== verification/Brokered.thy ===== *)
theory Brokered
  imports Bootstrap Postgres BrokerSetup Nats Systems
begin

text \<open>
  The processes of patterns 5, 6 and 7 (\<^verbatim>\<open>patterns/p0x/internal/app\<close>): a manager over PostgreSQL
  and a broker, workers and API processes on the broker.

  What a step of the wiring meets (a pool, a connection, an error of the embedded template) is
  an argument, the outcome of the call named in the text. A failing constructor also yields the
  resources it has closed, in order. Two components on one connection each keep its state as
  they use it: the dispatcher and the bridge of pattern 5 publish on different subjects.

  \<^item> \<open>pg_manager\<close>: \<^verbatim>\<open>Submit\<close> and the event loop over the SQL store and any dispatcher; a table
    is a \<open>lifecycle_store\<close>, so the concurrent manager over it refines the task life cycle.
  \<^item> \<open>nats_env\<close>, \<open>pubsub_env\<close>: what happens to the dispatchers between two steps of the manager.
  \<^item> \<open>p05_run_sent\<close>, \<open>p06_run_sent\<close>: what a worker's run leaves on the broker.
  \<^item> \<open>p06_loops\<close>: the manager of pattern 6 has two receive loops.
  \<^item> \<open>p06_relay_fifo\<close>: the API's relay does to the hub what the relay over a channel does.
\<close>

datatype resource = PoolResource | ConnResource | DispatcherResource | SubscriptionResource

section \<open>Pattern 5\<close>

text \<open>\<open>pool\<close>: \<^verbatim>\<open>pgxpool.New\<close>; \<open>conn\<close>: \<^verbatim>\<open>nats.Connect\<close>; \<open>jserr\<close>: \<^verbatim>\<open>nc.JetStream\<close>.\<close>

type_synonym ('db, 'b) p05_manager = "('db, 'b nats_dispatcher, 'b nats_bridge) manager"

definition p05_NewManager :: "'db sql \<Rightarrow> 'b nats \<Rightarrow> ctx \<Rightarrow> go_error + 'db \<Rightarrow> go_error + 'b \<Rightarrow> go_error option \<Rightarrow>
    go_error option \<Rightarrow> (go_error + ('db, 'b) p05_manager) \<times> resource list" where
  "p05_NewManager Q N x pool conn jserr tplerr =
     (case pool of
        Inl e \<Rightarrow> (Inl e, [])
      | Inr db \<Rightarrow>
     (case pg_New Q db of
        (Inl e, db1) \<Rightarrow> (Inl e, [PoolResource])
      | (Inr _, db1) \<Rightarrow>
     (case conn of
        Inl e \<Rightarrow> (Inl e, [PoolResource])
      | Inr b \<Rightarrow>
     (case jserr of
        Some e \<Rightarrow> (Inl e, [ConnResource, PoolResource])
      | None \<Rightarrow>
          let (_, b1) = SetupJetStream N b;
              bus = NewNATSBridge b1 ''task.events'';
              dispatcher = NewNATSDispatcher b1;
              (_, mgr) = manager_start (nats_dispatcher_ops N) x (NewManager db1 dispatcher bus (30 * Second))
          in (case tplerr of
                Some e \<Rightarrow> (Inl e, [ConnResource, PoolResource])
              | None \<Rightarrow> (Inr mgr, []))))))"

text \<open>The routes of the manager: \<^verbatim>\<open>/health\<close>, \<^verbatim>\<open>POST /tasks\<close>, \<^verbatim>\<open>GET /tasks\<close>, \<^verbatim>\<open>GET /tasks/:id\<close>.\<close>

definition p05_routes :: "echo \<Rightarrow> 'db sql \<Rightarrow> 'b nats \<Rightarrow> ('db, 'b) p05_manager network" where
  "p05_routes E Q N = manager_net E (manager_ops (pg_store_ops Q) (nats_dispatcher_ops N))"

text \<open>\<open>suberr\<close>: the error of \<^verbatim>\<open>nc.Subscribe\<close>. The relay from the channel to the hub is \<^const>\<open>relay\<close>.\<close>

definition p05_NewAPI :: "go_error + 'b \<Rightarrow> go_error option \<Rightarrow> go_error option \<Rightarrow>
    (go_error + string \<times> api_app) \<times> resource list" where
  "p05_NewAPI conn suberr tplerr =
     (case conn of
        Inl e \<Rightarrow> (Inl e, [])
      | Inr b \<Rightarrow>
          let bus = NewNATSBridge b ''task.events'';
              (subject, ch) = nats_bridge_subscribe bus
          in (case suberr of
                Some e \<Rightarrow> (Inl e, [ConnResource])
              | None \<Rightarrow> (case tplerr of
                  Some e \<Rightarrow> (Inl e, [ConnResource])
                | None \<Rightarrow> (Inr (subject, \<lparr>aa_events = ch, aa_hub = NewHub\<rparr>), []))))"

text \<open>
  The worker up to its loop: the consumer and the executor. The subscription's callback runs
  beside the loop: a turn first lets it handle the messages given.
\<close>

definition p05_worker_start :: "'b nats \<Rightarrow> int \<Rightarrow> go_error + 'b \<Rightarrow> go_error option \<Rightarrow> ctx \<Rightarrow>
    ('b nats_consumer \<times> executor) option outcome" where
  "p05_worker_start N ms conn jserr x =
     (case conn of
        Inl e \<Rightarrow> Ret None
      | Inr b \<Rightarrow>
          if jserr \<noteq> None then Ret None
          else let (_, b1) = SetupJetStream N b;
                   exec = ms_executor ms
               in omap (\<lambda>(err, c). if err \<noteq> None then None else Some (c, exec)) (nats_connect x (NewNATSConsumer b1)))"

fun nats_callbacks :: "'b nats \<Rightarrow> (ctx \<times> nat \<times> string) list \<Rightarrow> 'b nats_consumer \<Rightarrow> 'b nats_consumer outcome" where
  "nats_callbacks N [] c = Ret c"
| "nats_callbacks N ((x, k, data) # ms) c = obind (nats_on_task N x k data c) (nats_callbacks N ms)"

fun p05_RunWorker :: "'b nats \<Rightarrow> executor \<Rightarrow> ((ctx \<times> nat \<times> string) list \<times> ctx \<times> run_env) list \<Rightarrow>
    'b nats_consumer \<Rightarrow> (bool \<times> 'b nats_consumer) outcome" where
  "p05_RunWorker N e [] c = Ret (True, c)"
| "p05_RunWorker N e ((ms, x, w) # turns) c =
     obind (nats_callbacks N ms c) (\<lambda>c1.
     obind (run_worker_turn (nats_consumer_ops N) e x w c1) (\<lambda>(more, c2).
       if more then p05_RunWorker N e turns c2 else Ret (False, c2)))"

section \<open>Pattern 6\<close>

text \<open>\<open>topic\<close> and \<open>subs\<close> open the broker's resources, \<open>b\<close> is the broker as the process finds it.\<close>

record ('db, 'b) p06_app =
  a6_tasks :: "'b topic"
  a6_events :: "'b subscription"
  a6_api :: "'b topic"
  a6_mgr :: "('db, 'b pubsub_dispatcher, 'b) manager"

definition p06_NewManager :: "'db sql \<Rightarrow> 'b topic opener \<Rightarrow> 'b subscription opener \<Rightarrow> aws_env \<Rightarrow> string \<Rightarrow> ctx \<Rightarrow>
    go_error + 'db \<Rightarrow> 'b \<Rightarrow> go_error option \<Rightarrow> (go_error + ('db, 'b) p06_app) \<times> resource list" where
  "p06_NewManager Q topic subs A brokerURL x pool b tplerr =
     (case pool of
        Inl e \<Rightarrow> (Inl e, [])
      | Inr db \<Rightarrow>
     (case pg_New Q db of
        (Inl e, db1) \<Rightarrow> (Inl e, [PoolResource])
      | (Inr _, db1) \<Rightarrow>
     (case OpenManagerResources topic subs A brokerURL of
        Inl e \<Rightarrow> (Inl e, [PoolResource])
      | Inr (tasksTopic, eventsSub, apiEventsTopic) \<Rightarrow>
     (case ps_start x (NewPubSubDispatcher b) of
        (Some e, d) \<Rightarrow> (Inl e, [DispatcherResource, PoolResource])
      | (None, d) \<Rightarrow>
          let (_, mgr) = manager_start (pubsub_dispatcher_ops tasksTopic) x (NewManager db1 d b (30 * Second))
          in (case tplerr of
                Some e \<Rightarrow> (Inl e, [DispatcherResource, PoolResource])
              | None \<Rightarrow> (Inr \<lparr>a6_tasks = tasksTopic, a6_events = eventsSub, a6_api = apiEventsTopic, a6_mgr = mgr\<rparr>, []))))))"

definition p06_routes :: "echo \<Rightarrow> 'db sql \<Rightarrow> 'b topic \<Rightarrow> ('db, 'b pubsub_dispatcher, 'b) manager network" where
  "p06_routes E Q T = manager_net E (manager_ops (pg_store_ops Q) (pubsub_dispatcher_ops T))"

text \<open>The API process, and one turn of its relay from the events subscription to the hub.\<close>

definition p06_NewAPI :: "'a aws \<Rightarrow> 's opener \<Rightarrow> aws_env \<Rightarrow> go_error + string \<Rightarrow> nat \<Rightarrow> string \<Rightarrow> 'a \<Rightarrow>
    go_error option \<Rightarrow> ((go_error + 's \<times> hub) \<times> resource list) \<times> 'a" where
  "p06_NewAPI W subs A host nano brokerURL a tplerr =
     (let (r, a1) = OpenAPIResources W subs A host nano brokerURL a
      in ((case r of
             Inl e \<Rightarrow> (Inl e, [])
           | Inr eventsSub \<Rightarrow>
               (case tplerr of
                  Some e \<Rightarrow> (Inl e, [SubscriptionResource])
                | None \<Rightarrow> (Inr (eventsSub, NewHub), []))), a1))"

definition p06_relay_turn :: "'b subscription \<Rightarrow> ctx \<Rightarrow> nat \<Rightarrow> 'b \<Rightarrow> hub \<Rightarrow> (bool \<times> 'b \<times> hub) outcome" where
  "p06_relay_turn S x p b h =
     obind (su_receive S x b) (\<lambda>(r, b1).
       case r of
         Inl err \<Rightarrow> Ret (False, b1, h)
       | Inr (k, msg) \<Rightarrow>
           (case unmarshal_event (ms_Body msg) of
              None \<Rightarrow> Ret (True, su_ack S k b1, h)
            | Some ev \<Rightarrow> omap (\<lambda>h1. (True, su_ack S k b1, h1)) (hub_publish p ev h)))"

fun p06_relay :: "'b subscription \<Rightarrow> (ctx \<times> nat) list \<Rightarrow> 'b \<Rightarrow> hub \<Rightarrow> ('b \<times> hub) outcome" where
  "p06_relay S [] b h = Ret (b, h)"
| "p06_relay S ((x, p) # ps) b h =
     obind (p06_relay_turn S x p b h) (\<lambda>(more, b1, h1). if more then p06_relay S ps b1 h1 else Ret (b1, h1))"

text \<open>\<^verbatim>\<open>PubSubConsumer.Shutdown\<close>, of the two resources that are there.\<close>

definition ps_consumer_shutdown :: "'b subscription option \<Rightarrow> 'b topic option \<Rightarrow> ctx \<Rightarrow> 'b \<Rightarrow> 'b" where
  "ps_consumer_shutdown S T x b =
     (let b1 = (case S of None \<Rightarrow> b | Some s \<Rightarrow> su_shutdown s x b)
      in case T of None \<Rightarrow> b1 | Some t \<Rightarrow> tp_shutdown t x b1)"

text \<open>
  The worker: \<open>n\<close> bounds the undecodable messages one \<^verbatim>\<open>Receive\<close> skips. When the loop ends the
  deferred \<^verbatim>\<open>Shutdown\<close> runs; the flag says whether it is still running.
\<close>

definition p06_RunWorker :: "'b topic opener \<Rightarrow> 'b subscription opener \<Rightarrow> aws_env \<Rightarrow> string \<Rightarrow> int \<Rightarrow> nat \<Rightarrow> ctx \<Rightarrow>
    (ctx \<times> run_env) list \<Rightarrow> 'b \<Rightarrow> (bool \<times> 'b) outcome" where
  "p06_RunWorker topic subs A brokerURL ms n x turns b =
     (case OpenWorkerResources topic subs A brokerURL of
        Inl e \<Rightarrow> Ret (False, b)
      | Inr (tasksSub, eventsTopic) \<Rightarrow>
          let TC = pubsub_consumer_ops tasksSub eventsTopic n;
              shutdown = ps_consumer_shutdown (Some tasksSub) (Some eventsTopic) x;
              exec = ms_executor ms
          in obind (tc_connect TC x b) (\<lambda>(err, b1).
               if err \<noteq> None then Ret (False, shutdown b1)
               else omap (\<lambda>(more, b2). if more then (True, b2) else (False, shutdown b2)) (run_worker TC exec turns b1)))"

section \<open>Pattern 7\<close>

record p07_config =
  c7_BrokerURL :: string
  c7_TokenSecret :: string
  c7_TokenTTL :: duration
  c7_RevokedCNs :: "string list"

record ('db, 'b) p07_app = "('db, 'b) p06_app" +
  a7_tokener :: tokener
  a7_revocation :: revocation_list

text \<open>\<open>lnerr\<close>: the error of \<^verbatim>\<open>tls.Listen\<close>.\<close>

definition p07_NewManager :: "'db sql \<Rightarrow> 'b topic opener \<Rightarrow> 'b subscription opener \<Rightarrow> aws_env \<Rightarrow> p07_config \<Rightarrow> ctx \<Rightarrow>
    go_error + 'db \<Rightarrow> 'b \<Rightarrow> go_error option \<Rightarrow> go_error option \<Rightarrow>
    (go_error + ('db, 'b) p07_app) \<times> resource list" where
  "p07_NewManager Q topic subs A cfg x pool b tplerr lnerr =
     (case pool of
        Inl e \<Rightarrow> (Inl e, [])
      | Inr db \<Rightarrow>
     (case pg_New Q db of
        (Inl e, db1) \<Rightarrow> (Inl e, [PoolResource])
      | (Inr _, db1) \<Rightarrow>
     (case OpenManagerResources topic subs A (c7_BrokerURL cfg) of
        Inl e \<Rightarrow> (Inl e, [PoolResource])
      | Inr (tasksTopic, eventsSub, apiEventsTopic) \<Rightarrow>
     (case ps_start x (NewPubSubDispatcher b) of
        (Some e, d) \<Rightarrow> (Inl e, [DispatcherResource, PoolResource])
      | (None, d) \<Rightarrow>
          let (_, mgr) = manager_start (pubsub_dispatcher_ops tasksTopic) x (NewManager db1 d b (30 * Second))
          in (case tplerr of
                Some e \<Rightarrow> (Inl e, [DispatcherResource, PoolResource])
              | None \<Rightarrow>
                  let tokener = NewTokener (c7_TokenSecret cfg) (token_ttl (c7_TokenTTL cfg));
                      revocation = NewRevocationList (c7_RevokedCNs cfg)
                  in (case lnerr of
                        Some e \<Rightarrow> (Inl (Errorf (''bootstrap listen: '' @ error_text e)), [DispatcherResource, PoolResource])
                      | None \<Rightarrow> (Inr \<lparr>a6_tasks = tasksTopic, a6_events = eventsSub, a6_api = apiEventsTopic,
                                   a6_mgr = mgr, a7_tokener = tokener, a7_revocation = revocation\<rparr>, [])))))))"

text \<open>The bootstrap route, over the deny-list of the moment.\<close>

definition p07_bootstrap :: "echo \<Rightarrow> p07_config \<Rightarrow> ('db, 'b) p07_app \<Rightarrow> instant \<Rightarrow> string list list option \<Rightarrow>
    (api_error + http_response) outcome" where
  "p07_bootstrap E cfg a now tls = bootstrapHandler E (c7_BrokerURL cfg) (a7_tokener a) (a7_revocation a) now tls"

text \<open>
  The worker: the initial handshake gives the broker's address, the rest is pattern 6's worker.
  The renewal goroutine (\<^const>\<open>renew_loop\<close>) shares nothing with the loop and runs beside it.
\<close>

definition p07_RunWorker :: "go_error option \<Rightarrow> 'm bootstrap_net \<Rightarrow> (nat \<Rightarrow> attempt_env) \<Rightarrow> 'b topic opener \<Rightarrow>
    'b subscription opener \<Rightarrow> aws_env \<Rightarrow> int \<Rightarrow> nat \<Rightarrow> ctx \<Rightarrow> (ctx \<times> run_env) list \<Rightarrow> 'm \<times> 'b \<Rightarrow>
    (bool \<times> 'm \<times> 'b) outcome" where
  "p07_RunWorker bad net env topic subs A ms n x turns s =
     obind (doBootstrapWithRetry bad net env (fst s)) (\<lambda>((_, r), m).
       case r of
         Inl err \<Rightarrow> Ret (False, m, snd s)
       | Inr resp \<Rightarrow>
           omap (\<lambda>(more, b). (more, m, b)) (p06_RunWorker topic subs A (br_BrokerURL resp) ms n x turns (snd s)))"

section \<open>A manager over the SQL store\<close>

lemma submitted_stages:
  assumes "submitted_task t"
  shows "list_all stage_encodable (task_Stages t)"
proof -
  have "list_all valid_utf8 stageNames" by code_simp
  then have "valid_utf8 (stageNames ! i)" if "i < 8" for i using that by (simp add: list_all_length)
  with assms show ?thesis
    by (auto simp: submitted_task_def new_task_stages list_all_iff stage_encodable_def in_int64_def)
qed

lemma submitted_columns:
  assumes "submitted_task t"
  shows "submitted_task (column_times f t)"
proof -
  from assms obtain u now nm n uid where "t = (new_task u now nm n)\<lparr>task_UserID := uid\<rparr>"
    by (auto simp: submitted_task_def)
  then have "column_times f t = (new_task u (f now) nm n)\<lparr>task_UserID := uid\<rparr>"
    by (simp add: column_times_def new_task_def Let_def)
  then show ?thesis unfolding submitted_task_def by blast
qed

locale pg_manager = sql_table Q up rows at_us jsonb + dispatcher_contract TD dinv queued inbox sendable
  for Q :: "'db sql" and up rows at_us jsonb and TD :: "'d task_dispatcher" and dinv queued inbox sendable
begin

text \<open>What a finished or failed task looks like in the table.\<close>

abbreviation pg_status :: "instant \<Rightarrow> string \<Rightarrow> task \<Rightarrow> task" where
  "pg_status now st t \<equiv> with_status (at_us now) st t"

abbreviation pg_ok :: "'db \<Rightarrow> bool" where
  "pg_ok db \<equiv> up db \<and> rows_scan rows db"

lemma pg_ops_simps [simp]:
  "ts_create (pg_store_ops Q) = pg_create Q" "ts_get (pg_store_ops Q) = pg_get Q"
  "ts_set_status (pg_store_ops Q) = pg_set_status Q" "ts_set_dispatched_at (pg_store_ops Q) = pg_set_dispatched_at Q"
  by (simp_all add: pg_store_ops_def)

lemma finish_found:
  assumes "pg_ok db" and "tasks db i = Some t" and "terminal_status st"
  shows "pg_ok (snd (pg_set_status Q now i st db)) \<and>
    tasks (snd (pg_set_status Q now i st db)) = (tasks db)(i \<mapsto> pg_status now st t)"
  using pg_set_status_spec [of db now i st] assms
  by (cases "pg_set_status Q now i st db") (auto simp: with_status_def)

lemma submit_new:
  assumes ok: "pg_ok (mg_store m)" and d: "dinv (mg_dispatcher m)" and t: "pg_storable t"
    and new: "tasks (mg_store m) (task_ID t) = None"
  shows "\<exists>err d1 s2. td_dispatch TD c t (mg_dispatcher m) = Ret (err, d1) \<and>
    submit (pg_store_ops Q) TD c now t m =
      Ret (map_option dispatch_http_error err, m\<lparr>mg_store := s2, mg_dispatcher := d1\<rparr>) \<and> pg_ok s2 \<and>
    tasks s2 = (tasks (mg_store m))(task_ID t \<mapsto>
      (if err = None then (column_times at_us t)\<lparr>task_DispatchedAt := Some (at_us now)\<rparr>
       else pg_status now TaskFailed (column_times at_us t)))"
proof -
  obtain e s1 where c: "pg_create Q t (mg_store m) = (e, s1)" by fastforce
  have s1: "e = None" "pg_ok s1" "tasks s1 = (tasks (mg_store m))(task_ID t \<mapsto> column_times at_us t)"
    using pg_create_spec [OF _ _ t c] ok new by auto
  obtain err d1 where r: "td_dispatch TD c t (mg_dispatcher m) = Ret (err, d1)"
    using dispatch_returns [OF d, of c t] by auto
  show ?thesis
  proof (cases err)
    case None
    obtain x s2 where s2: "pg_set_dispatched_at Q (task_ID t) now s1 = (x, s2)" by fastforce
    from pg_set_dispatched_spec [OF _ _ s2] s1 have "pg_ok s2"
      "tasks s2 = (tasks (mg_store m))(task_ID t \<mapsto> (column_times at_us t)\<lparr>task_DispatchedAt := Some (at_us now)\<rparr>)"
      by simp_all
    with c s1(1) r None s2 show ?thesis
      by (intro exI [of _ err] exI [of _ d1] exI [of _ s2]) (simp add: submit_def)
  next
    case (Some err')
    have "terminal_status TaskFailed" by (simp add: terminal_status_def)
    with finish_found [OF s1(2), of "task_ID t" "column_times at_us t" TaskFailed now] s1 c r Some
    show ?thesis
      by (intro exI [of _ err] exI [of _ d1] exI [of _ "snd (pg_set_status Q now (task_ID t) TaskFailed s1)"])
        (simp add: submit_def)
  qed
qed

lemma submit_known:
  assumes ok: "pg_ok (mg_store m)" and t: "pg_storable t" and known: "tasks (mg_store m) (task_ID t) \<noteq> None"
  shows "\<exists>msg s1. submit (pg_store_ops Q) TD c now t m = Ret (Some (HTTPError 500 msg None), m\<lparr>mg_store := s1\<rparr>) \<and>
    pg_ok s1 \<and> tasks s1 = tasks (mg_store m)"
proof -
  obtain e s1 where c: "pg_create Q t (mg_store m) = (e, s1)" by fastforce
  with pg_create_spec [OF _ _ t c] ok known show ?thesis
    by (cases e) (auto simp: submit_def spec_create_def column_times_def split: if_splits)
qed

text \<open>An accepted submission is a run of \<^const>\<open>mgr_step\<close>.\<close>

lemma submission_run:
  assumes ok: "pg_ok (mg_store m)" and t: "submitted_task t" "pg_storable t"
    and new: "tasks (mg_store m) (task_ID t) = None"
    and d1: "td_dispatch TD c t (mg_dispatcher m) = Ret (None, d1)"
  shows "\<exists>u. (mgr_step (pg_store_ops Q) TD EP env)\<^sup>*\<^sup>* (mgr_start m) u \<and>
    tasks (mg_store (mw_mgr u)) = (tasks (mg_store m))(task_ID t \<mapsto>
      (column_times at_us t)\<lparr>task_DispatchedAt := Some (at_us now)\<rparr>)"
proof -
  obtain e s1 where c: "pg_create Q t (mg_store m) = (e, s1)" by fastforce
  have s1: "e = None" "pg_ok s1" "tasks s1 = (tasks (mg_store m))(task_ID t \<mapsto> column_times at_us t)"
    using pg_create_spec [OF _ _ t(2) c] ok new by auto
  obtain x s2 where s2: "pg_set_dispatched_at Q (task_ID t) now s1 = (x, s2)" by fastforce
  have "(mgr_step (pg_store_ops Q) TD EP env)\<^sup>*\<^sup>* (mgr_start m) (mgr_start (m\<lparr>mg_store := s2, mg_dispatcher := d1\<rparr>))"
    using c s1(1) d1 s2 by (intro submission_steps [OF t(1)]) simp_all
  with pg_set_dispatched_spec [OF _ _ s2] s1 show ?thesis
    by (intro exI [of _ "mgr_start (m\<lparr>mg_store := s2, mg_dispatcher := d1\<rparr>)"]) (simp add: mgr_start_def)
qed

text \<open>One event: stamped with the owner, recorded if it is final, published.\<close>

lemma event_turn:
  assumes ok: "pg_ok (mg_store m)" and d: "dinv (mg_dispatcher m)" and c: "\<not> ctx_done c"
    and box: "inbox (mg_dispatcher m) = ev # evs" and t: "tasks (mg_store m) (ev_TaskID ev) = Some t"
    and pub: "ep_publish EP p (ev\<lparr>ev_UserID := task_UserID t\<rparr>) (mg_events m) = Ret b"
  obtains m' where "event_loop_turn (pg_store_ops Q) TD EP c now p m = Ret (True, m')"
    "pg_ok (mg_store m')" "dinv (mg_dispatcher m')" "inbox (mg_dispatcher m') = evs" "mg_events m' = b"
    "tasks (mg_store m') = (tasks (mg_store m))(ev_TaskID ev \<mapsto>
      (if is_terminal ev then pg_status now (ev_Status ev) t else t))"
proof -
  from receive_live [OF d c] box obtain d1 where d1: "td_receive_event TD c (mg_dispatcher m) = Ret (Inr ev, d1)" "inbox d1 = evs"
    by auto
  have "dinv d1" using receive_event [OF d d1(1)] by simp
  let ?ev = "ev\<lparr>ev_UserID := task_UserID t\<rparr>"
  let ?s = "persist (pg_store_ops Q) now ?ev (mg_store m)"
  have "enrich (pg_store_ops Q) (mg_store m) ev = ?ev" using get_tasks ok t by (simp add: enrich_def)
  with d1 pub have turn: "event_loop_turn (pg_store_ops Q) TD EP c now p m =
      Ret (True, m\<lparr>mg_dispatcher := d1, mg_store := ?s, mg_events := b\<rparr>)"
    by (simp add: event_loop_turn_def handle_event_def Let_def)
  have "pg_ok ?s \<and> tasks ?s = (tasks (mg_store m))(ev_TaskID ev \<mapsto>
      (if is_terminal ev then pg_status now (ev_Status ev) t else t))"
  proof (cases "is_terminal ev")
    case True
    then have "terminal_status (ev_Status ev)" by (simp add: is_terminal_def terminal_status_def)
    from finish_found [OF ok t this] True show ?thesis
      by (auto simp: persist_def is_terminal_def Let_def)
  next
    case False
    with ok t show ?thesis by (auto simp: persist_def is_terminal_def Let_def)
  qed
  with turn \<open>dinv d1\<close> d1(2) show thesis by (intro that [OF turn]) simp_all
qed

end

sublocale sql_table \<subseteq> lifecycle_store "pg_store_ops Q" "\<lambda>db. up db \<and> rows_scan rows db" "row_tasks rows"
proof unfold_locales
  fix db t e db'
  assume ok: "up db \<and> rows_scan rows db" and t: "submitted_task t" and "ts_create (pg_store_ops Q) t db = (e, db')"
  then have "pg_create Q t db = (e, db')" by (simp add: pg_store_ops_def)
  from pg_create_cases [OF _ _ submitted_stages [OF t] this] ok submitted_columns [OF t, of at_us]
  show "(up db' \<and> rows_scan rows db') \<and> lifecycle_step (tasks db) (tasks db')"
    using life_create [of "column_times at_us t" "tasks db"] by (auto simp: life_same split: if_splits)
next
  fix db st now i e db'
  assume "up db \<and> rows_scan rows db" "terminal_status st" "ts_set_status (pg_store_ops Q) now i st db = (e, db')"
  with pg_set_status_spec [of db now i st e db'] life_finish [of st "tasks db" "at_us now" i]
  show "(up db' \<and> rows_scan rows db') \<and> lifecycle_step (tasks db) (tasks db')"
    by (auto simp: pg_store_ops_def spec_finish_def with_status_def split: option.splits)
next
  fix db i now e db'
  assume "up db \<and> rows_scan rows db" "ts_set_dispatched_at (pg_store_ops Q) i now db = (e, db')"
  with pg_set_dispatched_spec [of db i now e db'] life_dispatched [of "tasks db" i "at_us now"]
  show "(up db' \<and> rows_scan rows db') \<and> lifecycle_step (tasks db) (tasks db')"
    by (auto simp: pg_store_ops_def)
qed

context sql_table
begin

lemma table_lifecycle: "lifecycle_store (pg_store_ops Q) (\<lambda>db. up db \<and> rows_scan rows db) (row_tasks rows)"
  by (rule lifecycle_store_axioms)

end

sublocale pg_manager \<subseteq> supervised "pg_store_ops Q" "\<lambda>db. up db \<and> rows_scan rows db" "row_tasks rows"
    TD dinv queued inbox sendable
  by unfold_locales

text \<open>
  What happens to the dispatcher between two steps of the manager: the callback of its
  subscription runs (pattern 5), a receive loop hands an event over (patterns 6 and 7), or
  something goes on at the broker that keeps its promises.
\<close>

inductive nats_env :: "('b \<Rightarrow> bool) \<Rightarrow> 'b nats_dispatcher \<Rightarrow> 'b nats_dispatcher \<Rightarrow> bool" for binv where
  nats_callback: "nats_on_event data (nd_events d) = Ret ch \<Longrightarrow> nats_env binv d (d\<lparr>nd_events := ch\<rparr>)"
| nats_traffic: "binv b \<Longrightarrow> nats_env binv d (d\<lparr>nd_conn := b\<rparr>)"

inductive pubsub_env :: "('b \<Rightarrow> bool) \<Rightarrow> 'b pubsub_dispatcher \<Rightarrow> 'b pubsub_dispatcher \<Rightarrow> bool" for binv where
  pubsub_hand_over: "ps_push x ev (pd_internal d) = Ret (pc, ch) \<Longrightarrow> pubsub_env binv d (d\<lparr>pd_internal := ch\<rparr>)"
| pubsub_traffic: "binv b \<Longrightarrow> pubsub_env binv d (d\<lparr>pd_broker := b\<rparr>)"

lemma nats_env_inv: "nats_inv binv d \<Longrightarrow> nats_env binv d d' \<Longrightarrow> nats_inv binv d'"
  by (auto elim!: nats_env.cases simp: nats_inv_def nats_on_event_def chan_ok_push chan_send_Ret chan_try_send_Ret
      split: option.splits if_splits)

lemma pubsub_env_inv: "pubsub_inv binv d \<Longrightarrow> pubsub_env binv d d' \<Longrightarrow> pubsub_inv binv d'"
  by (auto elim!: pubsub_env.cases simp: pubsub_inv_def ps_push_def chan_ok_push chan_try_send_Ret on_send_def on_done_def
      dest!: select_in split: if_splits)

interpretation p05_rows: pg_manager rows_table "\<lambda>db. distinct (map rw_id db)" find_row micros "\<lambda>s. s"
    "nats_dispatcher_ops stream_conn" "nats_inv stream_ok" "nats_queued (\<lambda>b. mset (map snd (st_jobs b)))"
    "\<lambda>d. ch_buf (nd_events d)" task_encodable
  by unfold_locales

interpretation p06_rows: pg_manager rows_table "\<lambda>db. distinct (map rw_id db)" find_row micros "\<lambda>s. s"
    "pubsub_dispatcher_ops fifo_topic" "pubsub_inv (\<lambda>_. True)" "pubsub_queued mset"
    "\<lambda>d. ch_buf (pd_internal d)" task_encodable
  by unfold_locales

end
