(* ===== verification/BrokerLife.thy ===== *)
theory BrokerLife
  imports Brokered EndToEnd
begin

text \<open>
  The life of one task through all components of pattern 6: the manager stores it in the
  database and sends it to the broker, a worker runs it and sends its events, a receive loop
  hands them to the manager's event loop, which records the final status and publishes them on
  the API topic, where the relay of an API process takes them to the hub. \<open>p06_life_delivers\<close>
  gives the outcome, over any database and any broker that keep their promises; the broker is
  one whose topics keep their order, and one receive loop is at work.
\<close>

section \<open>Ordered topics\<close>

text \<open>
  A topic with a subscription to it that hands messages over in the order they were sent;
  \<open>others\<close> is what else is on the broker.
\<close>

locale fifo_queue =
  fixes T :: "'b topic"
    and S :: "'b subscription"
    and binv :: "'b \<Rightarrow> bool"
    and q :: "'b \<Rightarrow> message list"
    and others :: "'b \<Rightarrow> 'k"
  assumes fifo_send: "binv b \<Longrightarrow> \<exists>b'. tp_send T x m b = Ret (None, b') \<and> binv b' \<and> q b' = q b @ [m] \<and> others b' = others b"
    and fifo_receive: "binv b \<Longrightarrow> q b = m # ms \<Longrightarrow> \<not> ctx_done x \<Longrightarrow>
      \<exists>k b'. su_receive S x b = Ret (Inr (k, m), b') \<and> binv (su_ack S k b') \<and> q (su_ack S k b') = ms \<and>
        others (su_ack S k b') = others b"

sublocale fifo_queue \<subseteq> job_topic T binv "\<lambda>b. mset (q b)"
proof unfold_locales
  fix b x m
  assume "binv b"
  from fifo_send [OF this, of x m] show "\<exists>err b'. tp_send T x m b = Ret (err, b') \<and> binv b' \<and>
      mset (q b') = (if err = None then add_mset m (mset (q b)) else mset (q b))" by force
qed

section \<open>One receive loop\<close>

text \<open>A turn of \<^verbatim>\<open>receiveLoop\<close>: from one \<^verbatim>\<open>Receive\<close> to the next, or to its return.\<close>

definition ps_loop_turn :: "'b subscription \<Rightarrow> ctx \<Rightarrow> 'b \<Rightarrow> task_event chan \<Rightarrow> (bool \<times> 'b \<times> task_event chan) outcome" where
  "ps_loop_turn S x b ch =
     obind (ps_fetch S x b) (\<lambda>(pc, b1).
       case pc of
         Exited \<Rightarrow> Ret (False, b1, ch)
       | Fetching \<Rightarrow> Ret (True, b1, ch)
       | Pushing ev \<Rightarrow> omap (\<lambda>(pc1, ch1). (pc1 \<noteq> Exited, b1, ch1)) (ps_push x ev ch))"

fun ps_loop :: "'b subscription \<Rightarrow> ctx list \<Rightarrow> 'b \<Rightarrow> task_event chan \<Rightarrow> ('b \<times> task_event chan) outcome" where
  "ps_loop S [] b ch = Ret (b, ch)"
| "ps_loop S (x # xs) b ch =
     obind (ps_loop_turn S x b ch) (\<lambda>(more, b1, ch1). if more then ps_loop S xs b1 ch1 else Ret (b1, ch1))"

context fifo_queue
begin

lemma emit_all_sends:
  "binv b \<Longrightarrow> \<exists>b'. emit_all (pubsub_consumer_ops S' T n) cx k evs b = Ret b' \<and> binv b' \<and>
     q b' = q b @ map event_message evs \<and> others b' = others b"
proof (induction evs arbitrary: b k)
  case (Cons ev evs)
  obtain b1 where b1: "tp_send T (cx k) (event_message ev) b = Ret (None, b1)" "binv b1"
    "q b1 = q b @ [event_message ev]" "others b1 = others b"
    using fifo_send [OF Cons.prems] by blast
  from Cons.IH [OF b1(2), of "Suc k"] b1 show ?case
    by (auto simp: emit_ignored_def pubsub_consumer_ops_def ps_emit_def)
qed simp

lemma loop_turn:
  assumes "binv b" and "q b = event_message ev # ms" and "event_encodable ev" and "\<not> ctx_done x"
    and "chan_room ch" and "\<not> ch_closed ch"
  shows "\<exists>b'. ps_loop_turn S x b ch = Ret (True, b', chan_push ev ch) \<and> binv b' \<and> q b' = ms \<and> others b' = others b"
proof -
  obtain k b' where r: "su_receive S x b = Ret (Inr (k, event_message ev), b')" "binv (su_ack S k b')"
    "q (su_ack S k b') = ms" "others (su_ack S k b') = others b"
    using fifo_receive [OF assms(1,2,4)] by blast
  have "ps_push x ev ch = Ret (Fetching, chan_push ev ch)"
    using assms(4-6) by (simp add: ps_push_def on_done_def select_def chan_try_send_open)
  with r assms(3) show ?thesis
    by (simp add: ps_loop_turn_def ps_fetch_def unmarshal_event_message)
qed

lemma loop_delivers:
  "binv b \<Longrightarrow> q b = map event_message evs \<Longrightarrow> list_all event_encodable evs \<Longrightarrow>
     length xs = length evs \<Longrightarrow> list_all (\<lambda>x. \<not> ctx_done x) xs \<Longrightarrow> \<not> ch_closed ch \<Longrightarrow>
     length (ch_buf ch) + length evs \<le> ch_cap ch \<Longrightarrow>
     \<exists>b'. ps_loop S xs b ch = Ret (b', ch\<lparr>ch_buf := ch_buf ch @ evs\<rparr>) \<and> binv b' \<and> q b' = [] \<and> others b' = others b"
proof (induction evs arbitrary: b ch xs)
  case (Cons ev evs)
  then obtain x ys where xs: "xs = x # ys" by (cases xs) auto
  have "chan_room ch" using Cons.prems(7) by (simp add: chan_room_def)
  with Cons.prems xs obtain b1 where b1: "ps_loop_turn S x b ch = Ret (True, b1, chan_push ev ch)" "binv b1"
    "q b1 = map event_message evs" "others b1 = others b"
    using loop_turn [of b ev "map event_message evs" x ch] by auto
  have "\<exists>b'. ps_loop S ys b1 (chan_push ev ch) =
      Ret (b', (chan_push ev ch)\<lparr>ch_buf := ch_buf (chan_push ev ch) @ evs\<rparr>) \<and> binv b' \<and> q b' = [] \<and> others b' = others b1"
    by (rule Cons.IH) (use Cons.prems xs b1 in \<open>simp_all add: chan_push_def\<close>)
  with b1 xs show ?case by (auto simp: chan_push_def)
qed simp

text \<open>The relay of an API process.\<close>

lemma relay_turn:
  assumes "binv b" and "q b = event_message ev # ms" and "event_encodable ev" and "\<not> ctx_done x" and "hub_inv h"
  obtains b' h' where "p06_relay_turn S x p b h = Ret (True, b', h')" "binv b'" "q b' = ms"
    "hub_inv h'" "user_subs h' = user_subs h"
    "\<forall>k \<in> set (user_subs h (ev_UserID ev)). hb_heap h' k = offer (marshal_event ev) (hb_heap h k)"
proof -
  obtain k b' where r: "su_receive S x b = Ret (Inr (k, event_message ev), b')" "binv (su_ack S k b')" "q (su_ack S k b') = ms"
    using fifo_receive [OF assms(1,2,4)] by blast
  obtain h1 where h1: "hub_publish p ev h = Ret h1" "user_subs h1 = user_subs h"
    "\<forall>k \<in> set (user_subs h (ev_UserID ev)). hb_heap h1 k = offer (marshal_event ev) (hb_heap h k)"
    using assms(5) by (simp add: hub_publish_eq fun_eq_iff)
  show thesis
  proof (rule that)
    show "p06_relay_turn S x p b h = Ret (True, su_ack S k b', h1)"
      using r(1) h1(1) assms(3) by (simp add: p06_relay_turn_def unmarshal_event_message)
  qed (use r h1 hub_inv_publish [OF assms(5) h1(1)] in simp_all)
qed

lemma relay_forwards:
  "binv b \<Longrightarrow> q b = map event_message evs \<Longrightarrow> list_all event_encodable evs \<Longrightarrow> list_all (\<lambda>ev. ev_UserID ev = u) evs \<Longrightarrow>
     hub_inv h \<Longrightarrow> k \<in> set (user_subs h u) \<Longrightarrow> length ps = length evs \<Longrightarrow> list_all (\<lambda>(x, _). \<not> ctx_done x) ps \<Longrightarrow>
     length (ch_buf (hb_heap h k)) + length evs \<le> ch_cap (hb_heap h k) \<Longrightarrow>
     \<exists>b' h'. p06_relay S ps b h = Ret (b', h') \<and> ch_buf (hb_heap h' k) = ch_buf (hb_heap h k) @ map marshal_event evs"
proof (induction evs arbitrary: b h ps)
  case (Cons ev evs)
  then obtain x p rest where ps: "ps = (x, p) # rest" by (cases ps) auto
  from Cons.prems ps have ev: "event_encodable ev" "ev_UserID ev = u" "\<not> ctx_done x" by simp_all
  have qb: "q b = event_message ev # map event_message evs" using Cons.prems(2) by simp
  obtain b1 h1 where s: "p06_relay_turn S x p b h = Ret (True, b1, h1)" "binv b1" "q b1 = map event_message evs"
    "hub_inv h1" "user_subs h1 = user_subs h"
    "\<forall>k \<in> set (user_subs h (ev_UserID ev)). hb_heap h1 k = offer (marshal_event ev) (hb_heap h k)"
    using Cons.prems(1) qb ev(1,3) Cons.prems(5) by (rule relay_turn [where p = p])
  have "chan_room (hb_heap h k)" using Cons.prems(9) by (simp add: chan_room_def)
  with s(6) ev(2) Cons.prems(6) have k: "ch_buf (hb_heap h1 k) = ch_buf (hb_heap h k) @ [marshal_event ev]"
    "ch_cap (hb_heap h1 k) = ch_cap (hb_heap h k)" by simp_all
  have "\<exists>b' h'. p06_relay S rest b1 h1 = Ret (b', h') \<and>
      ch_buf (hb_heap h' k) = ch_buf (hb_heap h1 k) @ map marshal_event evs"
    by (rule Cons.IH) (use Cons.prems ps s k in simp_all)
  with s(1) ps k show ?case by auto
qed auto

end

section \<open>The event loop over the database\<close>

text \<open>What a series of events, each handled at its time, makes of a stored task.\<close>

fun record_events :: "(instant \<Rightarrow> instant) \<Rightarrow> (instant \<times> task_event) list \<Rightarrow> task \<Rightarrow> task" where
  "record_events f [] t = t"
| "record_events f ((now, ev) # xs) t =
     record_events f xs (if is_terminal ev then with_status (f now) (ev_Status ev) t else t)"

lemma record_events_run:
  assumes "length nows = length (run_script cancel t)"
  shows "\<exists>st. terminal_status st \<and> (st = TaskFailed \<longleftrightarrow> (\<exists>j < length (task_Stages t). cancel j)) \<and>
    record_events f (zip nows (run_script cancel t)) r = with_status (f (last nows)) st r"
proof -
  obtain evs st where script: "run_script cancel t = evs @ [status_event t st]"
    and evs: "list_all (\<lambda>ev. \<not> is_terminal ev) evs" and st: "terminal_status st"
      "st = TaskFailed \<longleftrightarrow> (\<exists>j < length (task_Stages t). cancel j)"
    using run_script_terminal by blast
  have skip: "record_events f (zip us xs @ ys) r = record_events f ys r"
    if "list_all (\<lambda>ev. \<not> is_terminal ev) xs" for us xs ys
    using that by (induction us xs rule: list_induct2') auto
  from assms script obtain us now where ts: "nows = us @ [now]" "length us = length evs"
    by (cases nows rule: rev_exhaust) auto
  have "is_terminal (status_event t st)" "ev_Status (status_event t st) = st"
    using st(1) by (simp_all add: is_terminal_def status_event_def terminal_status_def)
  with skip [OF evs, of us "[(now, status_event t st)]"] st script ts show ?thesis
    by (intro exI [of _ st]) simp
qed

context pg_manager
begin

lemma event_loop_records:
  assumes pub: "\<And>p ev b. einv b \<Longrightarrow> \<exists>b'. ep_publish EP p ev b = Ret b' \<and> einv b' \<and> out b' = out b @ [enc ev]"
  shows "pg_ok (mg_store m) \<Longrightarrow> dinv (mg_dispatcher m) \<Longrightarrow> einv (mg_events m) \<Longrightarrow> inbox (mg_dispatcher m) = evs \<Longrightarrow>
    list_all (\<lambda>ev. ev_TaskID ev = i) evs \<Longrightarrow> tasks (mg_store m) i = Some t \<Longrightarrow>
    length es = length evs \<Longrightarrow> list_all (\<lambda>(c, _, _). \<not> ctx_done c) es \<Longrightarrow>
    \<exists>m'. event_loop (pg_store_ops Q) TD EP es m = Ret m' \<and> einv (mg_events m') \<and>
      out (mg_events m') = out (mg_events m) @ map (\<lambda>ev. enc (ev\<lparr>ev_UserID := task_UserID t\<rparr>)) evs \<and>
      tasks (mg_store m') i = Some (record_events at_us (zip (map (\<lambda>(_, now, _). now) es) evs) t)"
proof (induction evs arbitrary: m es t)
  case (Cons ev evs)
  then obtain c now p rest where es: "es = (c, now, p) # rest" by (cases es) auto
  from pub [OF Cons.prems(3), of p "ev\<lparr>ev_UserID := task_UserID t\<rparr>"] obtain b where
    b: "ep_publish EP p (ev\<lparr>ev_UserID := task_UserID t\<rparr>) (mg_events m) = Ret b" "einv b"
    "out b = out (mg_events m) @ [enc (ev\<lparr>ev_UserID := task_UserID t\<rparr>)]" by blast
  have i: "ev_TaskID ev = i" "\<not> ctx_done c" using Cons.prems(5,8) es by simp_all
  let ?t = "if is_terminal ev then pg_status now (ev_Status ev) t else t"
  obtain m1 where m1: "event_loop_turn (pg_store_ops Q) TD EP c now p m = Ret (True, m1)"
    "pg_ok (mg_store m1)" "dinv (mg_dispatcher m1)" "inbox (mg_dispatcher m1) = evs" "mg_events m1 = b"
    "tasks (mg_store m1) = (tasks (mg_store m))(ev_TaskID ev \<mapsto> ?t)"
    by (rule event_turn [OF Cons.prems(1,2) i(2) Cons.prems(4) _ b(1), of now]) (use Cons.prems(6) i(1) in simp_all)
  have u: "task_UserID ?t = task_UserID t" by simp
  have "\<exists>m'. event_loop (pg_store_ops Q) TD EP rest m1 = Ret m' \<and> einv (mg_events m') \<and>
      out (mg_events m') = out (mg_events m1) @ map (\<lambda>ev. enc (ev\<lparr>ev_UserID := task_UserID ?t\<rparr>)) evs \<and>
      tasks (mg_store m') i = Some (record_events at_us (zip (map (\<lambda>(_, now, _). now) rest) evs) ?t)"
    by (rule Cons.IH) (use Cons.prems es m1 b(2) i(1) in simp_all)
  with m1(1,5) es b(3) show ?case unfolding u by auto
qed simp

end

section \<open>The scenario\<close>

text \<open>
  \<open>ST\<close> and \<open>TE\<close> are what the worker opened, \<open>SA\<close> what the API process opened. A browser of the
  task's owner is subscribed at the hub throughout. \<open>pd_broker\<close> and the publisher's state are the
  one broker, passed from one process to the next.
\<close>

definition p06_life :: "'db sql \<Rightarrow> 'b subscription \<Rightarrow> 'b topic \<Rightarrow> 'b subscription \<Rightarrow> nat \<Rightarrow> executor \<Rightarrow> ctx \<Rightarrow> instant \<Rightarrow>
    task \<Rightarrow> run_env \<Rightarrow> ctx list \<Rightarrow> (ctx \<times> instant \<times> nat) list \<Rightarrow> (ctx \<times> nat) list \<Rightarrow> ('db, 'b) p06_app \<Rightarrow>
    (api_error option \<times> nat \<times> hub \<times> ('db, 'b pubsub_dispatcher, 'b) manager) outcome" where
  "p06_life Q ST TE SA n e x now t w xs es ps a =
     (let (k, h0) = hub_subscribe (task_UserID t) NewHub;
          TS = pg_store_ops Q; TD = pubsub_dispatcher_ops (a6_tasks a)
      in obind (submit TS TD x now t (a6_mgr a)) (\<lambda>(err, m1).
         obind (run_worker_turn (pubsub_consumer_ops ST TE n) e x w (pd_broker (mg_dispatcher m1))) (\<lambda>(_, b2).
         obind (ps_loop (a6_events a) xs b2 (pd_internal (mg_dispatcher m1))) (\<lambda>(b3, ch).
         obind (event_loop TS TD (pubsub_bridge_ops (a6_api a)) es
                  (m1\<lparr>mg_dispatcher := (mg_dispatcher m1)\<lparr>pd_broker := b3, pd_internal := ch\<rparr>, mg_events := b3\<rparr>)) (\<lambda>m2.
         obind (p06_relay SA ps (mg_events m2) h0) (\<lambda>(b4, h1). Ret (err, k, h1, m2\<lparr>mg_events := b4\<rparr>)))))))"

lemma p06_New_app:
  assumes "p06_NewManager Q topic subs A url y (Inr db) b None = (Inr a, cl)"
  shows "mg_dispatcher (a6_mgr a) = \<lparr>pd_broker = b, pd_internal = make_chan 256, pd_loops = 2\<rparr>"
    "mg_events (a6_mgr a) = b" "mg_deadline (a6_mgr a) = 30 * Second" "mg_store (a6_mgr a) = snd (pg_New Q db)"
  using assms
  by (auto simp: p06_NewManager_def Let_def manager_start_def ps_start_def NewPubSubDispatcher_def NewManager_def
      split: sum.splits prod.splits)

lemma p07_New_app:
  assumes "p07_NewManager Q topic subs A cfg y pool b tplerr lnerr = (Inr a, cl)"
  shows "a7_tokener a = NewTokener (c7_TokenSecret cfg) (token_ttl (c7_TokenTTL cfg))"
    "a7_revocation a = NewRevocationList (c7_RevokedCNs cfg)"
  using assms
  by (auto simp: p07_NewManager_def Let_def split: sum.splits prod.splits option.splits)

section \<open>Its stops\<close>

context job_topic
begin

lemma contract:
  "dispatcher_contract (pubsub_dispatcher_ops T) (pubsub_inv binv) (pubsub_queued msgs) (\<lambda>d. ch_buf (pd_internal d))
     task_encodable"
  by (rule ps.dispatcher_contract_axioms)

end

context fifo_queue
begin

lemma jobs: "job_topic T binv (\<lambda>b. mset (q b))"
  by (rule job_topic_axioms)

lemma dispatch_sends:
  assumes "binv (pd_broker d)" and "task_encodable t"
  shows "\<exists>b' msg. ps_dispatch T x t d = Ret (None, d\<lparr>pd_broker := b'\<rparr>) \<and> binv b' \<and>
    q b' = q (pd_broker d) @ [msg] \<and> unmarshal_task (ms_Body msg) = Some t \<and> others b' = others (pd_broker d)"
proof -
  obtain body where body: "marshal_task t = Some body" "unmarshal_task body = Some t"
    using unmarshal_marshal_task [OF assms(2)] by blast
  let ?m = "\<lparr>ms_Body = body, ms_Metadata = [(''task_id'', task_ID t)]\<rparr>"
  from fifo_send [OF assms(1), of x ?m] body show ?thesis
    by (auto simp: ps_dispatch_def intro!: exI [of _ ?m])
qed

lemma receive_task:
  assumes "binv b" and "q b = msg # ms" and "unmarshal_task (ms_Body msg) = Some t" and "\<not> ctx_done x" and "0 < n"
  shows "\<exists>b'. ps_receive S n x b = Ret (Inr t, b') \<and> binv b' \<and> q b' = ms \<and> others b' = others b"
  using fifo_receive [OF assms(1,2,4)] assms(3,5) by (cases n) auto

lemma bridge_sends:
  "binv b \<Longrightarrow> \<exists>b'. ep_publish (pubsub_bridge_ops T) p ev b = Ret b' \<and> binv b' \<and> q b' = q b @ [event_message ev]"
  using fifo_send [of b Background "event_message ev"] by (auto simp: pubsub_bridge_ops_def ps_publish_def)

end

lemma pg_fifo_manager:
  assumes "sql_table Q up rows at_us jsonb" and "fifo_queue T S binv q others"
  shows "pg_manager Q up rows at_us jsonb (pubsub_dispatcher_ops T) (pubsub_inv binv) (pubsub_queued (\<lambda>b. mset (q b)))
    (\<lambda>d. ch_buf (pd_internal d)) task_encodable"
  using assms(1) job_topic.contract [OF fifo_queue.jobs [OF assms(2)]] by (rule pg_manager.intro)

text \<open>Submission: the task is in the table and alone on the topic.\<close>

lemma p06_accepted:
  assumes sql: "sql_table Q up rows at_us jsonb" and TT: "fifo_queue TT ST binv qt others"
    and ok: "up (mg_store m)" "rows_scan rows (mg_store m)" and t: "pg_storable t"
    and new: "row_tasks rows (mg_store m) (task_ID t) = None"
    and b: "binv (pd_broker (mg_dispatcher m))" "qt (pd_broker (mg_dispatcher m)) = []"
      "pd_internal (mg_dispatcher m) = make_chan 256"
  obtains s2 b1 msg where
    "submit (pg_store_ops Q) (pubsub_dispatcher_ops TT) x now t m =
       Ret (None, m\<lparr>mg_store := s2, mg_dispatcher := (mg_dispatcher m)\<lparr>pd_broker := b1\<rparr>\<rparr>)"
    "up s2" "rows_scan rows s2"
    "row_tasks rows s2 = (row_tasks rows (mg_store m))(task_ID t \<mapsto> (column_times at_us t)\<lparr>task_DispatchedAt := Some (at_us now)\<rparr>)"
    "binv b1" "qt b1 = [msg]" "unmarshal_task (ms_Body msg) = Some t" "others b1 = others (pd_broker (mg_dispatcher m))"
proof -
  have "task_encodable t" using t by (simp add: pg_storable_def)
  with fifo_queue.dispatch_sends [OF TT b(1), of t x] b(2) obtain b1 msg where
    d: "ps_dispatch TT x t (mg_dispatcher m) = Ret (None, (mg_dispatcher m)\<lparr>pd_broker := b1\<rparr>)" "binv b1" "qt b1 = [msg]"
    "unmarshal_task (ms_Body msg) = Some t" "others b1 = others (pd_broker (mg_dispatcher m))" by auto
  have "pubsub_inv binv (mg_dispatcher m)" using b by (simp add: pubsub_inv_def chan_ok_def)
  from pg_manager.submit_new [OF pg_fifo_manager [OF sql TT] conjI [OF ok] this t new, of x now] d(1)
  obtain s2 where "submit (pg_store_ops Q) (pubsub_dispatcher_ops TT) x now t m =
      Ret (None, m\<lparr>mg_store := s2, mg_dispatcher := (mg_dispatcher m)\<lparr>pd_broker := b1\<rparr>\<rparr>)" "up s2" "rows_scan rows s2"
    "row_tasks rows s2 = (row_tasks rows (mg_store m))(task_ID t \<mapsto> (column_times at_us t)\<lparr>task_DispatchedAt := Some (at_us now)\<rparr>)"
    by auto
  with d(2-5) show thesis by (intro that)
qed

text \<open>A worker's turn: it takes the task and leaves its whole report on the events topic.\<close>

lemma p06_worker_turn:
  assumes ST: "fifo_queue TT ST binv qt (\<lambda>b. (qe b, qa b))" and TE: "fifo_queue TE SE binv qe (\<lambda>b. (qt b, qa b))"
    and e: "valid_executor e" and x: "\<not> ctx_done x" and n: "0 < n"
    and b: "binv b" "qt b = [msg]" "unmarshal_task (ms_Body msg) = Some t"
  shows "\<exists>b'. run_worker_turn (pubsub_consumer_ops ST TE n) e x w b = Ret (True, b') \<and> binv b' \<and>
    qe b' = qe b @ map event_message (run_script (re_cancel w) t) \<and> qt b' = [] \<and> qa b' = qa b"
proof -
  obtain b1 where b1: "ps_receive ST n x b = Ret (Inr t, b1)" "binv b1" "qt b1 = []" "qe b1 = qe b" "qa b1 = qa b"
    using fifo_queue.receive_task [OF ST b x n] by auto
  obtain b2 where "emit_all (pubsub_consumer_ops ST TE n) (re_ctx w) 0 (run_script (re_cancel w) t) b1 = Ret b2"
    "binv b2" "qe b2 = qe b1 @ map event_message (run_script (re_cancel w) t)" "qt b2 = qt b1" "qa b2 = qa b1"
    using fifo_queue.emit_all_sends [OF TE b1(2), of ST n "re_ctx w" 0 "run_script (re_cancel w) t"] by auto
  with b1 e show ?thesis
    by (simp add: run_worker_turn_def pubsub_consumer_ops_def) (simp add: exec_run_script pubsub_consumer_ops_def [symmetric])
qed

text \<open>From the event loop on: the report reaches the browser, the final status the table.\<close>

lemma p06_report:
  assumes sql: "sql_table Q up rows at_us jsonb" and TT: "fifo_queue TT ST binv qt others"
    and TA: "fifo_queue TA SA binv qa others'"
    and ok: "up (mg_store m)" "rows_scan rows (mg_store m)"
    and r: "row_tasks rows (mg_store m) (task_ID t) = Some r" "task_UserID r = task_UserID t"
    and d: "binv (pd_broker (mg_dispatcher m))" "pd_internal (mg_dispatcher m) = (make_chan 256)\<lparr>ch_buf := run_script cancel t\<rparr>"
    and b: "binv (mg_events m)" "qa (mg_events m) = []"
    and t: "task_encodable t" "length (task_Stages t) \<le> 8"
    and es: "length es = length (run_script cancel t)" "list_all (\<lambda>(c, _, _). \<not> ctx_done c) es"
    and ps: "length ps = length es" "list_all (\<lambda>(x, _). \<not> ctx_done x) ps"
    and sub: "hub_subscribe (task_UserID t) NewHub = (k, h0)"
  obtains m2 b4 h1 st where
    "event_loop (pg_store_ops Q) (pubsub_dispatcher_ops TT) (pubsub_bridge_ops TA) es m = Ret m2"
    "p06_relay SA ps (mg_events m2) h0 = Ret (b4, h1)"
    "ch_buf (hb_heap h1 k) = map (\<lambda>ev. marshal_event (ev\<lparr>ev_UserID := task_UserID t\<rparr>)) (run_script cancel t)"
    "terminal_status st" "st = TaskFailed \<longleftrightarrow> (\<exists>j < length (task_Stages t). cancel j)"
    "row_tasks rows (mg_store m2) (task_ID t) = Some (with_status (at_us (fst (snd (last es)))) st r)"
proof -
  let ?script = "run_script cancel t" and ?en = "\<lambda>ev. ev\<lparr>ev_UserID := task_UserID t\<rparr>"
  note mgr = pg_fifo_manager [OF sql TT]
  have len: "length ?script \<le> 18" using length_run_script_le [of cancel t] t(2) by simp
  have inv: "pubsub_inv binv (mg_dispatcher m)" using d len by (simp add: pubsub_inv_def chan_ok_def)
  have ids: "list_all (\<lambda>ev. ev_TaskID ev = task_ID t) ?script" by (auto simp: list_all_iff dest: run_script_ids)
  from pg_manager.event_loop_records [OF mgr fifo_queue.bridge_sends [OF TA] conjI [OF ok] inv b(1) _ ids r(1) es] d(2)
  obtain m2 where m2: "event_loop (pg_store_ops Q) (pubsub_dispatcher_ops TT) (pubsub_bridge_ops TA) es m = Ret m2"
    "binv (mg_events m2)" "qa (mg_events m2) = map event_message (map ?en ?script)"
    "row_tasks rows (mg_store m2) (task_ID t) = Some (record_events at_us (zip (map (\<lambda>(_, now, _). now) es) ?script) r)"
    by (auto simp: r(2) b(2) comp_def)
  have k: "k = 0" "h0 = snd (hub_subscribe (task_UserID t) NewHub)"
    using sub hub_subscribe_simps(1) [of "task_UserID t" NewHub] by (simp_all add: NewHub_def)
  have "valid_utf8 (task_UserID t)" using t(1) by (simp add: task_encodable_def)
  then have enc: "list_all event_encodable (map ?en ?script)"
    using run_script_encodable [OF t(1), of cancel] by (auto simp: list_all_iff event_encodable_def)
  have "\<exists>b' h'. p06_relay SA ps (mg_events m2) h0 = Ret (b', h') \<and>
      ch_buf (hb_heap h' k) = ch_buf (hb_heap h0 k) @ map marshal_event (map ?en ?script)"
    by (rule fifo_queue.relay_forwards [OF TA m2(2,3) enc, where u = "task_UserID t"])
      (use ps es(1) len in \<open>simp_all add: k hub_inv_subscribe list_all_iff\<close>, simp_all add: NewHub_def)
  then obtain b4 h1 where h1: "p06_relay SA ps (mg_events m2) h0 = Ret (b4, h1)"
    "ch_buf (hb_heap h1 k) = map (\<lambda>ev. marshal_event (?en ev)) ?script"
    by (auto simp: k comp_def NewHub_def)
  have last: "last (map (\<lambda>(_, now, _). now) es) = fst (snd (last es))"
    using es(1) by (cases es rule: rev_exhaust) (auto simp: run_script_def split: prod.split)
  have "length (map (\<lambda>(_, now, _). now) es) = length ?script" using es(1) by simp
  from record_events_run [OF this, of at_us r] obtain st where
    st: "terminal_status st" "st = TaskFailed \<longleftrightarrow> (\<exists>j < length (task_Stages t). cancel j)"
    "row_tasks rows (mg_store m2) (task_ID t) = Some (with_status (at_us (fst (snd (last es)))) st r)"
    unfolding last m2(4) by blast
  from m2(1) h1 st show thesis by (rule that)
qed

section \<open>The whole life\<close>

lemma p06_life_delivers:
  assumes sql: "sql_table Q up rows at_us jsonb"
    and TT: "fifo_queue (a6_tasks a) ST binv qt (\<lambda>b. (qe b, qa b))"
    and TE: "fifo_queue TE (a6_events a) binv qe (\<lambda>b. (qt b, qa b))"
    and TA: "fifo_queue (a6_api a) SA binv qa (\<lambda>b. (qt b, qe b))"
    and a: "p06_NewManager Q topic subs A url y (Inr db) b None = (Inr a, cl)"
    and ok: "up (snd (pg_New Q db))" "rows_scan rows (snd (pg_New Q db))"
    and b: "binv b" "qt b = []" "qe b = []" "qa b = []"
    and t: "pg_storable t" "row_tasks rows (snd (pg_New Q db)) (task_ID t) = None" "length (task_Stages t) \<le> 8"
    and e: "valid_executor e" and x: "\<not> ctx_done x" and n: "0 < n"
    and xs: "length xs = length (run_script (re_cancel w) t)" "list_all (\<lambda>x. \<not> ctx_done x) xs"
    and es: "length es = length xs" "list_all (\<lambda>(c, _, _). \<not> ctx_done c) es"
    and ps: "length ps = length xs" "list_all (\<lambda>(x, _). \<not> ctx_done x) ps"
  shows "\<exists>k h m st. p06_life Q ST TE SA n e x now t w xs es ps a = Ret (None, k, h, m) \<and>
    ch_buf (hb_heap h k) = map (\<lambda>ev. marshal_event (ev\<lparr>ev_UserID := task_UserID t\<rparr>)) (run_script (re_cancel w) t) \<and>
    terminal_status st \<and> (st = TaskFailed \<longleftrightarrow> (\<exists>j < length (task_Stages t). re_cancel w j)) \<and>
    row_tasks rows (mg_store m) (task_ID t) =
      Some (with_status (at_us (fst (snd (last es)))) st
        ((column_times at_us t)\<lparr>task_DispatchedAt := Some (at_us now)\<rparr>))"
proof -
  let ?script = "run_script (re_cancel w) t" and ?m = "a6_mgr a"
  let ?r = "(column_times at_us t)\<lparr>task_DispatchedAt := Some (at_us now)\<rparr>"
  note app = p06_New_app [OF a]
  have enc: "task_encodable t" using t(1) by (simp add: pg_storable_def)
  obtain s2 b1 msg where sub: "submit (pg_store_ops Q) (pubsub_dispatcher_ops (a6_tasks a)) x now t ?m =
      Ret (None, ?m\<lparr>mg_store := s2, mg_dispatcher := (mg_dispatcher ?m)\<lparr>pd_broker := b1\<rparr>\<rparr>)"
    and s2: "up s2" "rows_scan rows s2" "row_tasks rows s2 (task_ID t) = Some ?r"
    and b1: "binv b1" "qt b1 = [msg]" "unmarshal_task (ms_Body msg) = Some t" "qe b1 = []" "qa b1 = []"
    by (rule p06_accepted [OF sql TT, of ?m t x now]) (use ok b t app in auto)
  obtain b2 where turn: "run_worker_turn (pubsub_consumer_ops ST TE n) e x w b1 = Ret (True, b2)"
    and b2: "binv b2" "qe b2 = map event_message ?script" "qt b2 = []" "qa b2 = []"
    using p06_worker_turn [OF TT TE e x n b1(1-3), of w] b1(4,5) by auto
  have len: "length ?script \<le> 18" using length_run_script_le [of "re_cancel w" t] t(3) by simp
  have "\<exists>b'. ps_loop (a6_events a) xs b2 (make_chan 256) = Ret (b', (make_chan 256)\<lparr>ch_buf := ch_buf (make_chan 256) @ ?script\<rparr>) \<and>
      binv b' \<and> qe b' = [] \<and> (qt b', qa b') = (qt b2, qa b2)"
    by (rule fifo_queue.loop_delivers [OF TE b2(1,2) run_script_encodable [OF enc] xs]) (use len in simp_all)
  then obtain b3 where b3: "ps_loop (a6_events a) xs b2 (make_chan 256) = Ret (b3, (make_chan 256)\<lparr>ch_buf := ?script\<rparr>)"
    "binv b3" "qa b3 = []" using b2(4) by auto
  obtain k h0 where hub: "hub_subscribe (task_UserID t) NewHub = (k, h0)" by fastforce
  let ?m1 = "?m\<lparr>mg_store := s2, mg_dispatcher := (mg_dispatcher ?m)\<lparr>pd_broker := b3,
    pd_internal := (make_chan 256)\<lparr>ch_buf := ?script\<rparr>\<rparr>, mg_events := b3\<rparr>"
  obtain m2 b4 h1 st where fin: "event_loop (pg_store_ops Q) (pubsub_dispatcher_ops (a6_tasks a)) (pubsub_bridge_ops (a6_api a)) es ?m1 = Ret m2"
    "p06_relay SA ps (mg_events m2) h0 = Ret (b4, h1)"
    "ch_buf (hb_heap h1 k) = map (\<lambda>ev. marshal_event (ev\<lparr>ev_UserID := task_UserID t\<rparr>)) ?script"
    "terminal_status st" "st = TaskFailed \<longleftrightarrow> (\<exists>j < length (task_Stages t). re_cancel w j)"
    "row_tasks rows (mg_store m2) (task_ID t) = Some (with_status (at_us (fst (snd (last es)))) st ?r)"
    by (rule p06_report [OF sql TT TA, of ?m1 t ?r "re_cancel w" es ps k h0])
      (use s2 b3 enc t(3) xs es ps hub in \<open>simp_all add: column_times_def\<close>)
  have "p06_life Q ST TE SA n e x now t w xs es ps a = Ret (None, k, h1, m2\<lparr>mg_events := b4\<rparr>)"
    using sub turn b3(1) fin(1,2) hub by (simp add: p06_life_def app(1) Let_def)
  with fin(3-6) show ?thesis
    by (intro exI [of _ k] exI [of _ h1] exI [of _ "m2\<lparr>mg_events := b4\<rparr>"] exI [of _ st]) simp
qed

end
