(* ===== verification/BrokerExamples.thy ===== *)
theory BrokerExamples
  imports Commands Examples
begin

text \<open>
  Concrete values for patterns 5 to 7: a broker with three ordered topics, the processes of
  patterns 6 and 7 opened on it.
\<close>

section \<open>A broker with three topics\<close>

record lanes =
  ln_jobs :: "message list"
  ln_events :: "message list"
  ln_api :: "message list"

definition no_lanes :: lanes where
  "no_lanes = \<lparr>ln_jobs = [], ln_events = [], ln_api = []\<rparr>"

definition lane_topic :: "((message list \<Rightarrow> message list) \<Rightarrow> 'b \<Rightarrow> 'b) \<Rightarrow> 'b topic" where
  "lane_topic upd = \<lparr>tp_send = (\<lambda>x m b. Ret (None, upd (\<lambda>q. q @ [m]) b)), tp_shutdown = (\<lambda>x b. b)\<rparr>"

definition lane_subscription :: "('b \<Rightarrow> message list) \<Rightarrow> ((message list \<Rightarrow> message list) \<Rightarrow> 'b \<Rightarrow> 'b) \<Rightarrow> 'b subscription" where
  "lane_subscription get upd =
     \<lparr>su_receive = (\<lambda>x b. case get b of
        m # ms \<Rightarrow> Ret (Inr (0, m), upd (\<lambda>_. ms) b)
      | [] \<Rightarrow> if ctx_done x then Ret (Inl (ctx_err x), b) else Block),
      su_ack = (\<lambda>k b. b), su_shutdown = (\<lambda>x b. b)\<rparr>"

lemma lane_fifo:
  assumes "\<And>f b. get (upd f b) = f (get b)" and "\<And>f b. others (upd f b) = others b"
  shows "fifo_queue (lane_topic upd) (lane_subscription get upd) (\<lambda>_. True) get others"
  by unfold_locales (simp_all add: lane_topic_def lane_subscription_def assms)

interpretation jobs_lane: fifo_queue "lane_topic ln_jobs_update" "lane_subscription ln_jobs ln_jobs_update" "\<lambda>_. True"
    ln_jobs "\<lambda>b. (ln_events b, ln_api b)"
  by (rule lane_fifo) simp_all

section \<open>Pattern 6 on it\<close>

definition demo_url :: string where
  "demo_url = ''nats://broker''"

definition demo_topics :: "lanes topic opener" where
  "demo_topics u =
     (if u = demo_url @ ''/tasks.new?stream_name=TASKS'' then Inr (lane_topic ln_jobs_update)
      else if u = demo_url @ ''/events.workers?stream_name=EVENTS'' then Inr (lane_topic ln_events_update)
      else if u = demo_url @ ''/events.api?stream_name=EVENTS'' then Inr (lane_topic ln_api_update)
      else Inl (Errorf ''no such topic''))"

definition demo_subs :: "lanes subscription opener" where
  "demo_subs u =
     (if u = demo_url @ ''/tasks.new?stream_name=TASKS&consumer_durable_name=workers''
      then Inr (lane_subscription ln_jobs ln_jobs_update)
      else if u = demo_url @ ''/events.workers?stream_name=EVENTS&consumer_durable_name=manager-events''
      then Inr (lane_subscription ln_events ln_events_update)
      else if u = demo_url @ ''/events.api?stream_name=EVENTS'' then Inr (lane_subscription ln_api ln_api_update)
      else Inl (Errorf ''no such subscription''))"

definition demo_aws :: aws_env where
  "demo_aws = \<lparr>ax_endpoint = [], ax_region = []\<rparr>"

lemma demo_resources:
  "OpenManagerResources demo_topics demo_subs demo_aws demo_url =
     Inr (lane_topic ln_jobs_update, lane_subscription ln_events ln_events_update, lane_topic ln_api_update)"
proof -
  have "manager_urls_of demo_aws demo_url = Inr \<lparr>mu_tasksTopic = demo_url @ ''/tasks.new?stream_name=TASKS'',
      mu_eventsSub = demo_url @ ''/events.workers?stream_name=EVENTS&consumer_durable_name=manager-events'',
      mu_apiEventsTopic = demo_url @ ''/events.api?stream_name=EVENTS''\<rparr>"
    by (simp add: manager_urls_of_def demo_url_def)
  then show ?thesis by (simp add: OpenManagerResources_def demo_topics_def demo_subs_def)
qed

lemma demo_p06:
  "\<exists>a. p06_NewManager rows_table demo_topics demo_subs demo_aws demo_url Background (Inr []) no_lanes None = (Inr a, []) \<and>
    a6_tasks a = lane_topic ln_jobs_update \<and> a6_events a = lane_subscription ln_events ln_events_update \<and>
    a6_api a = lane_topic ln_api_update"
  by (simp add: p06_NewManager_def demo_resources pg_New_def rows_table_def ps_start_def manager_start_def
      NewPubSubDispatcher_def Let_def)

lemma demo_pg_storable: "pg_storable demo_task"
  by (simp add: pg_storable_def demo_task_encodable no_nul_def demo_task_stages)

text \<open>A submission to a manager of pattern 5 and to one of pattern 6, over the instances.\<close>

abbreviation demo_stream :: stream_state where
  "demo_stream \<equiv> \<lparr>st_next = 0, st_jobs = [], st_sent = []\<rparr>"

abbreviation demo_nats_manager :: "(row list, stream_state) p05_manager" where
  "demo_nats_manager \<equiv> NewManager [] (NewNATSDispatcher demo_stream) (NewNATSBridge demo_stream ''task.events'') 0"

abbreviation demo_pubsub_manager :: "(row list, message list pubsub_dispatcher, message list) manager" where
  "demo_pubsub_manager \<equiv> NewManager [] (NewPubSubDispatcher []) [] 0"

abbreviation demo_stored_row :: task where
  "demo_stored_row \<equiv> (column_times micros demo_task)\<lparr>task_DispatchedAt := Some (micros 9)\<rparr>"

lemma demo_broker_managers:
  "mg_store demo_nats_manager = []" "mg_store demo_pubsub_manager = []"
  "nats_inv stream_ok (mg_dispatcher demo_nats_manager)" "pubsub_inv (\<lambda>_. True) (mg_dispatcher demo_pubsub_manager)"
  by (simp_all add: NewManager_def nats_inv_def NewNATSDispatcher_def stream_ok_def pubsub_inv_def NewPubSubDispatcher_def)

lemma demo_submissions:
  "\<exists>w. (mgr_step (pg_store_ops rows_table) (nats_dispatcher_ops stream_conn) EP (nats_env stream_ok))\<^sup>*\<^sup>*
      (mgr_start demo_nats_manager) w \<and> row_tasks find_row (mg_store (mw_mgr w)) ''t1'' = Some demo_stored_row"
  "\<exists>v. (mgr_step (pg_store_ops rows_table) (pubsub_dispatcher_ops fifo_topic) EP' (pubsub_env (\<lambda>_. True)))\<^sup>*\<^sup>*
      (mgr_start demo_pubsub_manager) v \<and> row_tasks find_row (mg_store (mw_mgr v)) ''t1'' = Some demo_stored_row"
proof -
  have rows: "row_tasks find_row [] = Map.empty" "rows_scan find_row []"
    by (auto simp: row_tasks_def rows_scan_def find_row_def)
  have task: "marshal_task demo_task \<noteq> None" "task_ID demo_task = ''t1''"
    using unmarshal_marshal_task [OF demo_task_encodable] by auto
  then obtain d where d: "nats_dispatch stream_conn Background demo_task (mg_dispatcher demo_nats_manager) = Ret (None, d)"
    by (auto simp: nats_dispatch_def stream_conn_def)
  obtain w where "(mgr_step (pg_store_ops rows_table) (nats_dispatcher_ops stream_conn) EP (nats_env stream_ok))\<^sup>*\<^sup>*
      (mgr_start demo_nats_manager) w" "row_tasks find_row (mg_store (mw_mgr w)) = [''t1'' \<mapsto> demo_stored_row]"
    using p05_rows.submission_run [of demo_nats_manager demo_task Background d EP "nats_env stream_ok" 9]
      demo_submitted demo_pg_storable rows task(2) d by (auto simp: demo_broker_managers nats_dispatcher_ops_def)
  then show "\<exists>w. (mgr_step (pg_store_ops rows_table) (nats_dispatcher_ops stream_conn) EP (nats_env stream_ok))\<^sup>*\<^sup>*
      (mgr_start demo_nats_manager) w \<and> row_tasks find_row (mg_store (mw_mgr w)) ''t1'' = Some demo_stored_row"
    by (metis fun_upd_same)
  from task obtain d' where d': "ps_dispatch fifo_topic Background demo_task (mg_dispatcher demo_pubsub_manager) = Ret (None, d')"
    by (auto simp: ps_dispatch_def fifo_topic_def)
  obtain v where "(mgr_step (pg_store_ops rows_table) (pubsub_dispatcher_ops fifo_topic) EP' (pubsub_env (\<lambda>_. True)))\<^sup>*\<^sup>*
      (mgr_start demo_pubsub_manager) v" "row_tasks find_row (mg_store (mw_mgr v)) = [''t1'' \<mapsto> demo_stored_row]"
    using p06_rows.submission_run [of demo_pubsub_manager demo_task Background d' EP' "pubsub_env (\<lambda>_. True)" 9]
      demo_submitted demo_pg_storable rows task(2) d' by (auto simp: demo_broker_managers)
  then show "\<exists>v. (mgr_step (pg_store_ops rows_table) (pubsub_dispatcher_ops fifo_topic) EP' (pubsub_env (\<lambda>_. True)))\<^sup>*\<^sup>*
      (mgr_start demo_pubsub_manager) v \<and> row_tasks find_row (mg_store (mw_mgr v)) ''t1'' = Some demo_stored_row"
    by (metis fun_upd_same)
qed

section \<open>Pattern 7\<close>

definition demo_tokener :: tokener where
  "demo_tokener = NewTokener ''secret'' (token_ttl 0)"

lemma demo_expiry_text: "\<exists>s. time_text (demo_time + 900000000000) = Some s"
  by (simp add: demo_time_def time_text_def demo_date)

text \<open>
  The manager command with a broker and two names on its deny-list in the environment, over
  files that hold certificates.
\<close>

definition demo_vars :: envconfig where
  "demo_vars = with_env ''revoked_cns'' ''stolen,leaked'' (with_env ''broker_url'' demo_url no_env)"

definition p07_setup_demo :: "go_error + p07_env \<times> p07_config \<times> (row list, lanes) p07_app" where
  "p07_setup_demo = p07_manager_setup demo_vars (\<lambda>cert key. Inr ()) (\<lambda>ca. Inr ca) (\<lambda>pem. Some ()) rows_table demo_topics demo_subs
     demo_aws Background (\<lambda>url. Inr []) no_lanes None (\<lambda>addr tls. None)"

lemma minutes_fifteen: "minutes 15 = 900000000000"
  by (simp add: minutes_def)

lemma demo_p07_setup:
  "\<exists>env cfg a. p07_setup_demo = Inr (env, cfg, a) \<and> time_text (demo_time + tk_ttl (a7_tokener a)) \<noteq> None"
proof -
  have "LoadServerTLS (\<lambda>cert key. Inr ()) (\<lambda>ca. Inr ca) (\<lambda>pem. Some ()) p q r =
      Inr \<lparr>tls_Certificate = (), tls_RootCAs = None, tls_ClientCAs = Some (), tls_RequireAndVerify = True\<rparr>" for p q r
    by (simp add: LoadServerTLS_def)
  moreover have "ec_string demo_vars ''broker_url'' dflt = demo_url" for dflt by (simp add: demo_vars_def)
  moreover have "ec_int demo_vars k n = Inr n" for k n by (simp add: demo_vars_def)
  ultimately show ?thesis
    using demo_expiry_text
    by (simp add: p07_setup_demo_def p07_manager_setup_def p07_manager_config_def Let_def p07_NewManager_def
        demo_resources pg_New_def rows_table_def ps_start_def manager_start_def NewPubSubDispatcher_def
        NewTokener_def token_ttl_def minutes_fifteen)
qed

end
