(* ===== verification/Typing.thy ===== *)
theory Typing
  imports Manager
begin

text \<open>
  The shape of a stored task: what \<^verbatim>\<open>models.Task\<close> leaves open and \<^verbatim>\<open>NewTask\<close>, the store and the
  manager keep between them. \<open>lifecycle_steps_typed\<close>: the abstract life cycle preserves it.
\<close>

definition well_typed :: "string \<Rightarrow> task \<Rightarrow> bool" where
  "well_typed i t \<longleftrightarrow> task_ID t = i \<and> task_Status t \<in> {TaskPending, TaskCompleted, TaskFailed} \<and>
     (task_CompletedAt t = None \<longleftrightarrow> task_Status t = TaskPending) \<and>
     (\<exists>n. 1 \<le> n \<and> n \<le> 8 \<and>
        task_Stages t = map (\<lambda>k. \<lparr>stage_Index = int k, stage_Name = stageNames ! k\<rparr>) [0..<n])"

lemma well_typed_submitted: "submitted_task t \<Longrightarrow> well_typed (task_ID t) t"
  by (auto simp: submitted_task_def well_typed_def new_task_stages intro!: exI [of _ "nat (max 1 (min 8 n))" for n])

lemma well_typed_finish: "terminal_status st \<Longrightarrow> well_typed i t \<Longrightarrow> well_typed i (with_status now st t)"
  by (auto simp: well_typed_def with_status_def terminal_status_def)

lemma well_typed_dispatched: "well_typed i t \<Longrightarrow> well_typed i (t\<lparr>task_DispatchedAt := x\<rparr>)"
  by (simp add: well_typed_def)

lemma lifecycle_step_typed:
  assumes "lifecycle_step m m'" and "\<forall>i t. m i = Some t \<longrightarrow> well_typed i t"
  shows "\<forall>i t. m' i = Some t \<longrightarrow> well_typed i t"
  using assms(1)
proof cases
  case (life_create t)
  with assms(2) show ?thesis by (auto simp: well_typed_submitted)
next
  case (life_finish st now i)
  with assms(2) show ?thesis by (cases "m i") (auto simp: well_typed_finish)
next
  case (life_dispatched i at)
  with assms(2) show ?thesis by (cases "m i") (auto simp: well_typed_dispatched)
qed (use assms(2) in simp)

lemma lifecycle_steps_typed:
  "lifecycle_step\<^sup>*\<^sup>* m m' \<Longrightarrow> \<forall>i t. m i = Some t \<longrightarrow> well_typed i t \<Longrightarrow> \<forall>i t. m' i = Some t \<longrightarrow> well_typed i t"
  by (induction rule: rtranclp_induct) (blast dest: lifecycle_step_typed)+

end
