(* ===== verification/Spec2Isabelle.thy ===== *)
theory Spec2Isabelle
  imports Details BrokerExamples Typing Suite
begin

text \<open>
  A verification library for a repository that solves one problem seven times: a browser
  submits a task, a manager stores and dispatches it, a worker runs its stages and reports
  events, and the events reach the browser of the user who submitted it. The seven patterns
  (\<^verbatim>\<open>src/patterns/p01\<close> to \<^verbatim>\<open>p07\<close>) share the components of \<^verbatim>\<open>src/shared\<close> and differ in the
  transport between manager and workers. Names of definitions are those of the Go code, with a
  prefix where two files use the same name (\<open>mem_\<close>, \<open>ws_\<close>, \<open>grpc_\<close>, \<open>nats_\<close>, \<open>ps_\<close>, \<open>pg_\<close>).

  Shared notions. \<open>Prelude\<close> has what the code is written in: the outcome of a call (return,
  block, panic), buffered channels, \<^verbatim>\<open>select\<close>, the order of \<^verbatim>\<open>range\<close> over a map. \<open>Models\<close> is
  \<^verbatim>\<open>shared/models/task.go\<close>. \<open>Contracts\<close> has the Go interfaces (\<^verbatim>\<open>shared/contracts\<close>,
  \<^verbatim>\<open>store/store.go\<close>, \<^verbatim>\<open>events/events.go\<close>) as method tables and, as locales, the laws their users
  rely on: \<open>task_store_contract\<close>, \<open>dispatcher_contract\<close>, \<open>publisher_contract\<close>, \<open>work_queue\<close>.

  Shared components.
  \<^item> \<open>Store\<close> (\<^verbatim>\<open>store/memory.go\<close>), \<open>Bridge\<close> (\<^verbatim>\<open>events/memory.go\<close>), \<open>Hub\<close> (\<^verbatim>\<open>sse/hub.go\<close>),
    \<open>Executor\<close> (\<^verbatim>\<open>executor/executor.go\<close>, with \<open>run_script\<close>, the reference for what a run reports,
    and the locale \<open>reliable_emitter\<close> of transports that keep a final status).
  \<^item> \<open>Manager\<close> (\<^verbatim>\<open>manager/manager.go\<close>): \<open>submit\<close>, the event loop and the deadline loop as
    functions, and \<open>mgr_step\<close>, their interleaving between the calls of store and dispatcher;
    \<open>lifecycle_step\<close> is the abstract machine it refines over any store whose operations are steps
    of it (locales \<open>lifecycle_store\<close>, \<open>supervised\<close>), \<open>managed\<close> and \<open>broadcasting\<close> the locales in
    which its other lemmas hold for any store and dispatcher with their contracts. \<open>Typing\<close> has
    the shape of a stored task.
  \<^item> \<open>JsonText\<close>, \<open>Json\<close>, \<open>TimeText\<close>, \<open>TaskJson\<close>: the text of events and tasks and its parsing, the
    part of \<^verbatim>\<open>encoding/json\<close> and \<^verbatim>\<open>time\<close> the payloads go through.
  \<^item> \<open>Http\<close>, \<open>Api\<close> (\<^verbatim>\<open>api/handlers.go\<close>, \<^verbatim>\<open>api/server.go\<close>) and \<open>Client\<close>
    (\<^verbatim>\<open>client/manager.go\<close>, \<^verbatim>\<open>sse/client.go\<close>): handlers, event streams, the proxy of an API process.

  Patterns.
  \<^item> \<open>Channel\<close> (p01, in process), \<open>Rest\<close> (p02, polling), \<open>WebSocket\<close> (p03), \<open>GrpcConvert\<close>,
    \<open>GrpcServer\<close>, \<open>GrpcClient\<close> (p04); \<open>Systems\<close> wires their processes, \<open>EndToEnd\<close> follows one task
    through pattern 1.
  \<^item> \<open>Postgres\<close> (the store of p05 to p07), \<open>Inbox\<close> (the locale \<open>channel_inbox\<close> of dispatchers
    whose events wait in a channel), \<open>Pubsub\<close> and \<open>BrokerSetup\<close> (the transport of p06 and p07
    over a broker and the topics it opens), \<open>Nats\<close> (p05 and \<^verbatim>\<open>events/nats.go\<close>), \<open>Crypto\<close> and
    \<open>Bootstrap\<close> (p07: base64 and HMAC-SHA256, tokens, deny-list, handshake); \<open>Brokered\<close> wires the processes,
    \<open>BrokerLife\<close> follows one task through pattern 6.
  \<^item> \<open>Examples\<close> and \<open>BrokerExamples\<close> hold the concrete values used below, \<open>Details\<close> further
    facts on single components.
  \<^item> \<open>Commands\<close>: the commands of the patterns (\<^verbatim>\<open>cmd\<close>), their configuration, and the health endpoint.
  \<^item> \<open>TestHelpers\<close> and \<open>Suite\<close>: the integration tests every pattern is run against
    (\<^verbatim>\<open>shared/testutil\<close>): the reader goroutine of the event stream and the collector with its
    timer, interleaved turn by turn, and the three tests with their checks.

  What stands for the environment. The scheduler, the network and libraries outside the
  repository are arguments. A \<^verbatim>\<open>select\<close> takes a number that picks among its ready cases; map
  order, times, random numbers and contexts are arguments or an environment record with one
  entry per turn of a loop. The web framework is \<open>echo\<close> (hypothesis \<open>echo_ok\<close>), SQL statements are
  the record \<open>sql\<close> (locale \<open>sql_table\<close>), NATS the record \<open>nats\<close> (\<open>work_stream\<close>, \<open>core_publish\<close>), a
  broker topic and subscription the records of \<open>Pubsub\<close> (\<open>job_topic\<close>, \<open>work_topic\<close>,
  \<open>ordered_topic\<close>, \<open>fifo_queue\<close>); AWS calls and the files of TLS are arguments as well. Each
  locale is interpreted on a concrete instance, in which the theorems that have such a
  hypothesis are also applied.

  Loops and bounds. A background loop is a function of the list of its turns (events, ticks,
  frames); theorems hold for every list, those on delivery for lists as long as what is
  waiting. Loops that retry a reception (\<open>rest_receive\<close>, \<open>ps_receive\<close>) have the number of tries
  as fuel and block when it is used up; one try is enough when a task is waiting. The
  bootstrap makes at most five attempts, as in the code, and its loop recurses on the attempts
  left. Channel capacities are those of the code; \<open>QueueSize\<close> is configuration. Integers are
  unbounded except where the width matters (\<^verbatim>\<open>int32\<close> progress over gRPC, \<^verbatim>\<open>int64\<close> in JSON, the
  octets of base64, the \<^verbatim>\<open>float64\<close> rounding of the renewal delay).

  What the theorems show. C1 and C2 follow one task from the browser's request to its event
  stream; C3 puts the process of C1 under the repository's own integration test. C4 to C13 are
  the manager: refinement of the life cycle under every interleaving in all seven patterns,
  the shape of stored tasks, each branch of \<^verbatim>\<open>Submit\<close>, the two loops, the executor's script.
  C14 to C20 are delivery by the transports. C21 to C25 are stores and event distribution, C26
  to C28 the texts between processes and the proxy, C29 to C34 bootstrapping and broker
  addresses, C35 to C40 the WebSocket and gRPC dispatchers, with three defects of the latter:
  worker IDs that collide, a dispatch loop that can block for good, and a refused submission
  that stays pending.

  Not modelled: the generated protobuf code (messages are records of the fields the converters
  use); how signals reach the contexts and what is logged; rendering of the embedded templates;
  the load test, which compares a floating-point percentage. The copies of the database store
  in p06 and p07, and p07's transport and API process, repeat the code of p05 and p06 with other
  comments and layout and are modelled there.
\<close>

section \<open>A task from submission to browser\<close>

text \<open>
  C1. Pattern 1 end to end. In a freshly wired process, a browser that subscribed and then
  submits a task with a name is answered 202 with the task's ID; once a worker of the pool
  has taken its turn, the manager's event loop has handled the reported events and the relay
  has run, the browser's channel holds the JSON text of exactly the events of the run, in
  order and marked with the user's ID, and the store holds the task with its final status
  (failed precisely if the run was cancelled), dispatch and completion time.
\<close>

theorem p01_task_life:
  assumes "echo_ok E" and "p01_New y None cfg = Ret (Inr a)"
    and "0 < QueueSize cfg" and "0 < Workers cfg"
    and "valid_executor (ms_executor (cfg_MaxStageDuration cfg))" and "\<not> ctx_done x"
    and "unmarshal_submit (rq_Body rq) = Some \<lparr>sr_Name = name, sr_StageCount = n\<rparr>" and "name \<noteq> []"
    and "rq_HXRequest rq \<noteq> ''true''"
    and "t = (new_task u t0 name (if n < 1 then 3 else n))\<lparr>task_UserID := getUserID rq\<rparr>"
    and "length es = length (run_script (re_cancel w) t)" and "list_all (\<lambda>(c, _, _). \<not> ctx_done c) es"
    and "length ps = length es"
  shows "\<exists>k a' st. p01_life E x u t0 now rq w es ps a = Ret (response 202 (id_body u @ [newline]), k, a') \<and>
    ch_buf (hb_heap (a1_hub a') k) =
      map (\<lambda>ev. marshal_event (ev\<lparr>ev_UserID := getUserID rq\<rparr>)) (run_script (re_cancel w) t) \<and>
    terminal_status st \<and> (st = TaskFailed \<longleftrightarrow> (\<exists>j < length (task_Stages t). re_cancel w j)) \<and>
    mem_tasks (mg_store (a1_mgr a')) u =
      Some (with_status (fst (snd (last es))) st (t\<lparr>task_DispatchedAt := Some now\<rparr>))"
  using assms by (rule p01_life_delivers)

theorem p01_task_life_witness:
  "\<exists>a k a' st. p01_New Background None \<lparr>Workers = 2, QueueSize = 5, cfg_MaxStageDuration = 300\<rparr> = Ret (Inr a) \<and>
    p01_life plain_echo Background ''t1'' demo_time 9 demo_request demo_env
      (replicate 6 (Background, 11, 0)) (replicate 6 0) a =
      Ret (response 202 (id_body ''t1'' @ [newline]), k, a') \<and>
    terminal_status st \<and> mem_tasks (mg_store (a1_mgr a')) ''t1'' =
      Some (with_status 11 st (demo_task\<lparr>task_DispatchedAt := Some 9\<rparr>))"
proof -
  let ?cfg = "\<lparr>Workers = 2, QueueSize = 5, cfg_MaxStageDuration = 300\<rparr>"
  obtain a where a: "p01_New Background None ?cfg = Ret (Inr a)"
    using p01_New_total [of ?cfg Background] by auto
  have exec: "valid_executor (ms_executor (cfg_MaxStageDuration ?cfg))"
    unfolding valid_executor_def ms_executor_def by code_simp
  have "demo_task = (new_task ''t1'' demo_time ''demo'' (if (2::int) < 1 then 3 else 2))\<lparr>task_UserID := getUserID demo_request\<rparr>"
    by (simp add: demo_task_def getUserID_def demo_request_def)
  moreover have "run_script (re_cancel demo_env) demo_task = run_script (\<lambda>_. False) demo_task"
    by (simp add: demo_env_def)
  moreover have "rq_HXRequest demo_request \<noteq> ''true''" by (simp add: demo_request_def)
  moreover have "list_all (\<lambda>(c, _, _). \<not> ctx_done c) (replicate 6 (Background, 11 :: instant, 0 :: nat))"
    by (simp add: list_all_iff)
  ultimately show ?thesis
    using p01_task_life [OF plain_echo_ok a _ _ exec _ demo_body, where x = Background and t = demo_task
        and u = "''t1''" and ?t0.0 = demo_time and es = "replicate 6 (Background, 11, 0)" and w = demo_env
        and ps = "replicate 6 0" and now = 9] a
    by (auto simp: demo_script)
qed





section \<open>The manager under every interleaving\<close>

text \<open>
  C4. Refinement. From an empty store, whatever the interleaving of submissions (each in its
  three separate steps), event-loop turns, deadline passes and worker steps, the stored tasks
  of a pattern 1 manager evolve only by steps of the abstract lifecycle machine (create a
  fresh task, finish one, record a dispatch), and every stored task is pending without a
  completion time or finished with one.
\<close>

theorem p01_lifecycle:
  assumes "(mgr_step memory_store_ops channel_dispatcher_ops memory_bridge_ops link_env)\<^sup>*\<^sup>* (mgr_start m) w"
    and "mem_inv (mg_store m)" and "link_inv (mg_dispatcher m)" and "mem_tasks (mg_store m) = Map.empty"
  shows "lifecycle_step\<^sup>*\<^sup>* Map.empty (mem_tasks (mg_store (mw_mgr w))) \<and>
    (\<forall>t \<in> ran (mem_tasks (mg_store (mw_mgr w))). lifecycle_ok t)"
proof -
  have "lifecycle_step\<^sup>*\<^sup>* Map.empty (mem_tasks (mg_store (mw_mgr w)))"
    using p1.mgr_steps_refine [OF assms(1)] assms(2-4) link_env_inv by (simp add: mgr_start_def)
  then show ?thesis using lifecycle_steps_ok [of Map.empty] by simp
qed

theorem p01_lifecycle_witness:
  "\<exists>w. (mgr_step memory_store_ops channel_dispatcher_ops memory_bridge_ops link_env)\<^sup>*\<^sup>* demo_start w \<and>
    mem_tasks (mg_store (mw_mgr w)) ''t1'' = Some (demo_task\<lparr>task_DispatchedAt := Some 9\<rparr>) \<and>
    lifecycle_ok (demo_task\<lparr>task_DispatchedAt := Some 9\<rparr>)"
proof -
  obtain w where w: "(mgr_step memory_store_ops channel_dispatcher_ops memory_bridge_ops link_env)\<^sup>*\<^sup>* demo_start w"
    "mem_tasks (mg_store (mw_mgr w)) ''t1'' = Some (demo_task\<lparr>task_DispatchedAt := Some 9\<rparr>)"
    using demo_run by blast
  then have "\<forall>t \<in> ran (mem_tasks (mg_store (mw_mgr w))). lifecycle_ok t"
    using p01_lifecycle [of demo_manager w] demo_manager_inv by (simp add: demo_start_def)
  with w show ?thesis by (blast intro: ranI)
qed







text \<open>
  C8. The shape of stored tasks. From an empty store, in every state the concurrent manager of
  pattern 1 reaches, a task stored under a key has that ID, is pending, completed or failed
  (never running), has a completion time exactly if it is not pending, and has 1 to 8 stages
  numbered from 0 and named from the table.
\<close>

theorem stored_tasks_typed:
  assumes "(mgr_step memory_store_ops channel_dispatcher_ops memory_bridge_ops link_env)\<^sup>*\<^sup>* (mgr_start m) w"
    and "mem_inv (mg_store m)" and "link_inv (mg_dispatcher m)" and "mem_tasks (mg_store m) = Map.empty"
  shows "\<forall>i t. mem_tasks (mg_store (mw_mgr w)) i = Some t \<longrightarrow> well_typed i t"
proof -
  have "lifecycle_step\<^sup>*\<^sup>* Map.empty (mem_tasks (mg_store (mw_mgr w)))"
    using p1.mgr_steps_refine [OF assms(1)] assms(2-4) link_env_inv by (simp add: mgr_start_def)
  from lifecycle_steps_typed [OF this] show ?thesis by simp
qed

theorem stored_tasks_typed_witness:
  "\<exists>w. (mgr_step memory_store_ops channel_dispatcher_ops memory_bridge_ops link_env)\<^sup>*\<^sup>* demo_start w \<and>
    mem_tasks (mg_store (mw_mgr w)) ''t1'' = Some (demo_task\<lparr>task_DispatchedAt := Some 9\<rparr>) \<and>
    well_typed ''t1'' (demo_task\<lparr>task_DispatchedAt := Some 9\<rparr>)"
proof -
  obtain w where w: "(mgr_step memory_store_ops channel_dispatcher_ops memory_bridge_ops link_env)\<^sup>*\<^sup>* demo_start w"
    "mem_tasks (mg_store (mw_mgr w)) ''t1'' = Some (demo_task\<lparr>task_DispatchedAt := Some 9\<rparr>)"
    using demo_run by blast
  with stored_tasks_typed [of demo_manager w] demo_manager_inv show ?thesis by (auto simp: demo_start_def)
qed

text \<open>
  C9. \<^verbatim>\<open>Submit\<close> on pattern 1, every branch: it returns; a known ID is answered 500 and changes
  nothing; a new task with room in the queue is acknowledged, stored with its dispatch time
  and appended to the queue exactly once; without room it is answered 429, stored as failed
  and not queued.
\<close>

theorem p01_submit:
  assumes "mem_inv (mg_store m)" and "link_inv (mg_dispatcher m)"
  shows "\<exists>e m'. submit memory_store_ops channel_dispatcher_ops c now t m = Ret (e, m') \<and>
    (if mem_tasks (mg_store m) (task_ID t) \<noteq> None
     then (\<exists>msg. e = Some (HTTPError 500 msg None)) \<and> mem_tasks (mg_store m') = mem_tasks (mg_store m) \<and>
       mg_dispatcher m' = mg_dispatcher m
     else if chan_room (cl_tasks (mg_dispatcher m))
     then e = None \<and>
       mem_tasks (mg_store m') = (mem_tasks (mg_store m))(task_ID t \<mapsto> t\<lparr>task_DispatchedAt := Some now\<rparr>) \<and>
       mg_dispatcher m' = (mg_dispatcher m)\<lparr>cl_tasks := chan_push t (cl_tasks (mg_dispatcher m))\<rparr>
     else e = Some (HTTPError 429 queue_full_message (Some ErrDispatchFull)) \<and>
       mem_tasks (mg_store m') = (mem_tasks (mg_store m))(task_ID t \<mapsto> with_status now TaskFailed t) \<and>
       mg_dispatcher m' = mg_dispatcher m)"
  using assms by (rule p01_submit_cases)

theorem p01_submit_witness:
  "\<exists>m'. submit memory_store_ops channel_dispatcher_ops Background 9 demo_task demo_manager = Ret (None, m') \<and>
    mem_tasks (mg_store m') ''t1'' = Some (demo_task\<lparr>task_DispatchedAt := Some 9\<rparr>)"
  using p01_submit [of demo_manager Background 9 demo_task] demo_manager_inv
  by (auto simp: demo_manager_def chan_room_def)

text \<open>
  C10. \<^verbatim>\<open>Submit\<close> over PostgreSQL and a broker (patterns 6 and 7), every branch: a known ID is
  answered 500 and changes nothing; a new task that the broker takes is in the table with its
  dispatch time and once more on the topic; if the send fails the caller gets the HTTP error
  for it, the task is in the table as failed and the topic is as before.
\<close>

theorem p06_submit:
  assumes "sql_table Q up rows at_us jsonb" and "job_topic T binv msgs"
    and "up (mg_store m)" and "rows_scan rows (mg_store m)" and "pubsub_inv binv (mg_dispatcher m)" and "pg_storable t"
  shows "if row_tasks rows (mg_store m) (task_ID t) \<noteq> None
    then \<exists>msg s. submit (pg_store_ops Q) (pubsub_dispatcher_ops T) c now t m = Ret (Some (HTTPError 500 msg None), m\<lparr>mg_store := s\<rparr>) \<and>
      row_tasks rows s = row_tasks rows (mg_store m)
    else \<exists>err d s. ps_dispatch T c t (mg_dispatcher m) = Ret (err, d) \<and>
      submit (pg_store_ops Q) (pubsub_dispatcher_ops T) c now t m =
        Ret (map_option dispatch_http_error err, m\<lparr>mg_store := s, mg_dispatcher := d\<rparr>) \<and>
      row_tasks rows s = (row_tasks rows (mg_store m))(task_ID t \<mapsto>
        (if err = None then (column_times at_us t)\<lparr>task_DispatchedAt := Some (at_us now)\<rparr>
         else with_status (at_us now) TaskFailed (column_times at_us t))) \<and>
      pubsub_queued msgs d =
        (if err = None then add_mset t (pubsub_queued msgs (mg_dispatcher m)) else pubsub_queued msgs (mg_dispatcher m))"
proof -
  have enc: "task_encodable t" using assms(6) by (simp add: pg_storable_def)
  note mgr = pg_manager.intro [OF assms(1) job_topic.contract [OF assms(2)]]
  show ?thesis
  proof (cases "row_tasks rows (mg_store m) (task_ID t)")
    case None
    from pg_manager.submit_new [OF mgr conjI [OF assms(3,4)] assms(5,6) None, of c now]
    obtain err d s where r: "ps_dispatch T c t (mg_dispatcher m) = Ret (err, d)"
      "submit (pg_store_ops Q) (pubsub_dispatcher_ops T) c now t m =
        Ret (map_option dispatch_http_error err, m\<lparr>mg_store := s, mg_dispatcher := d\<rparr>)"
      "row_tasks rows s = (row_tasks rows (mg_store m))(task_ID t \<mapsto>
        (if err = None then (column_times at_us t)\<lparr>task_DispatchedAt := Some (at_us now)\<rparr>
         else with_status (at_us now) TaskFailed (column_times at_us t)))" by auto
    from job_topic.dispatch_spec [OF assms(2,5), of c t] r(1) enc have
      "pubsub_queued msgs d =
        (if err = None then add_mset t (pubsub_queued msgs (mg_dispatcher m)) else pubsub_queued msgs (mg_dispatcher m))"
      by (cases err) auto
    with None r show ?thesis by auto
  next
    case (Some u)
    with pg_manager.submit_known [OF mgr conjI [OF assms(3,4)] assms(6), of c now] show ?thesis by auto
  qed
qed

theorem p06_submit_witness:
  "\<exists>d s. submit (pg_store_ops rows_table) (pubsub_dispatcher_ops fifo_topic) Background 9 demo_task
      (NewManager [] (NewPubSubDispatcher []) () 0) = Ret (None, NewManager s d () 0) \<and>
    row_tasks find_row s ''t1'' = Some ((column_times micros demo_task)\<lparr>task_DispatchedAt := Some (micros 9)\<rparr>) \<and>
    pubsub_queued mset d = {#demo_task#}"
proof -
  let ?m = "NewManager [] (NewPubSubDispatcher []) () 0 :: (row list, message list pubsub_dispatcher, unit) manager"
  have m: "row_tasks find_row (mg_store ?m) = Map.empty" "rows_scan find_row (mg_store ?m)"
    "pubsub_inv (\<lambda>_. True) (mg_dispatcher ?m)" "pubsub_queued mset (mg_dispatcher ?m) = {#}"
    "task_ID demo_task = ''t1''" "mg_dispatcher ?m = NewPubSubDispatcher []"
    by (auto simp: row_tasks_def rows_scan_def find_row_def pubsub_inv_def NewPubSubDispatcher_def pubsub_queued_def tasks_in_def)
  have ok: "ps_dispatch fifo_topic Background demo_task (NewPubSubDispatcher []) = Ret (err, d) \<Longrightarrow> err = None" for err d
    using unmarshal_marshal_task [OF demo_task_encodable] by (auto simp: ps_dispatch_def fifo_topic_def)
  from p06_submit [OF rows.sql_table_axioms fifo_work.job_topic_axioms, of ?m demo_task Background 9, OF _ m(2,3) demo_pg_storable] m(1,4,5,6)
  obtain err d s where "ps_dispatch fifo_topic Background demo_task (NewPubSubDispatcher []) = Ret (err, d)"
    "submit (pg_store_ops rows_table) (pubsub_dispatcher_ops fifo_topic) Background 9 demo_task ?m =
        Ret (map_option dispatch_http_error err, ?m\<lparr>mg_store := s, mg_dispatcher := d\<rparr>)"
    "row_tasks find_row s ''t1'' = Some (if err = None then (column_times micros demo_task)\<lparr>task_DispatchedAt := Some (micros 9)\<rparr>
         else with_status (micros 9) TaskFailed (column_times micros demo_task))"
    "pubsub_queued mset d = (if err = None then {#demo_task#} else {#})" by auto
  with ok show ?thesis by (auto simp: NewManager_def)
qed

text \<open>
  C11. The event loop of a pattern 2 manager drains its dispatcher in order: after as many turns
  as events are waiting, a bridge subscriber with room has received exactly those events, in
  the order the workers' posts arrived and with the user ID of the stored task filled in, and
  the store has changed by exactly the final statuses among them.
\<close>

theorem p02_event_loop:
  assumes "mem_inv (mg_store m)" and "rest_inv (mg_dispatcher m)" and "bridge_inv (mg_events m)"
    and "list_all (\<lambda>(c, _, _). \<not> ctx_done c) xs" and "length xs \<le> length (rest_inbox (mg_dispatcher m))"
    and "i \<in> bridge_subs (mg_events m)" and "length xs \<le> bridge_free (mg_events m) i"
  shows "\<exists>m'. event_loop memory_store_ops rest_dispatcher_ops memory_bridge_ops xs m = Ret m' \<and>
    rest_inbox (mg_dispatcher m') = drop (length xs) (rest_inbox (mg_dispatcher m)) \<and>
    rest_queued (mg_dispatcher m') = rest_queued (mg_dispatcher m) \<and>
    bridge_feed (mg_events m') i = bridge_feed (mg_events m) i @
      map (enrich memory_store_ops (mg_store m)) (take (length xs) (rest_inbox (mg_dispatcher m))) \<and>
    mem_tasks (mg_store m') = apply_events
      (zip (map (\<lambda>(_, now, _). now) xs) (rest_inbox (mg_dispatcher m))) (mem_tasks (mg_store m))"
  using assms by (rule p2.event_loop_delivers)

theorem p02_event_loop_witness:
  "\<exists>m'. event_loop memory_store_ops rest_dispatcher_ops memory_bridge_ops [(Background, 5, 0)]
      (NewManager NewMemoryStore \<lparr>rd_tasks = make_chan 4, rd_events = chan_push (status_event demo_task TaskCompleted) (make_chan 256)\<rparr>
        (snd (bridge_subscribe NewMemoryBridge)) 0) = Ret m' \<and>
    rest_inbox (mg_dispatcher m') = [] \<and>
    bridge_feed (mg_events m') 0 = [enrich memory_store_ops NewMemoryStore (status_event demo_task TaskCompleted)]"
  using p02_event_loop [of "NewManager NewMemoryStore \<lparr>rd_tasks = make_chan 4, rd_events = chan_push (status_event demo_task TaskCompleted) (make_chan 256)\<rparr>
        (snd (bridge_subscribe NewMemoryBridge)) 0" "[(Background, 5, 0)]" 0]
    demo_bridge
  by (auto simp: rest_inv_def rest_inbox_def chan_ok_def simp del: event_loop.simps)



section \<open>Running a task\<close>

text \<open>
  C13. Whatever the transport, running a task emits exactly its script, one event after the
  other: no event is skipped, repeated or reordered, however the emissions turn out.
\<close>

theorem executor_follows_script:
  assumes "valid_executor e"
  shows "exec_run TC e w t c = emit_all TC (re_ctx w) 0 (run_script (re_cancel w) t) c"
  using assms by (rule exec_run_script)

theorem executor_follows_script_witness:
  "valid_executor (ms_executor 300) \<and>
   exec_run channel_consumer_ops (ms_executor 300) demo_env demo_task \<lparr>cl_tasks = make_chan 1, cl_events = make_chan 9\<rparr> =
     emit_all channel_consumer_ops (re_ctx demo_env) 0 (run_script (re_cancel demo_env) demo_task)
       \<lparr>cl_tasks = make_chan 1, cl_events = make_chan 9\<rparr>"
  by (rule conjI [OF demo_executor executor_follows_script [OF demo_executor]])

text \<open>
  C14. Delivery through the in-process channel of pattern 1: whatever progress a full buffer
  costs, a run that returns has put its final status into the event channel, after a
  subsequence of its other events and nothing else.
\<close>

theorem p01_run_delivers:
  assumes "link_inv c" and "valid_executor e" and "exec_run channel_consumer_ops e w t c = Ret c'"
  shows "\<exists>ys st. link_inbox c' = link_inbox c @ ys @ [status_event t st] \<and> terminal_status st \<and>
    subseq (ys @ [status_event t st]) (run_script (re_cancel w) t) \<and> list_all (\<lambda>ev. \<not> is_terminal ev) ys"
  using channel_emitter.exec_run_delivers [OF assms(1) _ _ assms(2,3)] by (simp add: list_all_iff)

theorem p01_run_delivers_witness:
  "\<exists>c' ys st. exec_run channel_consumer_ops (ms_executor 300) demo_env demo_task
      \<lparr>cl_tasks = make_chan 1, cl_events = make_chan 9\<rparr> = Ret c' \<and>
    link_inbox c' = ys @ [status_event demo_task st] \<and> terminal_status st"
proof -
  let ?c = "\<lparr>cl_tasks = make_chan 1, cl_events = make_chan 9\<rparr>"
  have inv: "link_inv ?c" "link_inbox ?c = []" by (simp_all add: link_inv_def link_inbox_def)
  obtain c' where c': "exec_run channel_consumer_ops (ms_executor 300) demo_env demo_task ?c = Ret c'"
    using emit_all_channel [OF inv(1), of "run_script (re_cancel demo_env) demo_task" "re_ctx demo_env" 0] inv(2)
    by (simp add: exec_run_script [OF demo_executor] demo_length)
  with p01_run_delivers [OF inv(1) demo_executor c'] inv(2) show ?thesis by auto
qed



text \<open>
  C16. Delivery over a WebSocket (pattern 3): while the worker is connected, a run that returns
  has queued the JSON text of its final status for the connection, after the texts of a
  subsequence of its other events.
\<close>

theorem p03_run_delivers:
  assumes "ws_connected c" and "valid_executor e" and "exec_run ws_consumer_ops e w t c = Ret c'"
  shows "\<exists>ys st. ws_outbox c' = ws_outbox c @ map marshal_event (ys @ [status_event t st]) \<and>
    terminal_status st \<and> subseq (ys @ [status_event t st]) (run_script (re_cancel w) t) \<and>
    list_all (\<lambda>ev. \<not> is_terminal ev) ys"
  using ws_emitter.exec_run_delivers [OF assms(1) _ _ assms(2,3)] by (simp add: list_all_iff)

theorem p03_run_delivers_witness:
  "\<exists>c c' ys st. ws_connected c \<and> exec_run ws_consumer_ops (ms_executor 300) demo_env demo_task c = Ret c' \<and>
    ws_outbox c' = ws_outbox c @ map marshal_event (ys @ [status_event demo_task st]) \<and> terminal_status st"
proof -
  obtain c c' where c: "ws_connected c" "exec_run ws_consumer_ops (ms_executor 300) demo_env demo_task c = Ret c'"
    using demo_ws_run by blast
  from p03_run_delivers [OF c(1) demo_executor c(2)] c show ?thesis by blast
qed



text \<open>
  C18. Delivery over NATS (pattern 5): a run returns and publishes its whole script. The manager's
  callback, over these messages, keeps the final status and the order, drops only progress,
  and drops nothing when its buffer has room.
\<close>

theorem p05_run_delivers:
  assumes "core_publish N binv sent" and "binv (nk_conn c)" and "task_encodable t" and "valid_executor e"
  shows "\<exists>c' new. exec_run (nats_consumer_ops N) e w t c = Ret c' \<and> sent (nk_conn c') = sent (nk_conn c) @ new \<and>
    new = map nats_event_message (run_script (re_cancel w) t) \<and>
    (\<forall>ch ch'. nats_deliver (map snd new) ch = Ret ch' \<longrightarrow> (\<exists>ys st. ch_buf ch' = ch_buf ch @ ys @ [status_event t st] \<and>
       terminal_status st \<and> subseq ys (run_script (re_cancel w) t) \<and> list_all (\<lambda>ev. \<not> is_terminal ev) ys)) \<and>
    (\<forall>ch. \<not> ch_closed ch \<longrightarrow> length (ch_buf ch) + length new \<le> ch_cap ch \<longrightarrow>
       nats_deliver (map snd new) ch = Ret (ch\<lparr>ch_buf := ch_buf ch @ run_script (re_cancel w) t\<rparr>))"
proof -
  let ?script = "run_script (re_cancel w) t" and ?new = "map nats_event_message (run_script (re_cancel w) t)"
  obtain c' where c': "exec_run (nats_consumer_ops N) e w t c = Ret c'" "sent (nk_conn c') = sent (nk_conn c) @ ?new"
    using core_publish.emit_all_publishes [OF assms(1,2), of "re_ctx w" 0 ?script] assms(4) by (auto simp: exec_run_script)
  have dec: "list_all2 (\<lambda>data ev. unmarshal_event data = Some ev) (map snd ?new) ?script"
    using nats_decodes [OF run_script_encodable [OF assms(3)], of "re_cancel w"] by (simp add: comp_def)
  have deliv: "\<exists>ys st. ch_buf ch' = ch_buf ch @ ys @ [status_event t st] \<and> terminal_status st \<and> subseq ys ?script \<and>
      list_all (\<lambda>ev. \<not> is_terminal ev) ys" if r: "nats_deliver (map snd ?new) ch = Ret ch'" for ch ch'
  proof -
    obtain zs where zs: "ch_buf ch' = ch_buf ch @ zs" "subseq zs ?script" "filter is_terminal zs = filter is_terminal ?script"
      using nats_deliver_spec [OF r dec] by blast
    from run_script_kept [OF zs(2,3)] obtain ys st where ys: "zs = ys @ [status_event t st]" "terminal_status st"
      "list_all (\<lambda>ev. \<not> is_terminal ev) ys" by blast
    have "subseq ys zs" unfolding ys(1) by (rule list_emb_prefix) simp
    then have "subseq ys ?script" using zs(2) by (rule subseq_order.trans)
    with zs(1) ys show ?thesis by blast
  qed
  with c' nats_deliver_room [OF dec] show ?thesis by (intro exI [of _ c'] exI [of _ ?new]) simp
qed

theorem p05_run_delivers_witness:
  "\<exists>c'. exec_run (nats_consumer_ops stream_conn) (ms_executor 300) demo_env demo_task
      (NewNATSConsumer \<lparr>st_next = 0, st_jobs = [], st_sent = []\<rparr>) = Ret c' \<and>
    nats_deliver (map snd (st_sent (nk_conn c'))) (make_chan 256) =
      Ret ((make_chan 256)\<lparr>ch_buf := run_script (re_cancel demo_env) demo_task\<rparr>)"
proof -
  let ?c = "NewNATSConsumer \<lparr>st_next = 0, st_jobs = [], st_sent = []\<rparr>"
  have script: "length (run_script (re_cancel demo_env) demo_task) = 6" by (simp add: demo_env_def demo_script)
  from p05_run_delivers [OF stream_core.core_publish_axioms _ demo_task_encodable demo_executor, where c = ?c and w = demo_env]
  obtain c' where "exec_run (nats_consumer_ops stream_conn) (ms_executor 300) demo_env demo_task ?c = Ret c'"
    "st_sent (nk_conn c') = map nats_event_message (run_script (re_cancel demo_env) demo_task)"
    "\<forall>ch. \<not> ch_closed ch \<longrightarrow> length (ch_buf ch) + 6 \<le> ch_cap ch \<longrightarrow>
       nats_deliver (map snd (map nats_event_message (run_script (re_cancel demo_env) demo_task))) ch =
         Ret (ch\<lparr>ch_buf := ch_buf ch @ run_script (re_cancel demo_env) demo_task\<rparr>)"
    by (auto simp: NewNATSConsumer_def script)
  then show ?thesis by (intro exI [of _ c']) simp
qed

section \<open>Brokers and workers\<close>

text \<open>
  C19. A pattern 5 worker loses no task while its process lives: under every interleaving of
  callbacks (failed acknowledgements included), receptions and other use of the stream, what
  was on the stream is still there, in the consumer's buffer, or has been started. In the
  witness the stream no longer has the task while it is still in the buffer: a worker that
  crashes then loses it.
\<close>

theorem p05_no_task_lost:
  assumes "work_stream N binv jobs holding" and "binv b" and "(nats_worker_step N binv jobs holding)\<^sup>*\<^sup>* (NewNATSConsumer b, {#}) (c, started)"
  shows "texts_tasks (jobs b) \<subseteq># texts_tasks (jobs (nk_conn c)) + mset (ch_buf (nk_tasks c)) + started"
  using work_stream.worker_keeps [OF assms(1,3)] assms(2) by (simp add: nats_tasks_def NewNATSConsumer_def)

theorem p05_no_task_lost_witness:
  "\<exists>c data b. unmarshal_task data = Some demo_task \<and>
    nats_on_task stream_conn Background 0 data (NewNATSConsumer b) = Ret c \<and> st_jobs (nk_conn c) = [] \<and>
    texts_tasks (mset (map snd (st_jobs b))) = {#demo_task#} \<and> {#demo_task#} \<subseteq># mset (ch_buf (nk_tasks c))"
proof -
  obtain data where d: "unmarshal_task data = Some demo_task" using unmarshal_marshal_task [OF demo_task_encodable] by blast
  let ?b = "\<lparr>st_next = 1, st_jobs = [(0, data)], st_sent = []\<rparr>"
  let ?c = "\<lparr>nk_conn = ?b\<lparr>st_jobs := []\<rparr>, nk_tasks = chan_push demo_task (make_chan 1)\<rparr>"
  have c: "nats_on_task stream_conn Background 0 data (NewNATSConsumer ?b) = Ret ?c"
    using d by (simp add: nats_task_acked stream_conn_def)
  have "nats_worker_step stream_conn stream_ok (\<lambda>b. mset (map snd (st_jobs b))) (\<lambda>b. map_of (st_jobs b))
      (NewNATSConsumer ?b, {#}) (?c, {#})"
    by (rule nats_worker_step.step_task [OF _ c]) (simp add: NewNATSConsumer_def)
  then have "(nats_worker_step stream_conn stream_ok (\<lambda>b. mset (map snd (st_jobs b))) (\<lambda>b. map_of (st_jobs b)))\<^sup>*\<^sup>*
      (NewNATSConsumer ?b, {#}) (?c, {#})" by blast
  from p05_no_task_lost [OF stream.work_stream_axioms _ this] d c show ?thesis
    by (intro exI [of _ ?c] exI [of _ data] exI [of _ ?b]) (simp add: stream_ok_def)
qed

text \<open>
  C20. Receive loops of patterns 6 and 7. Wiring a manager starts two of them. One loop alone hands
  the manager events in the order of delivery and every final one; two loops can hand the
  second of two delivered events over before the first.
\<close>

theorem p06_receive_loops:
  assumes "p06_NewManager Q topic subs A url y (Inr db) b0 None = (Inr a, cl)"
    and "(ps_step S)\<^sup>*\<^sup>* (ps_world_start 1 b) w" and "event_encodable e1" and "event_encodable e2"
  shows "pd_loops (mg_dispatcher (a6_mgr a)) = 2 \<and> subseq (ps_delivered w) (pw_fetched w) \<and>
    (Exited \<notin> set (pw_loops w) \<longrightarrow>
      filter is_terminal (pw_fetched w) = filter is_terminal (ps_delivered w @ concat (map pending (pw_loops w)))) \<and>
    (\<exists>v. (ps_step fifo_subscription)\<^sup>*\<^sup>* (ps_world_start 2 [event_message e1, event_message e2]) v \<and>
      pw_fetched v = [e1, e2] \<and> ps_delivered v = [e2, e1])"
  using p06_New_app(1) [OF assms(1)] ps_one_inv_summary [OF ps_one_loop [OF assms(2)]] two_loops_swap [OF assms(3,4)] by simp

theorem p06_receive_loops_witness:
  "\<exists>a v. p06_NewManager rows_table demo_topics demo_subs demo_aws demo_url Background (Inr []) no_lanes None = (Inr a, []) \<and>
    pd_loops (mg_dispatcher (a6_mgr a)) = 2 \<and>
    (ps_step fifo_subscription)\<^sup>*\<^sup>* (ps_world_start 2
      [event_message (status_event demo_task TaskRunning), event_message (status_event demo_task TaskCompleted)]) v \<and>
    ps_delivered v = [status_event demo_task TaskCompleted, status_event demo_task TaskRunning]"
proof -
  obtain a where a: "p06_NewManager rows_table demo_topics demo_subs demo_aws demo_url Background (Inr []) no_lanes None = (Inr a, [])"
    using demo_p06 by blast
  have "valid_utf8 TaskRunning" by simp
  then have "event_encodable (status_event demo_task TaskRunning)"
    using demo_status_encodable by (simp add: event_encodable_def status_event_def)
  from p06_receive_loops [where S = fifo_subscription and b = "[]", OF a rtranclp.rtrancl_refl this demo_status_encodable] a show ?thesis by blast
qed

section \<open>Stores and fan-out\<close>

text \<open>
  C21. The in-memory store refines a finite map: over any sequence of operations on a new store,
  every result a caller sees (success, the fetched task, the listed tasks and their number)
  is the one the map gives, and the final contents are the map's.
\<close>

theorem memory_store_refines_map:
  "\<exists>s'. mem_run xs NewMemoryStore = (fst (map_run xs Map.empty), s') \<and>
     mem_tasks s' = snd (map_run xs Map.empty) \<and> mem_inv s'"
proof -
  obtain bs s' where r: "mem_run xs NewMemoryStore = (bs, s')" by (cases "mem_run xs NewMemoryStore")
  from mem_run_refines [OF _ r] r show ?thesis by auto
qed



text \<open>
  C23. The in-memory bridge, under every interleaving of publishing, subscribing, the two steps
  of an ended subscription and reading: publishing always succeeds (it never sends on a closed
  channel), a pending close never closes twice, and what each subscriber has read and can
  still read is a subsequence, in order, of what was published since it subscribed.
\<close>

theorem bridge_safe:
  assumes "bridge_step\<^sup>*\<^sup>* bridge_start w"
  shows "(\<exists>b. bridge_publish p ev (bw_bridge w) = Ret b) \<and>
    list_all (\<lambda>i. \<exists>b. bridge_close i (bw_bridge w) = Ret b) (mb_closing (bw_bridge w)) \<and>
    list_all (\<lambda>i. subseq (bw_read w i @ bridge_feed (bw_bridge w) i) (drop (bw_since w i) (bw_log w)))
      [0..<mb_next (bw_bridge w)]"
proof -
  have inv: "bridge_log_inv w" using assms bridge_log_inv_start by (rule bridge_steps_log_inv)
  then have "bridge_inv (bw_bridge w)" by (simp add: bridge_log_inv_def)
  moreover from this have "\<exists>b. bridge_close i (bw_bridge w) = Ret b" if "i \<in> set (mb_closing (bw_bridge w))" for i
    using bridge_inv_close that by blast
  ultimately show ?thesis
    using inv bridge_pub.publish_returns [of "bw_bridge w" p ev] by (simp add: list_all_iff bridge_log_inv_def)
qed

theorem bridge_safe_witness:
  "\<exists>w. bridge_step\<^sup>*\<^sup>* bridge_start w \<and> bridge_feed (bw_bridge w) 0 = [zero_event] \<and>
    (\<exists>b. bridge_publish 0 zero_event (bw_bridge w) = Ret b)"
  using bridge_safe [of _ 0 zero_event] demo_bridge_run by blast

text \<open>
  C24. A subscriber of the NATS bridge reads a subsequence, in order, of what was delivered to it,
  and while the channel is open the callback never panics. Ending the subscription does not
  wait for a running callback: a state is reachable in which the callback sends on the closed
  channel.
\<close>

theorem nats_bridge_race:
  assumes "nats_sub_step\<^sup>*\<^sup>* nats_sub_start s" and "unmarshal_event data = Some ev"
  shows "subseq (ns_read s) (ns_delivered s) \<and>
    (ns_phase s \<noteq> Closed \<longrightarrow> bridge_callback e (ns_chan s) \<noteq> Panic) \<and>
    (\<exists>s'. nats_sub_step\<^sup>*\<^sup>* nats_sub_start s' \<and> ns_running s' = Some ev \<and> bridge_callback ev (ns_chan s') = Panic)"
  using nats_sub_subseq(1) [OF assms(1)] nats_sub_subseq(2) [OF assms(1), of e] nats_sub_panics [OF assms(2)] by blast

theorem nats_bridge_race_witness:
  "\<exists>s. nats_sub_step\<^sup>*\<^sup>* nats_sub_start s \<and> ns_running s = Some zero_event \<and> bridge_callback zero_event (ns_chan s) = Panic"
proof -
  have "unmarshal_event (marshal_event zero_event) = Some zero_event"
    by (rule unmarshal_marshal) (simp add: event_encodable_def zero_event_def in_int64_def)
  from nats_bridge_race [OF rtranclp.rtrancl_refl this] show ?thesis by blast
qed

text \<open>
  C25. The hub, under every interleaving: what a browser has received and can still receive is a
  subsequence, in order, of the JSON texts of the events published since it subscribed that
  carry its own user ID; no event of another user reaches it. Publishing always succeeds.
\<close>

theorem hub_isolates_users:
  assumes "hub_step\<^sup>*\<^sup>* hub_start w"
  shows "(\<exists>h. hub_publish p ev (hw_hub w) = Ret h) \<and>
    list_all (\<lambda>i. subseq (hw_read w i @ ch_buf (hb_heap (hw_hub w) i))
      (map marshal_event (filter (\<lambda>ev. ev_UserID ev = hw_owner w i) (drop (hw_since w i) (hw_log w)))))
      [0..<hb_next (hw_hub w)]"
proof -
  have inv: "hub_log_inv w" using assms hub_log_inv_start by (rule hub_steps_log_inv)
  then have "hub_inv (hw_hub w)" by (simp add: hub_log_inv_def)
  with inv hub_publish_eq [of "hw_hub w" p ev] show ?thesis
    by (auto simp: list_all_iff hub_log_inv_def own_events_def)
qed

theorem hub_isolates_users_witness:
  "\<exists>w. hub_step\<^sup>*\<^sup>* hub_start w \<and> hb_next (hw_hub w) = 1 \<and> hw_log w = [zero_event] \<and>
    (\<exists>h. hub_publish 0 zero_event (hw_hub w) = Ret h)"
  using hub_isolates_users [of _ 0 zero_event] demo_hub_run by blast

section \<open>What travels on the wires\<close>

text \<open>
  C26. Tasks survive JSON, alone and in lists, through \<^verbatim>\<open>Unmarshal\<close> and through a streaming decoder
  behind the framework's newline: every field comes back, the times to the nanosecond, for
  tasks with valid UTF-8 strings and times in the years 0 to 9999.
\<close>

theorem task_json_roundtrip:
  assumes "task_encodable t" and "list_all task_encodable ts"
  shows "(\<exists>s. marshal_task t = Some s \<and> unmarshal_task s = Some t \<and> decode_task (s @ [newline]) = Some t) \<and>
    (\<exists>s. marshal_tasks ts = Some s \<and> decode_tasks (s @ [newline]) = Some ts)"
  using unmarshal_marshal_task [OF assms(1)] decode_marshal_tasks [OF assms(2)] by blast

theorem task_json_roundtrip_witness:
  "\<exists>s. marshal_task demo_task = Some s \<and> unmarshal_task s = Some demo_task"
  using task_json_roundtrip [OF demo_task_encodable, of "[demo_task]"] demo_task_encodable by auto

text \<open>
  C27. The event stream from a manager to an API process: the events the SSE client decodes from
  the text \<^verbatim>\<open>BridgeStream\<close> wrote, heartbeats and greeting included, are exactly those the
  stream took from its bridge channel, in order, when they are encodable and each fits a line
  of the client's scanner.
\<close>

theorem sse_stream_roundtrip:
  assumes "bridge_loop i es b = Ret (body, b')" and "\<forall>k. \<not> ctx_done (cx k)" and "\<not> ch_closed out"
    and "list_all (\<lambda>ev. event_encodable ev \<and> length (marshal_event ev) < 65530) (bridge_feed b i)"
    and "length (ch_buf out) + length (bridge_feed b i) \<le> ch_cap out"
  shows "\<exists>evs. bridge_feed b i = evs @ bridge_feed b' i \<and>
    stream_events cx (Inr (response 200 (connected_comment @ body))) out =
      Ret (None, out\<lparr>ch_buf := ch_buf out @ evs\<rparr>)"
  using assms by (rule bridge_stream_events)

theorem sse_stream_roundtrip_witness:
  "\<exists>b body b'. bridge_feed b 0 = [status_event demo_task TaskCompleted] \<and>
    bridge_loop 0 [\<lparr>se_ctx = Background, se_tick = False\<rparr>] b = Ret (body, b') \<and>
    stream_events (\<lambda>_. Background) (Inr (response 200 (connected_comment @ body))) sse_channel =
      Ret (None, sse_channel\<lparr>ch_buf := [status_event demo_task TaskCompleted]\<rparr>)"
proof -
  obtain b body b' where l: "bridge_feed b 0 = [status_event demo_task TaskCompleted]" "bridge_feed b' 0 = []"
    "bridge_loop 0 [\<lparr>se_ctx = Background, se_tick = False\<rparr>] b = Ret (body, b')"
    using demo_bridge_stream by blast
  have "\<not> ch_closed sse_channel" "ch_buf sse_channel = []" "ch_cap sse_channel = 64"
    by (simp_all add: sse_channel_def)
  with sse_stream_roundtrip [OF l(3), of "\<lambda>_. Background" sse_channel] l demo_status_encodable demo_status_short
  show ?thesis by auto
qed

text \<open>
  C28. Submitting through \<^verbatim>\<open>RemoteTaskManager\<close> does to the manager exactly what calling its
  \<^verbatim>\<open>Submit\<close> directly does; success is reported as success, and an error as the HTTP error of
  its status for 429 and 503, as a plain error for the rest.
\<close>

theorem proxy_submits:
  assumes "echo_ok E" and "task_encodable t" and "tm_submit TM x now t m = Ret (err, m1)"
  shows "remote_submit (manager_net E TM) x now t m =
    Ret (case err of None \<Rightarrow> None | Some e \<Rightarrow> proxy_error e, m1)"
  using assms by (rule proxy_submit)

theorem proxy_submits_witness:
  "\<exists>m1. remote_submit (manager_net plain_echo (manager_ops memory_store_ops channel_dispatcher_ops))
      Background 9 demo_task demo_manager = Ret (None, m1) \<and>
    mem_tasks (mg_store m1) ''t1'' = Some (demo_task\<lparr>task_DispatchedAt := Some 9\<rparr>)"
proof -
  obtain m1 where m1: "submit memory_store_ops channel_dispatcher_ops Background 9 demo_task demo_manager = Ret (None, m1)"
    "mem_tasks (mg_store m1) ''t1'' = Some (demo_task\<lparr>task_DispatchedAt := Some 9\<rparr>)"
    using p01_submit_cases [OF demo_manager_inv(1,2), of Background 9 demo_task] demo_manager_inv(3)
    by (auto simp: demo_manager_def chan_room_def)
  with proxy_submits [OF plain_echo_ok demo_task_encodable, of "manager_ops memory_store_ops channel_dispatcher_ops"
      Background 9 demo_manager None m1] show ?thesis by (simp add: manager_ops_def)
qed

section \<open>Bootstrapping edge workers\<close>

text \<open>
  C29. A token that was issued for a device name is accepted as that name up to the second of its
  expiry, and refused as expired afterwards, by the tokener that issued it.
\<close>

theorem token_roundtrip:
  assumes "valid_utf8 cn" and "in_int64 (unix_seconds (t0 + tk_ttl T))"
  shows "validate T now (fst (issue T t0 cn)) =
    (if unix_seconds now > unix_seconds (t0 + tk_ttl T) then Inl (Errorf ''token expired'') else Inr cn)"
  using assms by (rule validate_issue)

theorem token_roundtrip_witness:
  "validate demo_tokener (demo_time + Second) (fst (issue demo_tokener demo_time ''device-1'')) = Inr ''device-1''"
  using token_roundtrip [of "''device-1''" demo_time demo_tokener "demo_time + Second"]
  by (simp add: demo_tokener_def NewTokener_def token_ttl_def unix_seconds_def demo_time_def in_int64_def)


text \<open>
  C31. The bootstrap handshake, both sides, with a manager as its command sets it up from the
  environment, whatever names were revoked since: without a verified chain the worker gets an
  error; a device named in the comma-separated \<^verbatim>\<open>REVOKED_CNS\<close>, or revoked since, gets an error; any
  other gets the configured broker's address, the token issued for it and its expiry. The
  lifetime of a token is always positive.
\<close>

theorem p07_handshake:
  assumes "echo_ok E" and "p07_manager_setup Ev pair read certs Q topic subs A y pool b tplerr lnerr = Inr (env, cfg, a)"
    and "ec_string Ev ''revoked_cns'' [] = comma_list names" and "list_all (\<lambda>w. CHR '','' \<notin> set w \<and> w \<noteq> []) names"
    and "url = ec_string Ev ''broker_url'' ''nats://localhost:4222''" and "valid_utf8 url"
    and "time_text (now + tk_ttl (a7_tokener a)) \<noteq> None" and "R = fold Revoke later (a7_revocation a)"
    and "\<And>tls. net tls = handshake_net E (c7_BrokerURL cfg) (a7_tokener a) R now tls"
  shows "tk_ttl (a7_tokener a) > 0 \<and>
    (\<exists>err. doBootstrapOnce None (net None) x m = Ret (Inl err, m)) \<and>
    (\<exists>err. doBootstrapOnce None (net (Some [])) x m = Ret (Inl err, m)) \<and>
    (if cn \<in> set names \<union> set later
     then \<exists>err. doBootstrapOnce None (net (Some ((cn # cns) # rest))) x m = Ret (Inl err, m)
     else doBootstrapOnce None (net (Some ((cn # cns) # rest))) x m =
       Ret (Inr \<lparr>br_BrokerURL = url, br_Token = fst (issue (a7_tokener a) now cn),
         br_ExpiresAt = now + tk_ttl (a7_tokener a)\<rparr>, m))"
proof -
  note ps = p07_setup_app [OF assms(2)]
  have url: "c7_BrokerURL cfg = url" by (simp add: ps(2,4) assms(5))
  have names: "c7_RevokedCNs cfg = names"
    by (simp add: ps(3,5) assms(3) revoked_comma_list [OF assms(4)])
  obtain lnerr1 cl where "p07_NewManager Q topic subs A cfg y (pool (en_DatabaseURL env)) b tplerr lnerr1 = (Inr a, cl)"
    using ps(1) by blast
  note app = p07_New_app [OF this]
  have "IsRevoked R cn \<longleftrightarrow> cn \<in> set names \<union> set later"
    unfolding assms(8) app(2) names by (rule is_revoked_iff)
  moreover have "\<exists>err. doBootstrapOnce None (net tls) x m = Ret (Inl err, m)"
    if "bootstrapHandler E url (a7_tokener a) R now tls = Ret (Inl (HTTPError code msg None))" "code \<noteq> 200" for tls code msg
    unfolding assms(9) url using that by (intro bootstrap_once_refused [OF assms(1)])
  moreover have "0 < tk_ttl (a7_tokener a)" by (simp add: app(1) NewTokener_def token_ttl_def)
  ultimately show ?thesis
    using bootstrap_once_handler [OF assms(1,6,7), of R cn cns rest x m]
    by (auto simp: bootstrapHandler_def assms(9) url)
qed

theorem p07_handshake_witness:
  "\<exists>env cfg a. p07_setup_demo = Inr (env, cfg, a) \<and>
    (let net = (\<lambda>cn. handshake_net plain_echo (c7_BrokerURL cfg) (a7_tokener a) (Revoke ''lost'' (a7_revocation a)) demo_time (Some [[cn]]))
     in (\<exists>err. doBootstrapOnce None (net ''leaked'') Background () = Ret (Inl err, ())) \<and>
       (\<exists>err. doBootstrapOnce None (net ''lost'') Background () = Ret (Inl err, ())) \<and>
       (\<exists>resp. doBootstrapOnce None (net ''device-1'') Background () = Ret (Inr resp, ()) \<and> br_BrokerURL resp = demo_url))"
proof -
  obtain env cfg a where a: "p07_setup_demo = Inr (env, cfg, a)" and tk: "time_text (demo_time + tk_ttl (a7_tokener a)) \<noteq> None"
    using demo_p07_setup by blast
  have names: "ec_string demo_vars ''revoked_cns'' [] = comma_list [''stolen'', ''leaked'']"
    "demo_url = ec_string demo_vars ''broker_url'' ''nats://localhost:4222''" "valid_utf8 demo_url"
    "list_all (\<lambda>w. CHR '','' \<notin> set w \<and> w \<noteq> []) [''stolen'', ''leaked'']"
    by (simp_all add: demo_vars_def demo_url_def)
  note shake = p07_handshake [OF plain_echo_ok a [unfolded p07_setup_demo_def] names(1,4,2,3) tk refl refl,
      where later = "[''lost'']" and x = Background and m = "()" and cns = "[]" and rest = "[]"]
  show ?thesis
    using a shake [where cn = "''leaked''"] shake [where cn = "''lost''"] shake [where cn = "''device-1''"]
    by (intro exI [of _ env] exI [of _ cfg] exI [of _ a]) (auto simp: Let_def)
qed

text \<open>
  C32. The retried handshake ends: if every exchange returns, so does it, after at most four waits,
  the i-th of them i half seconds long.
\<close>

theorem bootstrap_retry:
  assumes "\<And>x m. \<exists>r m1. net x m = Ret (r, m1)"
  shows "\<exists>ds r m'. doBootstrapWithRetry bad net env m = Ret ((ds, r), m') \<and> length ds \<le> 4 \<and>
    ds = map (\<lambda>i. int (Suc i) * (500 * Millisecond)) [0..<length ds]"
proof -
  obtain ds r m' where r: "doBootstrapWithRetry bad net env m = Ret ((ds, r), m')"
    using bootstrap_attempts_return [of net bad env 0 5 "Errorf []" m] assms by (auto simp: doBootstrapWithRetry_def)
  with bootstrap_retry_waits [OF r] show ?thesis by blast
qed

theorem bootstrap_retry_witness:
  "\<exists>ds r. doBootstrapWithRetry None (\<lambda>x m. Ret (Inl (Errorf ''refused''), m))
      (\<lambda>_. \<lparr>ae_check = Background, ae_wait = Background, ae_call = Background\<rparr>) () = Ret ((ds, r), ()) \<and> length ds \<le> 4"
  using bootstrap_retry [where net = "\<lambda>x m. Ret (Inl (Errorf ''refused''), m :: unit)" and bad = None and m = "()"
      and env = "\<lambda>_. \<lparr>ae_check = Background, ae_wait = Background, ae_call = Background\<rparr>"] by auto

text \<open>
  C33. The renewal delay, in the rounding of \<^verbatim>\<open>float64\<close>: at least a second; shorter than the time
  left whenever that is more than a second; from two seconds on between 79 and 81 percent of
  it (less a nanosecond for the truncation).
\<close>

theorem renewal_delay:
  "Second \<le> renew_in d \<and> (Second < d \<longrightarrow> renew_in d < d) \<and>
   (2 * Second \<le> d \<longrightarrow> 79 * d \<le> 100 * renew_in d + 100 \<and> 100 * renew_in d \<le> 81 * d)"
  using renew_in_bounds [of d] by blast

theorem renewal_delay_witness:
  "Second \<le> renew_in (15 * 60 * Second) \<and> renew_in (15 * 60 * Second) < 15 * 60 * Second"
  using renewal_delay [of "15 * 60 * Second"] by simp

section \<open>Broker addresses\<close>


section \<open>Pattern 3: WebSocket workers\<close>



text \<open>
  C36. Safety of the WebSocket dispatcher under every interleaving of registrations, dispatches,
  pump turns and disconnections: dispatching never sends on a closed channel, and closing a
  leaving worker's channel never closes it twice.
\<close>

theorem ws_safe:
  assumes "ws_step\<^sup>*\<^sup>* ws_world_start s"
  shows "(\<exists>r. ws_dispatch c t (ww_disp s) = Ret r) \<and>
    list_all (\<lambda>w. \<not> ch_closed (wc_send (wd_heap (ww_disp s) w))) (wd_workers (ww_disp s)) \<and>
    list_all (\<lambda>w. \<exists>d. ws_close_send w (ww_disp s) = Ret d)
      (filter (\<lambda>w. ww_pump s w = Leaving) [0..<wd_fresh (ww_disp s)])"
proof -
  have inv: "ws_world_inv s" using assms ws_world_inv_start by (rule ws_steps_inv)
  then have "ws_inv (ww_disp s)" by (simp add: ws_world_inv_def)
  with inv ws_disp.dispatch_returns [of "ww_disp s" c t] show ?thesis
    by (auto simp: list_all_iff ws_world_inv_def ws_inv_def conn_ok_def ws_close_send_def chan_close_def)
qed

theorem ws_safe_witness:
  "\<exists>s. ws_step\<^sup>*\<^sup>* ws_world_start s \<and> wd_workers (ww_disp s) = [0] \<and>
    (\<exists>r. ws_dispatch Background demo_task (ww_disp s) = Ret r)"
proof -
  obtain s where s: "ws_step\<^sup>*\<^sup>* ws_world_start s" "wd_workers (ww_disp s) = [0]" using demo_ws_run_register by blast
  from ws_safe [OF s(1), of Background demo_task] s show ?thesis by blast
qed

section \<open>Pattern 4: gRPC workers\<close>

text \<open>
  C37. The gRPC server loses and duplicates no task: in every state reachable by any interleaving
  of submissions, dispatches, the dispatch loop, worker connections, disconnections and events,
  the tasks accepted so far are exactly those pending, the one the loop holds, and those sent
  to a worker.
\<close>

theorem grpc_conserves_tasks:
  assumes "grpc_step\<^sup>*\<^sup>* grpc_world_start w"
  shows "gw_accepted w = mset (ch_buf (gs_pending (gw_server w))) + held (gw_loop w) + gw_delivered w"
  using grpc_steps_conserved [OF assms grpc_conserved_start] by (simp add: grpc_conserved_def grpc_queued_def)

theorem grpc_conserves_tasks_witness:
  "grpc_step\<^sup>*\<^sup>* grpc_world_start (left_behind demo_task) \<and> gw_accepted (left_behind demo_task) = {#demo_task#} \<and>
   gw_delivered (left_behind demo_task) = {#}"
  using grpc_conserves_tasks [OF left_behind_reachable [of demo_task]] left_behind_reachable [of demo_task]
  by (simp add: left_behind_def NewServer_def grpc_world_start_def)

text \<open>
  C38. The dispatch loop can block for good: it puts a task back with a blocking send on the
  queue only it drains. A state is reachable, with a hundred and one accepted tasks and none
  delivered, from which no continuation ever delivers a task or changes the pending queue.
\<close>

theorem grpc_loop_deadlock:
  "\<exists>w. grpc_step\<^sup>*\<^sup>* grpc_world_start w \<and> size (gw_accepted w) = 101 \<and>
     (\<forall>w'. grpc_step\<^sup>*\<^sup>* w w' \<longrightarrow> gw_delivered w' = {#} \<and>
        gs_pending (gw_server w') = gs_pending (gw_server w) \<and> gw_loop w' = gw_loop w)"
proof -
  obtain w where w: "grpc_step\<^sup>*\<^sup>* grpc_world_start w" "grpc_stuck w" "gw_delivered w = {#}" "size (gw_accepted w) = 101"
    using grpc_stuck_reachable by blast
  have "gw_delivered w' = {#} \<and> gs_pending (gw_server w') = gs_pending (gw_server w) \<and> gw_loop w' = gw_loop w"
    if "grpc_step\<^sup>*\<^sup>* w w'" for w'
    using grpc_steps_stuck [OF that w(2)] w(3) by (simp add: grpc_frozen_def)
  with w(1,4) show ?thesis by blast
qed

theorem grpc_loop_deadlock_witness:
  "\<exists>w. grpc_step\<^sup>*\<^sup>* grpc_world_start w \<and> size (gw_accepted w) = 101 \<and> gw_delivered w = {#}"
  using grpc_loop_deadlock by blast

text \<open>
  C39. Worker IDs are not unique: with n workers connected, after any but the last has left, a
  newly connecting worker is given the ID of the last one, and registering it replaces that
  worker's stream.
\<close>

theorem grpc_worker_id_collision:
  assumes "1 \<le> k" and "k < n"
  shows "let s = removeWorker (''worker-'' @ itoa k) (workers_connect n NewServer)
    in map_of (gs_streams s) (worker_id s) = Some n \<and>
       map_of (gs_streams (connect_register (worker_id s) stream s)) (worker_id s) = Some stream"
proof -
  let ?s = "removeWorker (''worker-'' @ itoa k) (workers_connect n NewServer)"
  have id: "worker_id ?s = ''worker-'' @ itoa n" using assms by (rule worker_id_reused)
  have "map_of (gs_streams (workers_connect n NewServer)) (''worker-'' @ itoa n) = Some n"
    unfolding workers_connect_streams using assms by (intro map_of_is_SomeI) (auto simp: distinct_map inj_on_def comp_def)
  with assms show ?thesis unfolding Let_def id by (simp add: removeWorker_def connect_register_def)
qed

theorem grpc_worker_id_collision_witness:
  "let s = removeWorker (''worker-'' @ itoa 1) (workers_connect 2 NewServer)
   in map_of (gs_streams s) (worker_id s) = Some 2 \<and>
      map_of (gs_streams (connect_register (worker_id s) 3 s)) (worker_id s) = Some 3"
  using grpc_worker_id_collision [of 1 2 3] by simp

text \<open>
  C40. Submitting through the gRPC client stores the task as it arrived and queues it when the
  queue has room. A full queue is an error of the call, but the task stays in the store as
  pending, unlike on the HTTP path, where it is marked failed.
\<close>

theorem grpc_client_submit:
  assumes "gs_inv s" and "mem_inv m" and "mem_tasks m (task_ID t) = None"
  shows "\<exists>err s' m'. client_submit (server_stub st memory_store_ops) x now t (s, m) = Ret (err, s', m') \<and>
    mem_tasks m' = (mem_tasks m)(task_ID t \<mapsto> task_proto_view t) \<and>
    (if chan_room (gs_pending s) then err = None \<and> s' = s\<lparr>gs_pending := chan_push (task_proto_view t) (gs_pending s)\<rparr>
     else err = Some (OtherError (st (ResourceExhausted ''dispatch queue full''))) \<and> s' = s)"
proof -
  have id: "task_ID (task_proto_view t) = task_ID t" by (simp add: task_proto_view_def Let_def)
  have "mem_tasks (snd (mem_create (task_proto_view t) m)) = (mem_tasks m)(task_ID t \<mapsto> task_proto_view t)"
    using mem.create_state [OF assms(2), of "task_proto_view t"] assms(3) id by (simp add: spec_create_def)
  with client_submit_spec [OF assms(1,3), of st x now] show ?thesis by (simp add: Let_def)
qed

theorem grpc_client_submit_witness:
  "\<exists>s' m'. client_submit (server_stub (\<lambda>_. Errorf ''rpc error'') memory_store_ops) Background 9 demo_task (NewServer, NewMemoryStore)
      = Ret (None, s', m') \<and> mem_tasks m' ''t1'' = Some (task_proto_view demo_task)"
proof -
  have "chan_room (gs_pending NewServer)" by (simp add: NewServer_def chan_room_def)
  with grpc_client_submit [of NewServer NewMemoryStore demo_task "\<lambda>_. Errorf ''rpc error''" Background 9]
  show ?thesis by auto
qed

end
